(* ===== verification/Novo_Prelude.thy ===== *)
theory Novo_Prelude
  imports Main "HOL-Library.Word"
begin

text \<open>
  Shared vocabulary of the development: the machine types of the C++ sources, the result
  type with its sequencing operator \<open>bindE\<close> (an early return or a thrown exception is
  \<open>Inl\<close>, normal completion is \<open>Inr\<close>), and the little- and big-endian byte codecs on which
  script numbers, push opcodes, wire serialization and hash padding all rest.  The
  facts every component uses are declared as simp rules here.
\<close>

unbundle bit_operations_syntax

named_theorems codec_simps \<open>rewrite rules for byte codecs\<close>

subsection \<open>Machine types\<close>

type_synonym byte = "8 word"
type_synonym u16 = "16 word"
type_synonym u32 = "32 word"
type_synonym u64 = "64 word"
type_synonym i64 = "64 word" \<comment> \<open>two's complement, read with \<open>sint\<close>\<close>
type_synonym valtype = "byte list"

subsection \<open>Results\<close>

definition bindE :: "'e + 'a \<Rightarrow> ('a \<Rightarrow> 'e + 'b) \<Rightarrow> 'e + 'b" where
  "bindE m f = (case m of Inl e \<Rightarrow> Inl e | Inr x \<Rightarrow> f x)"

definition of_opt :: "'e \<Rightarrow> 'a option \<Rightarrow> 'e + 'a" where
  "of_opt e m = (case m of None \<Rightarrow> Inl e | Some x \<Rightarrow> Inr x)"

subsection \<open>Byte codecs\<close>

fun le_nat :: "byte list \<Rightarrow> nat" where
  "le_nat [] = 0"
| "le_nat (b # bs) = unat b + 256 * le_nat bs"

fun le_bytes :: "nat \<Rightarrow> nat \<Rightarrow> byte list" where
  "le_bytes 0 v = []"
| "le_bytes (Suc n) v = word_of_nat v # le_bytes n (v div 256)"

definition be_nat :: "byte list \<Rightarrow> nat" where
  "be_nat bs = le_nat (rev bs)"

definition be_bytes :: "nat \<Rightarrow> nat \<Rightarrow> byte list" where
  "be_bytes n v = rev (le_bytes n v)"

subsection \<open>Facts about results\<close>

lemma bindE_simps [simp]:
  "bindE (Inl e) f = Inl e"
  "bindE (Inr x) f = f x"
  by (simp_all add: bindE_def)

lemma bindE_eq_Inr:
  "bindE m f = Inr y \<longleftrightarrow> (\<exists>x. m = Inr x \<and> f x = Inr y)"
  by (cases m) auto

lemma bindE_eq_Inl:
  "bindE m f = Inl e \<longleftrightarrow> m = Inl e \<or> (\<exists>x. m = Inr x \<and> f x = Inl e)"
  by (cases m) auto

lemma bindE_assoc: "bindE (bindE m f) g = bindE m (\<lambda>x. bindE (f x) g)"
  by (cases m) auto

lemma bindE_cong:
  "m = m' \<Longrightarrow> (\<And>x. m' = Inr x \<Longrightarrow> f x = f' x) \<Longrightarrow> bindE m f = bindE m' f'"
  by (cases m') auto

lemma of_opt_simps [simp]:
  "of_opt e None = Inl e"
  "of_opt e (Some x) = Inr x"
  by (simp_all add: of_opt_def)

lemma of_opt_eq [simp]:
  "of_opt e m = Inr x \<longleftrightarrow> m = Some x"
  "of_opt e m = Inl e' \<longleftrightarrow> m = None \<and> e' = e"
  by (cases m; auto)+

subsection \<open>Facts about bytes\<close>

lemma unat_byte_less [simp]: "unat (b :: byte) < 256"
  using unsigned_less [of b] by simp

lemma unat_byte_le [simp]: "unat (b :: byte) \<le> 255"
  using unat_byte_less [of b] by linarith

lemma unat_word_of_nat_byte [codec_simps]: "unat (word_of_nat n :: byte) = n mod 256"
  by (simp add: unat_of_nat)

lemma unat_drop_bit_div [codec_simps]:
  "unat (drop_bit n (x :: 'a :: len word)) = unat x div 2 ^ n"
  unfolding unat_drop_bit_eq by (rule drop_bit_eq_div)

lemma length_le_bytes [simp]: "length (le_bytes n v) = n"
  by (induction n arbitrary: v) auto

lemma length_be_bytes [simp]: "length (be_bytes n v) = n"
  by (simp add: be_bytes_def)

lemma le_nat_bound: "le_nat bs < 256 ^ length bs"
proof (induction bs)
  case (Cons b bs)
  have "unat b < 256" by simp
  with Cons.IH have "unat b + 256 * le_nat bs < 256 * 256 ^ length bs"
    by linarith
  then show ?case by simp
qed simp

lemma le_nat_append [simp]:
  "le_nat (xs @ ys) = le_nat xs + 256 ^ length xs * le_nat ys"
  by (induction xs) (simp_all add: algebra_simps)

lemma le_nat_replicate_0 [simp]: "le_nat (replicate n 0) = 0"
  by (induction n) auto

lemma le_nat_le_bytes [codec_simps]: "le_nat (le_bytes n v) = v mod 256 ^ n"
proof (induction n arbitrary: v)
  case (Suc n)
  have "le_nat (le_bytes (Suc n) v) = v mod 256 + 256 * (v div 256 mod 256 ^ n)"
    by (simp add: Suc.IH codec_simps)
  also have "\<dots> = v mod (256 * 256 ^ n)"
    by (simp add: mod_mult2_eq)
  finally show ?case by simp
qed simp

lemma le_bytes_le_nat [codec_simps]: "le_bytes (length bs) (le_nat bs) = bs"
proof (induction bs)
  case (Cons b bs)
  have "word_of_nat (256 * le_nat bs) = (0 :: byte)"
    by (simp add: word_of_nat_eq_0_iff del: of_nat_mult)
  then have "word_of_nat (unat b + 256 * le_nat bs) = b"
    by (simp del: of_nat_mult)
  moreover have "(unat b + 256 * le_nat bs) div 256 = le_nat bs"
    by simp
  ultimately show ?case using Cons.IH by simp
qed simp

lemma le_nat_inj: "length xs = length ys \<Longrightarrow> le_nat xs = le_nat ys \<Longrightarrow> xs = ys"
  by (metis le_bytes_le_nat)

lemma le_nat_eq_0_iff: "le_nat bs = 0 \<longleftrightarrow> set bs \<subseteq> {0}"
  by (induction bs) (auto simp: unat_eq_0)

lemma be_nat_be_bytes [codec_simps]: "be_nat (be_bytes n v) = v mod 256 ^ n"
  by (simp add: be_nat_def be_bytes_def codec_simps)

lemma be_bytes_be_nat [codec_simps]: "be_bytes (length bs) (be_nat bs) = bs"
  using le_bytes_le_nat [of "rev bs"] by (simp add: be_nat_def be_bytes_def)

lemma be_nat_append: "be_nat (xs @ ys) = be_nat ys + 256 ^ length ys * be_nat xs"
  by (simp add: be_nat_def)

lemma be_nat_bound: "be_nat bs < 256 ^ length bs"
  using le_nat_bound [of "rev bs"] by (simp add: be_nat_def)

lemma be_nat_simps [simp]:
  "be_nat [] = 0"
  "be_nat (b # bs) = 256 ^ length bs * unat b + be_nat bs"
  by (simp_all add: be_nat_def)

subsection \<open>Single bits of a byte\<close>

lemma nat_and_127: "(n::nat) AND 127 = n mod 128"
  using take_bit_eq_mask [of 7 n] by (simp add: mask_eq_exp_minus_1 take_bit_eq_mod)

lemma byte_and_7f: "unat ((b::byte) AND 0x7f) = unat b mod 128"
  by (simp add: unsigned_and_eq nat_and_127)

lemma nat_and_exp: "(n::nat) AND 2 ^ k = of_bool (bit n k) * 2 ^ k"
  by (rule bit_eqI) (auto simp: bit_and_iff bit_exp_iff)

lemma nat_and_128: "(n::nat) < 256 \<Longrightarrow> n AND 128 = (if n < 128 then 0 else 128)"
proof -
  assume n: "n < 256"
  have "n AND 2 ^ 7 = of_bool (bit n 7) * 2 ^ 7"
    by (rule nat_and_exp)
  moreover have "bit n 7 \<longleftrightarrow> 128 \<le> n"
  proof -
    have "n div 128 \<le> 1" using n by linarith
    then have "n div 128 = 0 \<or> n div 128 = 1" by linarith
    then show ?thesis by (auto simp: bit_iff_odd)
  qed
  ultimately show ?thesis by simp
qed

lemma byte_and_80: "unat ((b::byte) AND 0x80) = (if unat b < 128 then 0 else 128)"
  by (simp add: unsigned_and_eq nat_and_128)

lemma byte_and_80_0 [codec_simps]: "(b::byte) AND 0x80 = 0 \<longleftrightarrow> unat b < 128"
  using byte_and_80 [of b] by (metis unat_0 unsigned_eq_0_iff zero_neq_numeral)

lemma byte_and_7f_0 [codec_simps]: "(b::byte) AND 0x7f = 0 \<longleftrightarrow> unat b mod 128 = 0"
  using byte_and_7f [of b] by (metis unsigned_eq_0_iff)

lemma byte_or_80: "unat b < 128 \<Longrightarrow> unat ((b::byte) OR 0x80) = unat b + 128"
proof -
  assume b: "unat b < 128"
  then have "unat b AND 128 = 0"
    by (simp add: nat_and_128)
  then have "unat b OR 128 = unat b + 128"
    by (simp add: disjunctive_add_eq_or)
  then show ?thesis by (simp add: unsigned_or_eq)
qed

subsection \<open>Lists seen from the end\<close>

lemma length_ge_1_snoc: "1 \<le> length xs \<Longrightarrow> \<exists>ys a. xs = ys @ [a]"
  by (cases xs rule: rev_cases) auto

lemma length_ge_2_snoc: "2 \<le> length xs \<Longrightarrow> \<exists>ys a b. xs = ys @ [a, b]"
proof -
  assume "2 \<le> length xs"
  then obtain ys b where xs: "xs = ys @ [b]" and "1 \<le> length ys"
    by (cases xs rule: rev_cases) auto
  then obtain zs a where "ys = zs @ [a]" using length_ge_1_snoc by blast
  with xs show ?thesis by simp
qed

lemma length_ge_3_snoc: "3 \<le> length xs \<Longrightarrow> \<exists>ys a b c. xs = ys @ [a, b, c]"
proof -
  assume "3 \<le> length xs"
  then obtain ys c where xs: "xs = ys @ [c]" and "2 \<le> length ys"
    by (cases xs rule: rev_cases) auto
  then obtain zs a b where "ys = zs @ [a, b]" using length_ge_2_snoc by blast
  with xs show ?thesis by simp
qed

lemma length_ge_4_snoc: "4 \<le> length xs \<Longrightarrow> \<exists>ys a b c d. xs = ys @ [a, b, c, d]"
proof -
  assume "4 \<le> length xs"
  then obtain ys d where xs: "xs = ys @ [d]" and "3 \<le> length ys"
    by (cases xs rule: rev_cases) auto
  then obtain zs a b c where "ys = zs @ [a, b, c]" using length_ge_3_snoc by blast
  with xs show ?thesis by simp
qed

subsection \<open>Functional refinement of fallible operations\<close>

fun runE :: "('s \<Rightarrow> 'o \<Rightarrow> 'e + 's) \<Rightarrow> 's \<Rightarrow> 'o list \<Rightarrow> 'e + 's" where
  "runE f s [] = Inr s"
| "runE f s (c # cs) = bindE (f s c) (\<lambda>s'. runE f s' cs)"

lemma runE_append: "runE f s (xs @ ys) = bindE (runE f s xs) (\<lambda>s'. runE f s' ys)"
  by (induction xs arbitrary: s) (simp_all add: bindE_assoc)

text \<open>Concrete operations \<open>step\<close> on states \<open>rep a\<close> implement abstract operations \<open>astep\<close> on
  the states \<open>a\<close> that satisfy \<open>inv\<close>; then sequences of operations do, errors included.\<close>

locale functional_refinement =
  fixes rep :: "'a \<Rightarrow> 's" and step :: "'s \<Rightarrow> 'o \<Rightarrow> 'e + 's"
    and astep :: "'a \<Rightarrow> 'o \<Rightarrow> 'e + 'a" and inv :: "'a \<Rightarrow> bool"
  assumes step_rep: "inv a \<Longrightarrow> step (rep a) c = map_sum id rep (astep a c)"
    and astep_inv: "inv a \<Longrightarrow> astep a c = Inr a' \<Longrightarrow> inv a'"
begin

lemma run_inv: "inv a \<Longrightarrow> runE astep a cs = Inr a' \<Longrightarrow> inv a'"
  by (induction cs arbitrary: a) (auto simp: bindE_eq_Inr dest: astep_inv)

lemma run_rep: "inv a \<Longrightarrow> runE step (rep a) cs = map_sum id rep (runE astep a cs)"
proof (induction cs arbitrary: a)
  case (Cons c cs)
  then show ?case
    by (cases "astep a c") (simp_all add: step_rep astep_inv [OF Cons.prems])
qed simp

end

end
