(* ===== verification/Crypto_Common.thy ===== *)
theory Crypto_Common
  imports Novo_Prelude
begin

text \<open>
  \<open>src/src/crypto/common.h\<close>: fixed-width little- and big-endian reads and writes of byte
  buffers.  A pointer is the rest of the buffer; what is written is the byte list.
\<close>

subsection \<open>Fixed-width reads and writes\<close>

definition ReadLE16 :: "byte list \<Rightarrow> u16" where "ReadLE16 p = word_of_nat (le_nat (take 2 p))"
definition ReadLE32 :: "byte list \<Rightarrow> u32" where "ReadLE32 p = word_of_nat (le_nat (take 4 p))"
definition ReadLE64 :: "byte list \<Rightarrow> u64" where "ReadLE64 p = word_of_nat (le_nat (take 8 p))"
definition ReadBE32 :: "byte list \<Rightarrow> u32" where "ReadBE32 p = word_of_nat (be_nat (take 4 p))"
definition ReadBE64 :: "byte list \<Rightarrow> u64" where "ReadBE64 p = word_of_nat (be_nat (take 8 p))"
definition WriteLE16 :: "u16 \<Rightarrow> byte list" where "WriteLE16 x = le_bytes 2 (unat x)"
definition WriteLE32 :: "u32 \<Rightarrow> byte list" where "WriteLE32 x = le_bytes 4 (unat x)"
definition WriteLE64 :: "u64 \<Rightarrow> byte list" where "WriteLE64 x = le_bytes 8 (unat x)"
definition WriteBE32 :: "u32 \<Rightarrow> byte list" where "WriteBE32 x = be_bytes 4 (unat x)"
definition WriteBE64 :: "u64 \<Rightarrow> byte list" where "WriteBE64 x = be_bytes 8 (unat x)"

subsection \<open>Codec facts\<close>

lemma take_le_bytes_append [simp]: "take n (le_bytes n v @ r) = le_bytes n v"
  by simp

lemma unat_word_less [simp]:
  "unat (x :: u16) < 65536" "unat (y :: u32) < 4294967296" "unat (z :: u64) < 18446744073709551616"
proof -
  have "unat w < 2 ^ LENGTH('a)" for w :: "'a :: len word" by (rule unsigned_less)
  from this [of x] this [of y] this [of z] show
    "unat (x :: u16) < 65536" "unat (y :: u32) < 4294967296" "unat (z :: u64) < 18446744073709551616"
    by simp_all
qed

lemma read_write [codec_simps]:
  "ReadLE16 (WriteLE16 x @ r) = x" "ReadLE32 (WriteLE32 y @ r) = y" "ReadLE64 (WriteLE64 z @ r) = z"
  "ReadBE32 (WriteBE32 y @ r) = y" "ReadBE64 (WriteBE64 z @ r) = z"
  by (simp_all add: ReadLE16_def WriteLE16_def ReadLE32_def WriteLE32_def ReadLE64_def
      WriteLE64_def ReadBE32_def WriteBE32_def ReadBE64_def WriteBE64_def codec_simps)

lemma length_write [simp]:
  "length (WriteLE16 x) = 2" "length (WriteLE32 y) = 4" "length (WriteLE64 z) = 8"
  "length (WriteBE32 y) = 4" "length (WriteBE64 z) = 8"
  by (simp_all add: WriteLE16_def WriteLE32_def WriteLE64_def WriteBE32_def WriteBE64_def)

lemma write_read [codec_simps]:
  "length bs = 4 \<Longrightarrow> WriteLE32 (ReadLE32 (bs @ r)) = bs"
  using le_nat_bound [of bs] le_bytes_le_nat [of bs]
  by (simp add: WriteLE32_def ReadLE32_def unat_of_nat)

lemma unat_word_of_nat_small [codec_simps]:
  "n < 2 ^ LENGTH('a) \<Longrightarrow> unat (word_of_nat n :: 'a :: len word) = n"
  by (simp add: unat_of_nat)

lemma WriteBE64_of_nat: "WriteBE64 (word_of_nat n) = be_bytes 8 n"
proof -
  have "le_bytes k (n mod 256 ^ k) = le_bytes k n" for k
    using le_bytes_le_nat [of "le_bytes k n"] by (simp add: codec_simps)
  from this [of 8] show ?thesis by (simp add: WriteBE64_def be_bytes_def unat_of_nat)
qed

text \<open>Evaluation without unary naturals.\<close>

lemma word_of_le_nat:
  "word_of_nat (le_nat bs) = foldr (\<lambda>b acc. ucast b + 256 * acc) bs (0 :: 'a :: len word)"
  by (induction bs) simp_all

lemma read_code [code]:
  "ReadLE16 p = foldr (\<lambda>b acc. ucast b + 256 * acc) (take 2 p) 0"
  "ReadLE32 p = foldr (\<lambda>b acc. ucast b + 256 * acc) (take 4 p) 0"
  "ReadLE64 p = foldr (\<lambda>b acc. ucast b + 256 * acc) (take 8 p) 0"
  "ReadBE32 p = foldr (\<lambda>b acc. ucast b + 256 * acc) (rev (take 4 p)) 0"
  "ReadBE64 p = foldr (\<lambda>b acc. ucast b + 256 * acc) (rev (take 8 p)) 0"
  by (simp_all add: ReadLE16_def ReadLE32_def ReadLE64_def ReadBE32_def ReadBE64_def be_nat_def
      word_of_le_nat)

end
