(* ===== verification/Sha2_Core.thy ===== *)
theory Sha2_Core
  imports Crypto_Common
begin

text \<open>
  What the unrolled SHA-256 and SHA-512 compression functions of \<open>src/src/crypto/\<close> have in
  common.  The source calls one \<open>Round\<close> per line with the eight working variables in
  rotating roles, passing variables to be updated by reference, and keeps the message
  schedule in sixteen variables that are updated in place.  The model keeps this form: the
  working variables are a list of registers, a line of the source is the register numbers of
  its arguments, its constant and its schedule expression.  The lemmas show that such a
  program computes the rounds of the standard, in which the registers shift and the schedule
  is one recurrence.
\<close>

text \<open>Schedule expressions: \<open>w\<^sub>i = Read(chunk + off)\<close>, then
  \<open>w\<^sub>i += sigma1(w\<^sub>a) + w\<^sub>b + sigma0(w\<^sub>c)\<close>, and the same sum without the update.\<close>

datatype wexpr = WRead nat nat | WUpdate nat nat nat nat | WSum nat nat nat nat

type_synonym 'w sha2_line = "nat list \<times> 'w \<times> wexpr"

definition sha2_Round ::
  "('w :: len word \<Rightarrow> 'w word) \<Rightarrow> ('w word \<Rightarrow> 'w word) \<Rightarrow> ('w word \<Rightarrow> 'w word \<Rightarrow> 'w word \<Rightarrow> 'w word) \<Rightarrow>
   ('w word \<Rightarrow> 'w word \<Rightarrow> 'w word \<Rightarrow> 'w word) \<Rightarrow> 'w word list \<Rightarrow> nat list \<Rightarrow> 'w word \<Rightarrow> 'w word \<Rightarrow> 'w word list" where
  "sha2_Round S0 S1 ch maj regs args k w =
     (let a = regs ! (args ! 0); b = regs ! (args ! 1); c = regs ! (args ! 2);
          e = regs ! (args ! 4); f = regs ! (args ! 5); g = regs ! (args ! 6);
          t1 = regs ! (args ! 7) + S1 e + ch e f g + k + w;
          t2 = S0 a + maj a b c
      in regs[args ! 3 := regs ! (args ! 3) + t1, args ! 7 := t1 + t2])"

fun sha2_word ::
  "('w :: len word \<Rightarrow> 'w word) \<Rightarrow> ('w word \<Rightarrow> 'w word) \<Rightarrow> (byte list \<Rightarrow> 'w word) \<Rightarrow>
   byte list \<Rightarrow> 'w word list \<Rightarrow> wexpr \<Rightarrow> 'w word \<times> 'w word list" where
  "sha2_word s0 s1 rd chunk ws (WRead i off) = (let v = rd (drop off chunk) in (v, ws[i := v]))"
| "sha2_word s0 s1 rd chunk ws (WUpdate i a b c) =
     (let v = ws ! i + (s1 (ws ! a) + ws ! b + s0 (ws ! c)) in (v, ws[i := v]))"
| "sha2_word s0 s1 rd chunk ws (WSum i a b c) =
     (ws ! i + s1 (ws ! a) + ws ! b + s0 (ws ! c), ws)"

subsection \<open>The standard's rounds\<close>

function schedule ::
  "('w :: len word \<Rightarrow> 'w word) \<Rightarrow> ('w word \<Rightarrow> 'w word) \<Rightarrow> (nat \<Rightarrow> 'w word) \<Rightarrow> nat \<Rightarrow> 'w word" where
  "schedule s0 s1 m t =
     (if t < 16 then m t
      else s1 (schedule s0 s1 m (t - 2)) + schedule s0 s1 m (t - 7) +
           s0 (schedule s0 s1 m (t - 15)) + schedule s0 s1 m (t - 16))"
  by pat_completeness auto
termination by (relation "measure (\<lambda>(s0, s1, m, t). t)") auto

declare schedule.simps [simp del]

definition std_round ::
  "('w :: len word \<Rightarrow> 'w word) \<Rightarrow> ('w word \<Rightarrow> 'w word) \<Rightarrow> ('w word \<Rightarrow> 'w word \<Rightarrow> 'w word \<Rightarrow> 'w word) \<Rightarrow>
   ('w word \<Rightarrow> 'w word \<Rightarrow> 'w word \<Rightarrow> 'w word) \<Rightarrow> 'w word \<Rightarrow> 'w word \<Rightarrow> 'w word list \<Rightarrow> 'w word list" where
  "std_round S0 S1 ch maj k w v =
     (let t1 = v ! 7 + S1 (v ! 4) + ch (v ! 4) (v ! 5) (v ! 6) + k + w;
          t2 = S0 (v ! 0) + maj (v ! 0) (v ! 1) (v ! 2)
      in [t1 + t2, v ! 0, v ! 1, v ! 2, v ! 3 + t1, v ! 4, v ! 5, v ! 6])"

subsection \<open>Register rotation\<close>

definition roles :: "nat \<Rightarrow> nat list" where
  "roles t = map (\<lambda>i. (i + 7 * t) mod 8) [0..<8]"

definition rotated :: "nat \<Rightarrow> 'a list \<Rightarrow> 'a list" where
  "rotated t regs = map (\<lambda>i. regs ! i) (roles t)"

lemma roles_mod: "roles t = roles (t mod 8)"
  unfolding roles_def by (intro map_cong refl) (metis mod_add_right_eq mod_mult_right_eq)

lemma Suc_roles: "roles (Suc t) = roles (Suc (t mod 8))"
  by (metis roles_mod mod_Suc_eq)

lemma length_eight: "length xs = 8 \<Longrightarrow> \<exists>a b c d e f g h. xs = [a, b, c, d, e, f, g, h]"
  by (auto simp: numeral_eq_Suc length_Suc_conv)

lemma less_eight_cases: "(r :: nat) < 8 \<Longrightarrow> r = 0 \<or> r = 1 \<or> r = 2 \<or> r = 3 \<or> r = 4 \<or> r = 5 \<or> r = 6 \<or> r = 7"
  by auto

lemma upt_8: "[0..<8] = [0, 1, 2, 3, 4, 5, 6, 7 :: nat]"
  by (simp add: upt_rec)

lemma rotated_Round:
  assumes "length regs = 8"
  shows "rotated (Suc t) (sha2_Round S0 S1 ch maj regs (roles t) k w) =
    std_round S0 S1 ch maj k w (rotated t regs)"
proof -
  obtain a b c d e f g h where regs: "regs = [a, b, c, d, e, f, g, h]"
    using length_eight [OF assms] by blast
  have "t mod 8 < 8" by simp
  from less_eight_cases [OF this] show ?thesis
    unfolding rotated_def Suc_roles [of t] roles_mod [of t] regs
    by (elim disjE) (simp_all add: roles_def upt_8 sha2_Round_def std_round_def Let_def)
qed

lemma rotated_0: "length regs = 8 \<Longrightarrow> rotated 0 regs = regs"
  using length_eight [of regs] by (auto simp: rotated_def roles_def upt_8)

lemma length_sha2_Round [simp]: "length (sha2_Round S0 S1 ch maj regs args k w) = length regs"
  by (simp add: sha2_Round_def Let_def)

subsection \<open>Programs\<close>

definition sha2_step ::
  "('w :: len word \<Rightarrow> 'w word) \<Rightarrow> ('w word \<Rightarrow> 'w word) \<Rightarrow> ('w word \<Rightarrow> 'w word \<Rightarrow> 'w word \<Rightarrow> 'w word) \<Rightarrow>
   ('w word \<Rightarrow> 'w word \<Rightarrow> 'w word \<Rightarrow> 'w word) \<Rightarrow> ('w word \<Rightarrow> 'w word) \<Rightarrow> ('w word \<Rightarrow> 'w word) \<Rightarrow>
   (byte list \<Rightarrow> 'w word) \<Rightarrow> byte list \<Rightarrow> 'w word list \<times> 'w word list \<Rightarrow> 'w word sha2_line \<Rightarrow>
   'w word list \<times> 'w word list" where
  "sha2_step S0 S1 ch maj s0 s1 rd chunk = (\<lambda>(regs, ws) (args, k, e).
     let (v, ws') = sha2_word s0 s1 rd chunk ws e
     in (sha2_Round S0 S1 ch maj regs args k v, ws'))"

primrec std_rounds ::
  "('w :: len word \<Rightarrow> 'w word) \<Rightarrow> ('w word \<Rightarrow> 'w word) \<Rightarrow> ('w word \<Rightarrow> 'w word \<Rightarrow> 'w word \<Rightarrow> 'w word) \<Rightarrow>
   ('w word \<Rightarrow> 'w word \<Rightarrow> 'w word \<Rightarrow> 'w word) \<Rightarrow> 'w word list \<Rightarrow> (nat \<Rightarrow> 'w word) \<Rightarrow> 'w word list \<Rightarrow>
   nat \<Rightarrow> 'w word list" where
  "std_rounds S0 S1 ch maj K W v 0 = v"
| "std_rounds S0 S1 ch maj K W v (Suc t) =
     std_round S0 S1 ch maj (K ! t) (W t) (std_rounds S0 S1 ch maj K W v t)"

text \<open>The schedule expression of line \<open>t\<close> of \<open>n\<close>, with words of \<open>wsz\<close> bytes.\<close>

definition line_expr :: "nat \<Rightarrow> nat \<Rightarrow> nat \<Rightarrow> wexpr" where
  "line_expr n wsz t =
     (if t < 16 then WRead t (wsz * t)
      else (if t + 2 < n then WUpdate else WSum)
        (t mod 16) ((t - 2) mod 16) ((t - 7) mod 16) ((t - 15) mod 16))"

definition regular :: "nat \<Rightarrow> nat \<Rightarrow> 'w list \<Rightarrow> 'w sha2_line list \<Rightarrow> bool" where
  "regular n wsz K prog \<longleftrightarrow>
     prog = map (\<lambda>t. (roles t, K ! t, line_expr n wsz t)) [0..<n]"

definition window :: "nat \<Rightarrow> (nat \<Rightarrow> 'w) \<Rightarrow> nat \<Rightarrow> 'w list \<Rightarrow> bool" where
  "window n W t ws \<longleftrightarrow> length ws = 16 \<and>
     (\<forall>j. j < t \<and> j + 2 < n \<and> t \<le> j + 16 \<longrightarrow> ws ! (j mod 16) = W j)"

lemma window_nth:
  "window n W t ws \<Longrightarrow> j < t \<Longrightarrow> j + 2 < n \<Longrightarrow> t \<le> j + 16 \<Longrightarrow> ws ! (j mod 16) = W j"
  by (simp add: window_def)

lemma mod_16_eq: "(i :: nat) mod 16 = j mod 16 \<Longrightarrow> i < j + 16 \<Longrightarrow> j < i + 16 \<Longrightarrow> i = j"
proof -
  assume a: "i mod 16 = j mod 16" "i < j + 16" "j < i + 16"
  have d: "16 * (i div 16) + i mod 16 = i" "16 * (j div 16) + j mod 16 = j" by simp_all
  with a have "i div 16 = j div 16" by linarith
  with a d show "i = j" by linarith
qed

lemma window_store:
  assumes "window n W t ws" "v = W t"
  shows "window n W (Suc t) (ws[t mod 16 := v])"
proof -
  have "ws[t mod 16 := v] ! (j mod 16) = W j" if "j < Suc t" "j + 2 < n" "Suc t \<le> j + 16" for j
  proof (cases "j = t")
    case False
    have "j mod 16 \<noteq> t mod 16"
    proof
      assume "j mod 16 = t mod 16"
      then have "j = t" by (rule mod_16_eq) (use that in linarith)+
      with False show False by contradiction
    qed
    moreover have "ws ! (j mod 16) = W j"
      using False that by (intro window_nth [OF assms(1)]) linarith+
    ultimately show ?thesis by simp
  qed (use assms in \<open>simp add: window_def\<close>)
  then show ?thesis using assms by (simp add: window_def)
qed

lemma window_skip:
  "window n W t ws \<Longrightarrow> n \<le> t + 2 \<Longrightarrow> window n W (Suc t) ws"
  by (auto simp: window_def)

lemma sha2_word_window:
  assumes w: "window n W t ws" and t: "t < n"
    and W: "W = schedule s0 s1 (\<lambda>i. rd (drop (wsz * i) chunk))"
  shows "\<exists>ws'. sha2_word s0 s1 rd chunk ws (line_expr n wsz t) = (W t, ws') \<and> window n W (Suc t) ws'"
proof (cases "t < 16")
  case True
  then have "W t = rd (drop (wsz * t) chunk)" by (simp add: W schedule.simps)
  then show ?thesis
    using True window_store [OF w, of "W t"] by (simp add: line_expr_def Let_def)
next
  case False
  have "W t = s1 (W (t - 2)) + W (t - 7) + s0 (W (t - 15)) + W (t - 16)"
    using False unfolding W by (subst schedule.simps) simp
  moreover have "ws ! ((t - 2) mod 16) = W (t - 2)" "ws ! ((t - 7) mod 16) = W (t - 7)"
    "ws ! ((t - 15) mod 16) = W (t - 15)" "ws ! ((t - 16) mod 16) = W (t - 16)"
    using False t by (intro window_nth [OF w]; simp)+
  moreover have "t mod 16 = (t - 16) mod 16" using False by (intro le_mod_geq) simp
  ultimately have v: "ws ! (t mod 16) + (s1 (ws ! ((t - 2) mod 16)) + ws ! ((t - 7) mod 16) +
      s0 (ws ! ((t - 15) mod 16))) = W t"
    by (simp only: add.commute add.left_commute add.assoc)
  show ?thesis
  proof (cases "t + 2 < n")
    case True
    then show ?thesis
      using False v window_store [OF w refl] by (simp add: line_expr_def Let_def)
  next
    case n: False
    then have "window n W (Suc t) ws" by (intro window_skip [OF w]) simp
    then show ?thesis using False v n by (simp add: line_expr_def add.assoc)
  qed
qed

lemma regular_run:
  assumes prog: "regular n wsz K prog" and l: "length s = 8" "length ws = 16"
    and W: "W = schedule s0 s1 (\<lambda>i. rd (drop (wsz * i) chunk))" and t: "t \<le> n"
  shows "\<exists>regs ws'. foldl (sha2_step S0 S1 ch maj s0 s1 rd chunk) (s, ws) (take t prog) = (regs, ws') \<and>
    length regs = 8 \<and> rotated t regs = std_rounds S0 S1 ch maj K W s t \<and> window n W t ws'"
  using t
proof (induction t)
  case 0
  then show ?case using l by (simp add: rotated_0 window_def)
next
  case (Suc t)
  then obtain regs ws' where IH:
    "foldl (sha2_step S0 S1 ch maj s0 s1 rd chunk) (s, ws) (take t prog) = (regs, ws')"
    "length regs = 8" "rotated t regs = std_rounds S0 S1 ch maj K W s t" "window n W t ws'"
    by auto
  from sha2_word_window [OF IH(4) _ W] Suc.prems obtain ws'' where
    w: "sha2_word s0 s1 rd chunk ws' (line_expr n wsz t) = (W t, ws'')" "window n W (Suc t) ws''"
    by auto
  have "take (Suc t) prog = take t prog @ [(roles t, K ! t, line_expr n wsz t)]"
    using prog Suc.prems by (simp add: regular_def take_Suc_conv_app_nth)
  then show ?case
    using IH w rotated_Round [OF IH(2)] by (simp add: sha2_step_def)
qed

subsection \<open>A chunk is all that is read\<close>

fun reads_within :: "nat \<Rightarrow> nat \<Rightarrow> wexpr \<Rightarrow> bool" where
  "reads_within wsz n (WRead i off) = (off + wsz \<le> n)"
| "reads_within wsz n e = True"

lemma sha2_word_take:
  assumes "reads_within wsz n e" "\<And>off. off + wsz \<le> n \<Longrightarrow> rd (drop off (take n chunk)) = rd (drop off chunk)"
  shows "sha2_word s0 s1 rd (take n chunk) ws e = sha2_word s0 s1 rd chunk ws e"
  using assms by (cases e) auto

subsection \<open>Five registers\<close>

text \<open>SHA-1 and RIPEMD-160 rotate five working variables in the same way.\<close>

definition roles5 :: "nat \<Rightarrow> nat list" where
  "roles5 t = map (\<lambda>i. (i + 4 * t) mod 5) [0..<5]"

definition rotated5 :: "nat \<Rightarrow> 'a list \<Rightarrow> 'a list" where
  "rotated5 t regs = map (\<lambda>i. regs ! i) (roles5 t)"

lemma roles5_mod: "roles5 t = roles5 (t mod 5)"
  unfolding roles5_def by (intro map_cong refl) (metis mod_add_right_eq mod_mult_right_eq)

lemma Suc_roles5: "roles5 (Suc t) = roles5 (Suc (t mod 5))"
  by (metis roles5_mod mod_Suc_eq)

lemma length_five: "length xs = 5 \<Longrightarrow> \<exists>a b c d e. xs = [a, b, c, d, e]"
  by (auto simp: numeral_eq_Suc length_Suc_conv)

lemma less_five_cases: "(r :: nat) < 5 \<Longrightarrow> r = 0 \<or> r = 1 \<or> r = 2 \<or> r = 3 \<or> r = 4"
  by auto

lemma upt_5: "[0..<5] = [0, 1, 2, 3, 4 :: nat]"
  by (simp add: upt_rec)

lemma rotated5_0: "length regs = 5 \<Longrightarrow> rotated5 0 regs = regs"
  using length_five [of regs] by (auto simp: rotated5_def roles5_def upt_5)

lemma rotated5_80: "length regs = 5 \<Longrightarrow> rotated5 80 regs = regs"
  using rotated5_0 roles5_mod [of 80] by (simp add: rotated5_def)

subsection \<open>The round constants of the standard\<close>

text \<open>The standard takes the constants from the first bits of the fractional parts of the cube
  roots of the first primes.  The integer cube root is found bit by bit.\<close>

fun cbrt_bits :: "nat \<Rightarrow> int \<Rightarrow> int \<Rightarrow> int" where
  "cbrt_bits 0 v r = r"
| "cbrt_bits (Suc b) v r = (let q = r + 2 ^ b in cbrt_bits b v (if q * q * q \<le> v then q else r))"

definition cbrt_fraction :: "nat \<Rightarrow> int \<Rightarrow> int" where
  "cbrt_fraction w p = cbrt_bits (w + 3) (p * 2 ^ (3 * w)) 0 mod 2 ^ w"

definition first_primes :: "int list" where
  "first_primes =
  [2, 3, 5, 7, 11, 13, 17, 19, 23, 29, 31, 37, 41, 43, 47, 53, 59, 61, 67, 71,
   73, 79, 83, 89, 97, 101, 103, 107, 109, 113, 127, 131, 137, 139, 149, 151, 157, 163, 167, 173,
   179, 181, 191, 193, 197, 199, 211, 223, 227, 229, 233, 239, 241, 251, 257, 263, 269, 271, 277, 281,
   283, 293, 307, 311, 313, 317, 331, 337, 347, 349, 353, 359, 367, 373, 379, 383, 389, 397, 401, 409]"

definition cbrt_floor :: "int \<Rightarrow> int \<Rightarrow> bool" where
  "cbrt_floor v q \<longleftrightarrow> 0 \<le> q \<and> q * q * q \<le> v \<and> v < (q + 1) * (q + 1) * (q + 1)"

lemma cbrt_bits_floor:
  "0 \<le> r \<Longrightarrow> r * r * r \<le> v \<Longrightarrow> v < (r + 2 ^ b) * (r + 2 ^ b) * (r + 2 ^ b) \<Longrightarrow> cbrt_floor v (cbrt_bits b v r)"
proof (induction b arbitrary: r)
  case (Suc b)
  have "r + 2 ^ Suc b = r + 2 ^ b + 2 ^ b" by simp
  then show ?case
    using Suc.IH [of r] Suc.IH [of "r + 2 ^ b"] Suc.prems
    by (auto simp: Let_def add.assoc simp del: power_Suc)
qed (simp add: cbrt_floor_def)

lemma cube_less: "0 \<le> b \<Longrightarrow> a * a * a < b * b * b \<Longrightarrow> a < (b :: int)"
  using power_less_imp_less_base [of a 3 b] by (simp add: power3_eq_cube)

lemma cbrt_floor_unique: "cbrt_floor v q \<Longrightarrow> cbrt_floor v r \<Longrightarrow> q = r"
  using cube_less [of "r + 1" q] cube_less [of "q + 1" r]
  by (smt (verit) cbrt_floor_def cube_less)

definition cbrt_certificate :: "nat \<Rightarrow> int \<Rightarrow> int \<Rightarrow> bool" where
  "cbrt_certificate w p k \<longleftrightarrow> 0 \<le> k \<and> k < 2 ^ w \<and>
     list_ex (\<lambda>i. cbrt_floor (p * 2 ^ (3 * w)) (i * 2 ^ w + k)) [1, 2, 3, 4, 5, 6, 7]"

lemma cbrt_certificate: 
  assumes "cbrt_certificate w p k" shows "cbrt_fraction w p = k"
proof -
  obtain i where i: "i \<in> set [1, 2, 3, 4, 5, 6, 7]" and q: "cbrt_floor (p * 2 ^ (3 * w)) (i * 2 ^ w + k)"
    and k: "0 \<le> k" "k < 2 ^ w"
    using assms unfolding cbrt_certificate_def list_ex_iff by blast
  let ?v = "p * 2 ^ (3 * w)" and ?q = "i * 2 ^ w + k" and ?m = "2 ^ (w + 3) :: int"
  have "i \<le> 7" "0 \<le> i" using i by auto
  then have "i * 2 ^ w \<le> 7 * 2 ^ w" "0 \<le> i * 2 ^ w" by (simp_all add: mult_right_mono del: mult_le_cancel_right)
  moreover have "?m = 8 * 2 ^ w" by (simp add: power_add)
  ultimately have b: "0 \<le> ?q + 1" "?q + 1 \<le> ?m" using k by linarith+
  have "(?q + 1) ^ 3 \<le> ?m ^ 3" using b by (intro power_mono)
  then have "?v < ?m * ?m * ?m" using q by (simp add: cbrt_floor_def power3_eq_cube)
  moreover have "0 \<le> ?q * ?q * ?q" using \<open>0 \<le> i * 2 ^ w\<close> k by simp
  then have "0 \<le> ?v" using q unfolding cbrt_floor_def by linarith
  ultimately have "cbrt_floor ?v (cbrt_bits (w + 3) ?v 0)" using cbrt_bits_floor [of 0 ?v "w + 3"] by simp
  then have "cbrt_bits (w + 3) ?v 0 = ?q" using q cbrt_floor_unique by blast
  then show ?thesis using k by (simp add: cbrt_fraction_def)
qed

lemma round_constants:
  assumes "list_all2 (\<lambda>p k. cbrt_certificate w p (uint k)) ps ks"
  shows "map (\<lambda>p. word_of_int (cbrt_fraction w p)) ps = (ks :: 'a::len word list)"
  using assms by (induction ps ks rule: list_all2_induct) (simp_all add: cbrt_certificate)

subsection \<open>The logical functions of the standard\<close>

text \<open>FIPS 180-4, sections 2.2.2 and 4.1: rotations, and the functions written with exclusive
  or.  The source writes rotations as two shifts and \<open>Ch\<close> and \<open>Maj\<close> with fewer operations.\<close>

definition fips_Ch :: "'w :: len word \<Rightarrow> 'w word \<Rightarrow> 'w word \<Rightarrow> 'w word" where
  "fips_Ch x y z = (x AND y) XOR (NOT x AND z)"

definition fips_Maj :: "'w :: len word \<Rightarrow> 'w word \<Rightarrow> 'w word \<Rightarrow> 'w word" where
  "fips_Maj x y z = (x AND y) XOR (x AND z) XOR (y AND z)"

definition fips_Sigma :: "nat \<Rightarrow> nat \<Rightarrow> nat \<Rightarrow> 'w :: len word \<Rightarrow> 'w word" where
  "fips_Sigma i j k x = word_rotr i x XOR word_rotr j x XOR word_rotr k x"

definition fips_sigma :: "nat \<Rightarrow> nat \<Rightarrow> nat \<Rightarrow> 'w :: len word \<Rightarrow> 'w word" where
  "fips_sigma i j k x = word_rotr i x XOR word_rotr j x XOR drop_bit k x"

lemma Ch_fips: "z XOR (x AND (y XOR z)) = fips_Ch x y z"
  by (rule bit_eqI) (auto simp: fips_Ch_def bit_simps)

lemma Maj_fips: "(x AND y) OR (z AND (x OR y)) = fips_Maj x y z"
  by (rule bit_eqI) (auto simp: fips_Maj_def bit_simps)

lemma shifts_rotr:
  fixes x :: "'w :: len word"
  assumes "0 < i" "i + j = LENGTH('w)"
  shows "drop_bit i x OR push_bit j x = word_rotr i x"
proof (rule bit_word_eqI)
  fix n assume n: "n < LENGTH('w)"
  show "bit (drop_bit i x OR push_bit j x) n \<longleftrightarrow> bit (word_rotr i x) n"
  proof (cases "n + i < LENGTH('w)")
    case True
    then have "(n + i) mod LENGTH('w) = n + i" "n < j" using assms by simp_all
    then show ?thesis using n by (simp add: bit_simps bit_word_rotr_iff add.commute)
  next
    case False
    have "n + i - LENGTH('w) < LENGTH('w)" using n assms by linarith
    then have m: "(n + i) mod LENGTH('w) = n - j"
      using False assms by (simp add: le_mod_geq)
    have "\<not> bit x (i + n)" using False bit_imp_le_length [of x "i + n"] by linarith
    moreover have "j \<le> n" using False assms by linarith
    ultimately show ?thesis
      using n by (simp only: bit_or_iff bit_drop_bit_eq bit_push_bit_iff bit_word_rotr_iff o_def m) simp
  qed
qed

text \<open>The number of zero bytes is the least one that completes a block.\<close>

lemma pad_length:
  assumes "0 < n"
  shows "nat ((int k - int l) mod int n) = (k + n - l mod n) mod n"
proof -
  have "l mod n \<le> k + n" using assms mod_less_divisor [of n l] by linarith
  then have "int ((k + n - l mod n) mod n) = (int k + int n - int l mod int n) mod int n"
    by (simp add: zmod_int of_nat_diff)
  also have "\<dots> = (int k - int l) mod int n"
    by (metis add_diff_eq diff_add_eq mod_add_self2 mod_diff_right_eq)
  finally show ?thesis by linarith
qed

subsection \<open>The initial words of the standard\<close>

text \<open>The first bits of the fractional parts of the square roots of the first eight primes.\<close>

fun sqrt_bits :: "nat \<Rightarrow> int \<Rightarrow> int \<Rightarrow> int" where
  "sqrt_bits 0 v r = r"
| "sqrt_bits (Suc b) v r = (let q = r + 2 ^ b in sqrt_bits b v (if q * q \<le> v then q else r))"

definition sqrt_fraction :: "nat \<Rightarrow> int \<Rightarrow> int" where
  "sqrt_fraction w p = sqrt_bits (w + 3) (p * 2 ^ (2 * w)) 0 mod 2 ^ w"

definition fips_initial :: "nat \<Rightarrow> 'w :: len word list" where
  "fips_initial w = map (\<lambda>p. word_of_int (sqrt_fraction w p)) (take 8 first_primes)"

definition sqrt_floor :: "int \<Rightarrow> int \<Rightarrow> bool" where
  "sqrt_floor v q \<longleftrightarrow> 0 \<le> q \<and> q * q \<le> v \<and> v < (q + 1) * (q + 1)"

text \<open>The bitwise search finds the integer square root, so \<open>sqrt_fraction\<close> is what it says.\<close>

lemma sqrt_bits_floor:
  "0 \<le> r \<Longrightarrow> r * r \<le> v \<Longrightarrow> v < (r + 2 ^ b) * (r + 2 ^ b) \<Longrightarrow> sqrt_floor v (sqrt_bits b v r)"
proof (induction b arbitrary: r)
  case (Suc b)
  have "r + 2 ^ Suc b = r + 2 ^ b + 2 ^ b" by simp
  then show ?case
    using Suc.IH [of r] Suc.IH [of "r + 2 ^ b"] Suc.prems
    by (auto simp: Let_def add.assoc simp del: power_Suc)
qed (simp add: sqrt_floor_def)

lemma sqrt_floor_unique: "sqrt_floor v q \<Longrightarrow> sqrt_floor v r \<Longrightarrow> q = r"
proof -
  have "a \<le> b" if "sqrt_floor v a" "sqrt_floor v b" for a b
  proof (rule ccontr)
    assume "\<not> a \<le> b"
    then have "(b + 1) * (b + 1) \<le> a * a"
      using that by (intro mult_mono) (auto simp: sqrt_floor_def)
    with that show False by (simp add: sqrt_floor_def)
  qed
  then show "sqrt_floor v q \<Longrightarrow> sqrt_floor v r \<Longrightarrow> q = r" by (metis order_antisym)
qed

definition sqrt_certificate :: "nat \<Rightarrow> int \<Rightarrow> int \<Rightarrow> bool" where
  "sqrt_certificate w p k \<longleftrightarrow> 0 \<le> k \<and> k < 2 ^ w \<and>
     list_ex (\<lambda>i. sqrt_floor (p * 2 ^ (2 * w)) (i * 2 ^ w + k)) [1, 2, 3, 4]"

lemma sqrt_certificate:
  assumes "sqrt_certificate w p k" shows "sqrt_fraction w p = k"
proof -
  obtain i where i: "i \<in> set [1, 2, 3, 4]" and q: "sqrt_floor (p * 2 ^ (2 * w)) (i * 2 ^ w + k)"
    and k: "0 \<le> k" "k < 2 ^ w"
    using assms unfolding sqrt_certificate_def list_ex_iff by blast
  let ?v = "p * 2 ^ (2 * w)" and ?q = "i * 2 ^ w + k" and ?m = "2 ^ (w + 3) :: int"
  have "i \<le> 7" "0 \<le> i" using i by auto
  then have "i * 2 ^ w \<le> 7 * 2 ^ w" "0 \<le> i * 2 ^ w"
    by (simp_all add: mult_right_mono del: mult_le_cancel_right)
  moreover have "?m = 8 * 2 ^ w" by (simp add: power_add)
  ultimately have b: "0 \<le> ?q + 1" "?q + 1 \<le> ?m" using k by linarith+
  then have "(?q + 1) * (?q + 1) \<le> ?m * ?m" by (intro mult_mono) simp_all
  then have "?v < ?m * ?m" using q unfolding sqrt_floor_def by linarith
  moreover have "0 \<le> ?q * ?q" using \<open>0 \<le> i * 2 ^ w\<close> k by simp
  then have "0 \<le> ?v" using q unfolding sqrt_floor_def by linarith
  ultimately have "sqrt_floor ?v (sqrt_bits (w + 3) ?v 0)" using sqrt_bits_floor [of 0 ?v "w + 3"] by simp
  then have "sqrt_bits (w + 3) ?v 0 = ?q" using q sqrt_floor_unique by blast
  then show ?thesis using k by (simp add: sqrt_fraction_def)
qed

lemma initial_words:
  assumes "list_all2 (\<lambda>p k. sqrt_certificate w p (uint k)) (take 8 first_primes) ks"
  shows "fips_initial w = (ks :: 'a :: len word list)"
proof -
  have "list_all2 (\<lambda>p k. sqrt_certificate w p (uint k)) ps ks \<Longrightarrow>
      map (\<lambda>p. word_of_int (sqrt_fraction w p)) ps = (ks :: 'a word list)" for ps
    by (induction ps ks rule: list_all2_induct) (simp_all add: sqrt_certificate)
  with assms show ?thesis by (simp add: fips_initial_def)
qed

end
