(* ===== verification/Hash_Stream.thy ===== *)
theory Hash_Stream
  imports Crypto_Common
begin

text \<open>
  The streaming interface shared by the hash classes of \<open>src/src/crypto/\<close>
  (\<open>CSHA256\<close>, \<open>CSHA1\<close>, \<open>CRIPEMD160\<close>, \<open>CSHA512\<close>): a chaining state \<open>s\<close>, a block buffer
  \<open>buf\<close> and a 64-bit byte counter.  The four \<open>Write\<close> methods have the same text up to the
  block size and the compression function, which are arguments here; each class is an
  instance in its own theory.  The lemmas show that \<open>Write\<close> depends only on the
  concatenation of what was written and compute the digest as one fold over the padded
  message.
\<close>

record 'w hasher =
  h_s :: "'w list"
  h_buf :: "byte list"
  h_bytes :: u64

definition memcpy_at :: "byte list \<Rightarrow> nat \<Rightarrow> byte list \<Rightarrow> byte list" where
  "memcpy_at buf off data = take off buf @ data @ drop (off + length data) buf"

text \<open>Process full chunks directly from the source; the rest of the data is returned.\<close>

function transform_loop ::
  "nat \<Rightarrow> ('w list \<Rightarrow> byte list \<Rightarrow> 'w list) \<Rightarrow> 'w list \<Rightarrow> byte list \<Rightarrow> 'w list \<times> byte list" where
  "transform_loop bs tr s data =
     (if 0 < bs \<and> bs \<le> length data
      then transform_loop bs tr (tr s (take bs data)) (drop bs data) else (s, data))"
  by pat_completeness auto
termination by (relation "measure (\<lambda>(bs, tr, s, data). length data)") auto

declare transform_loop.simps [simp del]

text \<open>Fill the buffer and process it; the rest of the data and the new \<open>bufsize\<close>.\<close>

definition write_fill :: "nat \<Rightarrow> ('w list \<Rightarrow> byte list \<Rightarrow> 'w list) \<Rightarrow> 'w hasher \<Rightarrow> byte list \<Rightarrow> nat \<Rightarrow>
    'w hasher \<times> byte list \<times> nat" where
  "write_fill bs tr h data bufsize =
     (if bufsize \<noteq> 0 \<and> bufsize + length data \<ge> bs then
        let buf = memcpy_at (h_buf h) bufsize (take (bs - bufsize) data)
        in (h\<lparr>h_buf := buf, h_bytes := h_bytes h + word_of_nat (bs - bufsize),
              h_s := tr (h_s h) buf\<rparr>, drop (bs - bufsize) data, 0)
      else (h, data, bufsize))"

text \<open>Process the full chunks and fill the buffer with what remains.\<close>

definition write_rest :: "nat \<Rightarrow> ('w list \<Rightarrow> byte list \<Rightarrow> 'w list) \<Rightarrow> 'w hasher \<times> byte list \<times> nat \<Rightarrow>
    'w hasher" where
  "write_rest bs tr = (\<lambda>(h, data, bufsize).
     let (s, rest) = transform_loop bs tr (h_s h) data;
         h = h\<lparr>h_s := s, h_bytes := h_bytes h + word_of_nat (length data - length rest)\<rparr>
     in if rest \<noteq> [] then
          h\<lparr>h_buf := memcpy_at (h_buf h) bufsize rest,
            h_bytes := h_bytes h + word_of_nat (length rest)\<rparr>
        else h)"

definition hash_write ::
  "nat \<Rightarrow> ('w list \<Rightarrow> byte list \<Rightarrow> 'w list) \<Rightarrow> 'w hasher \<Rightarrow> byte list \<Rightarrow> 'w hasher" where
  "hash_write bs tr h data =
     (if data = [] then h
      else write_rest bs tr (write_fill bs tr h data (unat (h_bytes h) mod bs)))"

subsection \<open>Block structure of a message\<close>

fun msg_blocks :: "nat \<Rightarrow> nat \<Rightarrow> byte list \<Rightarrow> byte list list" where
  "msg_blocks bs 0 m = []"
| "msg_blocks bs (Suc n) m = take bs m # msg_blocks bs n (drop bs m)"

text \<open>The chaining value after the full blocks of \<open>m\<close>, and the bytes left over.\<close>

definition chain :: "nat \<Rightarrow> ('w list \<Rightarrow> byte list \<Rightarrow> 'w list) \<Rightarrow> 'w list \<Rightarrow> byte list \<Rightarrow> 'w list" where
  "chain bs tr s m = foldl tr s (msg_blocks bs (length m div bs) m)"

definition tail :: "nat \<Rightarrow> byte list \<Rightarrow> byte list" where
  "tail bs m = drop (length m div bs * bs) m"

definition hasher_of :: "nat \<Rightarrow> ('w list \<Rightarrow> byte list \<Rightarrow> 'w list) \<Rightarrow> 'w list \<Rightarrow> byte list \<Rightarrow> 'w hasher \<Rightarrow> bool" where
  "hasher_of bs tr init m h \<longleftrightarrow>
     length (h_buf h) = bs \<and> h_bytes h = word_of_nat (length m) \<and>
     h_s h = chain bs tr init m \<and> take (length m mod bs) (h_buf h) = tail bs m"

lemma chain_short: "length m < bs \<Longrightarrow> chain bs tr s m = s"
  by (simp add: chain_def)

lemma chain_cons:
  assumes "0 < bs" "length b = bs"
  shows "chain bs tr s (b @ m) = chain bs tr (tr s b) m"
proof -
  have "(bs + length m) div bs = Suc (length m div bs)"
    using assms(1) by (metis Suc_eq_plus1 div_add_self1 add.commute less_numeral_extra(3))
  then show ?thesis using assms by (simp add: chain_def)
qed

lemma chain_append:
  assumes "0 < bs" "bs dvd length m"
  shows "chain bs tr s (m @ m') = chain bs tr (chain bs tr s m) m'"
  using assms
proof (induction "length m" arbitrary: s m rule: less_induct)
  case less
  show ?case
  proof (cases "m = []")
    case False
    then have l: "bs \<le> length m" using less.prems by (auto intro: dvd_imp_le)
    define b r where "b = take bs m" and "r = drop bs m"
    have m: "m = b @ r" "length b = bs" using l by (auto simp: b_def r_def)
    have "length r < length m" "bs dvd length r"
      using less.prems l False by (simp_all add: r_def dvd_diff_nat)
    then have IH: "chain bs tr (tr s b) (r @ m') = chain bs tr (chain bs tr (tr s b) r) m'"
      using less.prems(1) by (rule_tac less.hyps) simp_all
    show ?thesis
      unfolding m(1) append_assoc chain_cons [OF less.prems(1) m(2)] by (rule IH)
  qed (use less.prems in \<open>simp add: chain_short\<close>)
qed

lemma length_tail: "0 < bs \<Longrightarrow> length (tail bs m) = length m mod bs"
  by (simp add: tail_def minus_div_mult_eq_mod)

lemma tail_short: "length m < bs \<Longrightarrow> tail bs m = m"
  by (simp add: tail_def)

lemma tail_append: "0 < bs \<Longrightarrow> bs dvd length m \<Longrightarrow> tail bs (m @ m') = tail bs m'"
  by (auto simp: tail_def algebra_simps elim!: dvdE)

lemma split_tail:
  obtains m0 where "m = m0 @ tail bs m" "bs dvd length m0"
proof
  show "m = take (length m div bs * bs) m @ tail bs m" by (simp add: tail_def)
  have "length m div bs * bs \<le> length m" by simp
  then show "bs dvd length (take (length m div bs * bs) m)" by (simp add: min_absorb2)
qed

lemma transform_loop_chain:
  assumes "0 < bs"
  shows "transform_loop bs tr s m = (chain bs tr s m, tail bs m)"
  using assms
proof (induction bs tr s m rule: transform_loop.induct)
  case (1 bs tr s m)
  show ?case
  proof (cases "bs \<le> length m")
    case True
    have "chain bs tr s (take bs m @ drop bs m) = chain bs tr (tr s (take bs m)) (drop bs m)"
      "tail bs (take bs m @ drop bs m) = tail bs (drop bs m)"
      using 1(2) True by (intro chain_cons tail_append; simp)+
    with 1 True show ?thesis by (subst transform_loop.simps) simp
  next
    case False
    then show ?thesis by (subst transform_loop.simps) (simp add: chain_short tail_short)
  qed
qed

subsection \<open>\<open>Write\<close> appends to the message\<close>

lemma write_rest_hasher:
  assumes bs: "0 < bs" and h: "hasher_of bs tr init m h" and k: "k = length m mod bs"
    and short: "k = 0 \<or> k + length data < bs"
  shows "hasher_of bs tr init (m @ data) (write_rest bs tr (h, data, k))"
proof -
  obtain m0 where "m = m0 @ tail bs m" and d: "bs dvd length m0" by (rule split_tail)
  then obtain t where m: "m = m0 @ t" and tm: "tail bs m = t" by blast
  have t: "length t = k" "length t < bs" using length_tail [OF bs, of m] tm k bs by simp_all
  have c: "chain bs tr init m = chain bs tr init m0"
    using t by (simp add: m chain_append [OF bs d] chain_short)
  have cd: "chain bs tr init (m @ data) = chain bs tr (chain bs tr init m) data"
    using short t unfolding c
    by (auto simp: m chain_append [OF bs d] chain_short)
  have td: "tail bs (m @ data) = t @ tail bs data"
    using short t by (auto simp: m tail_append [OF bs d] tail_short)
  have "length (tail bs data) \<le> length data" by (simp add: tail_def)
  moreover have "k + length (tail bs data) \<le> bs"
    using short t bs by (auto simp: length_tail tail_short less_imp_le)
  moreover have "(length m + length data) mod bs = k + length (tail bs data)"
    using length_tail [OF bs, of "m @ data"] td t by simp
  ultimately show ?thesis
    using h t
    by (auto simp: hasher_of_def write_rest_def transform_loop_chain [OF bs] cd td tm memcpy_at_def
        Let_def k [symmetric] simp flip: of_nat_add)
qed

lemma write_fill_hasher:
  assumes bs: "0 < bs" and h: "hasher_of bs tr init m h" and k: "k = length m mod bs"
    and fill: "k \<noteq> 0" "bs \<le> k + length data"
  shows "hasher_of bs tr init (m @ take (bs - k) data) (fst (write_fill bs tr h data k))"
proof -
  obtain m0 where "m = m0 @ tail bs m" and d: "bs dvd length m0" by (rule split_tail)
  then obtain t where m: "m = m0 @ t" and tm: "tail bs m = t" by blast
  have t: "length t = k" "k < bs" using length_tail [OF bs, of m] tm k bs by simp_all
  let ?b = "t @ take (bs - k) data"
  have lb: "length ?b = bs" using t fill by simp
  then have l: "bs dvd length (m0 @ ?b)" using d by simp
  have buf: "memcpy_at (h_buf h) k (take (bs - k) data) = ?b"
    using h t fill tm k by (simp add: memcpy_at_def hasher_of_def)
  have "chain bs tr init (m0 @ ?b) = tr (chain bs tr init m0) ?b"
    using bs lb chain_cons [OF bs lb, of tr "chain bs tr init m0" "[]"]
    by (simp only: chain_append [OF bs d]) (simp add: chain_short)
  moreover have "chain bs tr init m = chain bs tr init m0"
    using t by (simp add: m chain_append [OF bs d] chain_short)
  moreover have "tail bs (m0 @ ?b) = []" using length_tail [OF bs, of "m0 @ ?b"] l by simp
  moreover have "length m0 mod bs = 0" "length t + (bs - k) = bs" using d lb fill by simp_all
  ultimately show ?thesis
    using h lb fill buf by (simp add: hasher_of_def write_fill_def m Let_def add.assoc flip: of_nat_add)
qed

text \<open>The streaming contract of a hash class: blocks of \<open>bs\<close> bytes, a compression function and
  an initial chaining value.\<close>

locale block_hash =
  fixes bs :: nat and tr :: "'w list \<Rightarrow> byte list \<Rightarrow> 'w list" and init :: "'w list"
  assumes block_pos: "0 < bs" and block_dvd: "bs dvd 2 ^ 64"
begin

lemma bytes_mod:
  assumes "hasher_of bs tr init m h"
  shows "unat (h_bytes h) mod bs = length m mod bs"
  using assms block_dvd by (simp add: hasher_of_def unat_of_nat mod_mod_cancel)

lemma write_hasher:
  assumes h: "hasher_of bs tr init m h"
  shows "hasher_of bs tr init (m @ data) (hash_write bs tr h data)"
proof (cases "data = []")
  case False
  define k where "k = length m mod bs"
  have w: "hash_write bs tr h data = write_rest bs tr (write_fill bs tr h data k)"
    using False by (simp add: hash_write_def bytes_mod [OF h] k_def)
  have k: "k < bs" using block_pos by (simp add: k_def)
  show ?thesis
  proof (cases "k \<noteq> 0 \<and> bs \<le> k + length data")
    case True
    let ?m = "m @ take (bs - k) data"
    note f = write_fill_hasher [OF block_pos h k_def] True
    have "(length m + (bs - k)) mod bs = (k + (bs - k)) mod bs"
      unfolding k_def by (rule mod_add_left_eq [symmetric])
    moreover have "min (length data) (bs - k) = bs - k" using True by linarith
    ultimately have "length ?m mod bs = 0" using k by simp
    then have "hasher_of bs tr init (?m @ drop (bs - k) data)
        (write_rest bs tr (fst (write_fill bs tr h data k), drop (bs - k) data, 0))"
      using f by (intro write_rest_hasher [OF block_pos]) auto
    then show ?thesis using True w by (simp add: write_fill_def Let_def)
  next
    case False
    then have "write_fill bs tr h data k = (h, data, k)" by (auto simp: write_fill_def)
    then show ?thesis
      using False w write_rest_hasher [OF block_pos h k_def, of data] by (auto simp: not_le)
  qed
qed (use h in \<open>simp add: hash_write_def\<close>)

lemma writes_hasher:
  "hasher_of bs tr init m h \<Longrightarrow>
     hasher_of bs tr init (m @ concat ds) (foldl (hash_write bs tr) h ds)"
proof (induction ds arbitrary: m h)
  case (Cons d ds)
  then show ?case using Cons.IH [OF write_hasher [of m h d]] by simp
qed simp

lemma fresh_hasher:
  "length buf = bs \<Longrightarrow> hasher_of bs tr init [] \<lparr>h_s = init, h_buf = buf, h_bytes = 0\<rparr>"
  using block_pos by (simp add: hasher_of_def chain_short tail_short)

lemma state_after_writes:
  "hasher_of bs tr init m h \<Longrightarrow>
     h_s (hash_write bs tr (hash_write bs tr h p) q) = chain bs tr init (m @ p @ q)"
  using write_hasher [of "m @ p" _ q] write_hasher [of m h p] by (simp add: hasher_of_def)

end

end
