(* ===== verification/Sha256.thy ===== *)
theory Sha256
  imports Sha2_Core Hash_Stream
begin

text \<open>
  \<open>src/src/crypto/sha256.cpp\<close>: the portable SHA-256 implementation and the class
  \<open>CSHA256\<close>.  \<open>sha256_program\<close> is the body of \<open>sha256::Transform\<close>, one entry per call of
  \<open>Round\<close> (registers a to h are numbered 0 to 7).  The SSE4 assembly variant is not
  modelled; the self test the node runs at startup on the chosen variant is.
\<close>

subsection \<open>Compression\<close>

definition sha256_Ch :: "u32 \<Rightarrow> u32 \<Rightarrow> u32 \<Rightarrow> u32" where
  "sha256_Ch x y z = z XOR (x AND (y XOR z))"

definition sha256_Maj :: "u32 \<Rightarrow> u32 \<Rightarrow> u32 \<Rightarrow> u32" where
  "sha256_Maj x y z = (x AND y) OR (z AND (x OR y))"

definition sha256_Sigma0 :: "u32 \<Rightarrow> u32" where
  "sha256_Sigma0 x = (drop_bit 2 x OR push_bit 30 x) XOR (drop_bit 13 x OR push_bit 19 x) XOR
     (drop_bit 22 x OR push_bit 10 x)"

definition sha256_Sigma1 :: "u32 \<Rightarrow> u32" where
  "sha256_Sigma1 x = (drop_bit 6 x OR push_bit 26 x) XOR (drop_bit 11 x OR push_bit 21 x) XOR
     (drop_bit 25 x OR push_bit 7 x)"

definition sha256_sigma0 :: "u32 \<Rightarrow> u32" where
  "sha256_sigma0 x = (drop_bit 7 x OR push_bit 25 x) XOR (drop_bit 18 x OR push_bit 14 x) XOR
     drop_bit 3 x"

definition sha256_sigma1 :: "u32 \<Rightarrow> u32" where
  "sha256_sigma1 x = (drop_bit 17 x OR push_bit 15 x) XOR (drop_bit 19 x OR push_bit 13 x) XOR
     drop_bit 10 x"

definition sha256_Round :: "u32 list \<Rightarrow> nat list \<Rightarrow> u32 \<Rightarrow> u32 \<Rightarrow> u32 list" where
  "sha256_Round regs args k w =
     (let a = regs ! (args ! 0); b = regs ! (args ! 1); c = regs ! (args ! 2);
          e = regs ! (args ! 4); f = regs ! (args ! 5); g = regs ! (args ! 6);
          t1 = regs ! (args ! 7) + sha256_Sigma1 e + sha256_Ch e f g + k + w;
          t2 = sha256_Sigma0 a + sha256_Maj a b c
      in regs[args ! 3 := regs ! (args ! 3) + t1, args ! 7 := t1 + t2])"

definition sha256_Initialize :: "u32 list" where
  "sha256_Initialize = [0x6a09e667, 0xbb67ae85, 0x3c6ef372, 0xa54ff53a,
     0x510e527f, 0x9b05688c, 0x1f83d9ab, 0x5be0cd19]"

definition sha256_program :: "u32 sha2_line list" where
  "sha256_program =
  [([0, 1, 2, 3, 4, 5, 6, 7], 0x428a2f98, WRead 0 0),
   ([7, 0, 1, 2, 3, 4, 5, 6], 0x71374491, WRead 1 4),
   ([6, 7, 0, 1, 2, 3, 4, 5], 0xb5c0fbcf, WRead 2 8),
   ([5, 6, 7, 0, 1, 2, 3, 4], 0xe9b5dba5, WRead 3 12),
   ([4, 5, 6, 7, 0, 1, 2, 3], 0x3956c25b, WRead 4 16),
   ([3, 4, 5, 6, 7, 0, 1, 2], 0x59f111f1, WRead 5 20),
   ([2, 3, 4, 5, 6, 7, 0, 1], 0x923f82a4, WRead 6 24),
   ([1, 2, 3, 4, 5, 6, 7, 0], 0xab1c5ed5, WRead 7 28),
   ([0, 1, 2, 3, 4, 5, 6, 7], 0xd807aa98, WRead 8 32),
   ([7, 0, 1, 2, 3, 4, 5, 6], 0x12835b01, WRead 9 36),
   ([6, 7, 0, 1, 2, 3, 4, 5], 0x243185be, WRead 10 40),
   ([5, 6, 7, 0, 1, 2, 3, 4], 0x550c7dc3, WRead 11 44),
   ([4, 5, 6, 7, 0, 1, 2, 3], 0x72be5d74, WRead 12 48),
   ([3, 4, 5, 6, 7, 0, 1, 2], 0x80deb1fe, WRead 13 52),
   ([2, 3, 4, 5, 6, 7, 0, 1], 0x9bdc06a7, WRead 14 56),
   ([1, 2, 3, 4, 5, 6, 7, 0], 0xc19bf174, WRead 15 60),
   ([0, 1, 2, 3, 4, 5, 6, 7], 0xe49b69c1, WUpdate 0 14 9 1),
   ([7, 0, 1, 2, 3, 4, 5, 6], 0xefbe4786, WUpdate 1 15 10 2),
   ([6, 7, 0, 1, 2, 3, 4, 5], 0x0fc19dc6, WUpdate 2 0 11 3),
   ([5, 6, 7, 0, 1, 2, 3, 4], 0x240ca1cc, WUpdate 3 1 12 4),
   ([4, 5, 6, 7, 0, 1, 2, 3], 0x2de92c6f, WUpdate 4 2 13 5),
   ([3, 4, 5, 6, 7, 0, 1, 2], 0x4a7484aa, WUpdate 5 3 14 6),
   ([2, 3, 4, 5, 6, 7, 0, 1], 0x5cb0a9dc, WUpdate 6 4 15 7),
   ([1, 2, 3, 4, 5, 6, 7, 0], 0x76f988da, WUpdate 7 5 0 8),
   ([0, 1, 2, 3, 4, 5, 6, 7], 0x983e5152, WUpdate 8 6 1 9),
   ([7, 0, 1, 2, 3, 4, 5, 6], 0xa831c66d, WUpdate 9 7 2 10),
   ([6, 7, 0, 1, 2, 3, 4, 5], 0xb00327c8, WUpdate 10 8 3 11),
   ([5, 6, 7, 0, 1, 2, 3, 4], 0xbf597fc7, WUpdate 11 9 4 12),
   ([4, 5, 6, 7, 0, 1, 2, 3], 0xc6e00bf3, WUpdate 12 10 5 13),
   ([3, 4, 5, 6, 7, 0, 1, 2], 0xd5a79147, WUpdate 13 11 6 14),
   ([2, 3, 4, 5, 6, 7, 0, 1], 0x06ca6351, WUpdate 14 12 7 15),
   ([1, 2, 3, 4, 5, 6, 7, 0], 0x14292967, WUpdate 15 13 8 0),
   ([0, 1, 2, 3, 4, 5, 6, 7], 0x27b70a85, WUpdate 0 14 9 1),
   ([7, 0, 1, 2, 3, 4, 5, 6], 0x2e1b2138, WUpdate 1 15 10 2),
   ([6, 7, 0, 1, 2, 3, 4, 5], 0x4d2c6dfc, WUpdate 2 0 11 3),
   ([5, 6, 7, 0, 1, 2, 3, 4], 0x53380d13, WUpdate 3 1 12 4),
   ([4, 5, 6, 7, 0, 1, 2, 3], 0x650a7354, WUpdate 4 2 13 5),
   ([3, 4, 5, 6, 7, 0, 1, 2], 0x766a0abb, WUpdate 5 3 14 6),
   ([2, 3, 4, 5, 6, 7, 0, 1], 0x81c2c92e, WUpdate 6 4 15 7),
   ([1, 2, 3, 4, 5, 6, 7, 0], 0x92722c85, WUpdate 7 5 0 8),
   ([0, 1, 2, 3, 4, 5, 6, 7], 0xa2bfe8a1, WUpdate 8 6 1 9),
   ([7, 0, 1, 2, 3, 4, 5, 6], 0xa81a664b, WUpdate 9 7 2 10),
   ([6, 7, 0, 1, 2, 3, 4, 5], 0xc24b8b70, WUpdate 10 8 3 11),
   ([5, 6, 7, 0, 1, 2, 3, 4], 0xc76c51a3, WUpdate 11 9 4 12),
   ([4, 5, 6, 7, 0, 1, 2, 3], 0xd192e819, WUpdate 12 10 5 13),
   ([3, 4, 5, 6, 7, 0, 1, 2], 0xd6990624, WUpdate 13 11 6 14),
   ([2, 3, 4, 5, 6, 7, 0, 1], 0xf40e3585, WUpdate 14 12 7 15),
   ([1, 2, 3, 4, 5, 6, 7, 0], 0x106aa070, WUpdate 15 13 8 0),
   ([0, 1, 2, 3, 4, 5, 6, 7], 0x19a4c116, WUpdate 0 14 9 1),
   ([7, 0, 1, 2, 3, 4, 5, 6], 0x1e376c08, WUpdate 1 15 10 2),
   ([6, 7, 0, 1, 2, 3, 4, 5], 0x2748774c, WUpdate 2 0 11 3),
   ([5, 6, 7, 0, 1, 2, 3, 4], 0x34b0bcb5, WUpdate 3 1 12 4),
   ([4, 5, 6, 7, 0, 1, 2, 3], 0x391c0cb3, WUpdate 4 2 13 5),
   ([3, 4, 5, 6, 7, 0, 1, 2], 0x4ed8aa4a, WUpdate 5 3 14 6),
   ([2, 3, 4, 5, 6, 7, 0, 1], 0x5b9cca4f, WUpdate 6 4 15 7),
   ([1, 2, 3, 4, 5, 6, 7, 0], 0x682e6ff3, WUpdate 7 5 0 8),
   ([0, 1, 2, 3, 4, 5, 6, 7], 0x748f82ee, WUpdate 8 6 1 9),
   ([7, 0, 1, 2, 3, 4, 5, 6], 0x78a5636f, WUpdate 9 7 2 10),
   ([6, 7, 0, 1, 2, 3, 4, 5], 0x84c87814, WUpdate 10 8 3 11),
   ([5, 6, 7, 0, 1, 2, 3, 4], 0x8cc70208, WUpdate 11 9 4 12),
   ([4, 5, 6, 7, 0, 1, 2, 3], 0x90befffa, WUpdate 12 10 5 13),
   ([3, 4, 5, 6, 7, 0, 1, 2], 0xa4506ceb, WUpdate 13 11 6 14),
   ([2, 3, 4, 5, 6, 7, 0, 1], 0xbef9a3f7, WSum 14 12 7 15),
   ([1, 2, 3, 4, 5, 6, 7, 0], 0xc67178f2, WSum 15 13 8 0)]"

definition sha256_step :: "byte list \<Rightarrow> u32 list \<times> u32 list \<Rightarrow> u32 sha2_line \<Rightarrow> u32 list \<times> u32 list" where
  "sha256_step chunk = (\<lambda>(regs, ws) (args, k, e).
     let (v, ws') = sha2_word sha256_sigma0 sha256_sigma1 ReadBE32 chunk ws e
     in (sha256_Round regs args k v, ws'))"

definition sha256_chunk :: "u32 list \<Rightarrow> byte list \<Rightarrow> u32 list" where
  "sha256_chunk s chunk =
     (let (regs, _) = foldl (sha256_step chunk) (s, replicate 16 0) sha256_program
      in map2 (+) s regs)"

primrec sha256_Transform :: "nat \<Rightarrow> u32 list \<Rightarrow> byte list \<Rightarrow> u32 list" where
  "sha256_Transform 0 s chunk = s"
| "sha256_Transform (Suc blocks) s chunk = sha256_Transform blocks (sha256_chunk s chunk) (drop 64 chunk)"

subsection \<open>The startup self test\<close>

definition self_test_in1 :: "byte list" where
  "self_test_in1 = 0x80 # replicate 63 0"

definition self_test_in2 :: "byte list" where
  "self_test_in2 = replicate 64 32 @ 0x80 # replicate 61 0 @ [2, 0]"

definition sha256_SelfTest :: "(nat \<Rightarrow> u32 list \<Rightarrow> byte list \<Rightarrow> u32 list) \<Rightarrow> bool" where
  "sha256_SelfTest tr \<longleftrightarrow>
     tr 0 sha256_Initialize [] = sha256_Initialize \<and>
     tr 1 (tr 0 sha256_Initialize []) self_test_in1 =
       [0xe3b0c442, 0x98fc1c14, 0x9afbf4c8, 0x996fb924, 0x27ae41e4, 0x649b934c, 0xa495991b, 0x7852b855] \<and>
     tr 2 sha256_Initialize self_test_in2 =
       [0xce4153b0, 0x147c2a86, 0x3ed4298e, 0xe0676bc8, 0x79fc77a1, 0x2abe1f49, 0xb2b055df, 0x1069523e]"

subsection \<open>The class \<open>CSHA256\<close>\<close>

type_synonym CSHA256 = "u32 hasher"

definition CSHA256_new :: CSHA256 where
  "CSHA256_new = \<lparr>h_s = sha256_Initialize, h_buf = replicate 64 0, h_bytes = 0\<rparr>"

definition CSHA256_Write :: "CSHA256 \<Rightarrow> byte list \<Rightarrow> CSHA256" where
  "CSHA256_Write h data =
     (if data = [] then h
      else
        let (h, data, bufsize) = write_fill 64 sha256_chunk h data (unat (h_bytes h) mod 64);
            (h, data) =
              (if length data \<ge> 64 then
                 let blocks = length data div 64
                 in (h\<lparr>h_s := sha256_Transform blocks (h_s h) data,
                       h_bytes := h_bytes h + word_of_nat (64 * blocks)\<rparr>, drop (64 * blocks) data)
               else (h, data))
        in if data \<noteq> [] then
             h\<lparr>h_buf := memcpy_at (h_buf h) bufsize data,
               h_bytes := h_bytes h + word_of_nat (length data)\<rparr>
           else h)"

text \<open>\<open>Finalize\<close> leaves the padded state behind; \<open>Reset\<close> keeps the buffer.\<close>

definition CSHA256_Finalize :: "CSHA256 \<Rightarrow> byte list \<times> CSHA256" where
  "CSHA256_Finalize h =
     (let sizedesc = WriteBE64 (push_bit 3 (h_bytes h));
          h = CSHA256_Write h (0x80 # replicate ((119 - unat (h_bytes h) mod 64) mod 64) 0);
          h = CSHA256_Write h sizedesc
      in (concat (map WriteBE32 (h_s h)), h))"

definition CSHA256_Reset :: "CSHA256 \<Rightarrow> CSHA256" where
  "CSHA256_Reset h = h\<lparr>h_bytes := 0, h_s := sha256_Initialize\<rparr>"

subsection \<open>The compression function is SHA-256's\<close>

definition sha256_K :: "u32 list" where
  "sha256_K = map (\<lambda>p. word_of_int (cbrt_fraction 32 p)) (take 64 first_primes)"

text \<open>The reference is the text of FIPS 180-4 and shares no function with the code: rotations,
  \<open>Ch\<close> and \<open>Maj\<close> as the standard writes them, constants from the roots of the primes, big-endian
  words.\<close>

definition sha256_compress :: "u32 list \<Rightarrow> byte list \<Rightarrow> u32 list" where
  "sha256_compress s chunk = map2 (+) s
     (std_rounds (fips_Sigma 2 13 22) (fips_Sigma 6 11 25) fips_Ch fips_Maj sha256_K
        (schedule (fips_sigma 7 18 3) (fips_sigma 17 19 10)
          (\<lambda>i. word_of_nat (be_nat (take 4 (drop (4 * i) chunk))))) s 64)"

lemma sha256_Sigmas:
  "sha256_Sigma0 x = fips_Sigma 2 13 22 x" "sha256_Sigma1 x = fips_Sigma 6 11 25 x"
  "sha256_sigma0 x = fips_sigma 7 18 3 x" "sha256_sigma1 x = fips_sigma 17 19 10 x"
  unfolding sha256_Sigma0_def sha256_Sigma1_def sha256_sigma0_def sha256_sigma1_def fips_Sigma_def fips_sigma_def
  by (intro arg_cong2 [where f = "(XOR)"] refl shifts_rotr; simp)+

lemma sha256_functions:
  "sha256_Ch = fips_Ch" "sha256_Maj = fips_Maj"
  "sha256_Sigma0 = fips_Sigma 2 13 22" "sha256_Sigma1 = fips_Sigma 6 11 25"
  "sha256_sigma0 = fips_sigma 7 18 3" "sha256_sigma1 = fips_sigma 17 19 10"
  by (simp_all add: fun_eq_iff sha256_Ch_def Ch_fips sha256_Maj_def Maj_fips sha256_Sigmas)

lemma sha256_initial: "sha256_Initialize = fips_initial 32"
proof (rule initial_words [symmetric])
  show "list_all2 (\<lambda>p k. sqrt_certificate 32 p (uint k)) (take 8 first_primes) sha256_Initialize"
    unfolding sha256_Initialize_def by code_simp
qed

lemma sha256_K_program: "sha256_K = map (\<lambda>(_, k, _). k) sha256_program"
  unfolding sha256_K_def
proof (rule round_constants)
  show "list_all2 (\<lambda>p k. cbrt_certificate 32 p (uint k)) (take 64 first_primes) (map (\<lambda>(_, k, _). k) sha256_program)"
    unfolding sha256_program_def list.map prod.case by code_simp
qed

lemma sha256_regular: "regular 64 4 sha256_K sha256_program"
  unfolding regular_def sha256_K_program by code_simp

lemma sha256_step_generic:
  "sha256_step = sha2_step sha256_Sigma0 sha256_Sigma1 sha256_Ch sha256_Maj sha256_sigma0
     sha256_sigma1 ReadBE32"
  by (simp add: fun_eq_iff sha256_step_def sha2_step_def sha256_Round_def sha2_Round_def Let_def)

lemma rotated_64: "length regs = 8 \<Longrightarrow> rotated 64 regs = regs"
  using rotated_0 roles_mod [of 64] by (simp add: rotated_def)

text \<open>The unrolled \<open>Transform\<close>, with rotating register roles and sixteen schedule
  variables updated in place, is the compression function of the standard.\<close>

lemma sha256_chunk_compress:
  assumes "length s = 8"
  shows "sha256_chunk s chunk = sha256_compress s chunk"
proof -
  obtain regs ws where "foldl (sha256_step chunk) (s, replicate 16 0) (take 64 sha256_program) = (regs, ws)"
    "length regs = 8" "rotated 64 regs = std_rounds sha256_Sigma0 sha256_Sigma1 sha256_Ch sha256_Maj
       sha256_K (schedule sha256_sigma0 sha256_sigma1 (\<lambda>i. ReadBE32 (drop (4 * i) chunk))) s 64"
    using regular_run [OF sha256_regular assms, of "replicate 16 0" _ _ _ _ _ 64] 
    unfolding sha256_step_generic by fastforce
  moreover have "take 64 sha256_program = sha256_program" by (simp add: sha256_program_def)
  ultimately show ?thesis
    by (simp add: sha256_chunk_def sha256_compress_def sha256_functions ReadBE32_def rotated_64)
qed

subsection \<open>Streaming\<close>

lemma ReadBE32_take: "off + 4 \<le> n \<Longrightarrow> ReadBE32 (drop off (take n chunk)) = ReadBE32 (drop off chunk)"
  by (simp add: ReadBE32_def drop_take min_def)

lemma sha256_reads: "list_all (\<lambda>(_, _, e). reads_within 4 64 e) sha256_program"
  by code_simp

lemma sha256_chunk_take: "sha256_chunk s (take 64 chunk) = sha256_chunk s chunk"
proof -
  have "foldl (sha256_step (take 64 chunk)) (s, ws) sha256_program =
      foldl (sha256_step chunk) (s, ws) sha256_program" for ws
    using sha256_reads
    by (intro foldl_cong refl)
      (auto simp: list_all_iff sha256_step_def intro!: sha2_word_take ReadBE32_take
        arg_cong [of _ _ "\<lambda>x. case x of (v, ws') \<Rightarrow> (sha256_Round _ _ _ v, ws')"])
  then show ?thesis by (simp add: sha256_chunk_def)
qed

lemma sha256_Transform_foldl: "sha256_Transform n s m = foldl sha256_chunk s (msg_blocks 64 n m)"
  by (induction n arbitrary: s m) (simp_all add: sha256_chunk_take)

lemma CSHA256_Write_generic: "CSHA256_Write = hash_write 64 sha256_chunk"
proof -
  have "sha256_Transform (length m div 64) s m = chain 64 sha256_chunk s m" for s m
    by (simp add: chain_def sha256_Transform_foldl)
  moreover have "drop (length m - length (tail 64 m)) m = tail 64 m" for m :: "byte list"
    by (simp add: length_tail tail_def minus_mod_eq_mult_div mult.commute)
  moreover have "64 * (length m div 64) = length m - length (tail 64 m)" for m :: "byte list"
    by (simp add: length_tail minus_mod_eq_mult_div)
  ultimately show ?thesis
    by (auto simp: fun_eq_iff CSHA256_Write_def hash_write_def write_rest_def transform_loop_chain
        chain_short tail_short Let_def not_le simp del: of_nat_mult split: prod.splits)
qed

interpretation sha256_stream: block_hash 64 sha256_chunk sha256_Initialize
  by unfold_locales (simp_all add: dvd_def exI [of _ "2 ^ 58"])

text \<open>The standard's padding and digest.\<close>

definition sha256_pad :: "byte list \<Rightarrow> byte list" where
  "sha256_pad m = m @ [0x80] @ replicate (nat ((55 - int (length m)) mod 64)) 0 @
     be_bytes 8 (8 * length m)"

definition sha256_digest :: "byte list \<Rightarrow> byte list" where
  "sha256_digest m = concat (map (\<lambda>x. be_bytes 4 (unat x))
     (chain 64 sha256_compress (fips_initial 32) (sha256_pad m)))"

lemma length_sha256_chunk: "length s = 8 \<Longrightarrow> length (sha256_chunk s c) = 8"
proof -
  assume s: "length s = 8"
  obtain regs ws where "foldl (sha256_step c) (s, replicate 16 0) (take 64 sha256_program) = (regs, ws)"
    "length regs = 8"
    using regular_run [OF sha256_regular s, of "replicate 16 0" _ _ _ _ _ 64]
    unfolding sha256_step_generic by fastforce
  moreover have "take 64 sha256_program = sha256_program" by (simp add: sha256_program_def)
  ultimately show ?thesis using s by (simp add: sha256_chunk_def)
qed

lemma foldl_chunk_compress:
  "length s = 8 \<Longrightarrow> foldl sha256_chunk s bs = foldl sha256_compress s bs"
proof (induction bs arbitrary: s)
  case (Cons b bs)
  then show ?case using length_sha256_chunk [of s b] sha256_chunk_compress [of s b] by simp
qed simp

lemma chain_chunk_compress:
  "chain 64 sha256_chunk sha256_Initialize m = chain 64 sha256_compress sha256_Initialize m"
  unfolding chain_def by (rule foldl_chunk_compress) (simp add: sha256_Initialize_def)

lemma sha256_pad_code:
  "sha256_pad m = m @ (0x80 # replicate ((119 - length m mod 64) mod 64) 0) @
     WriteBE64 (word_of_nat (8 * length m))"
proof -
  have "nat ((55 - int (length m)) mod 64) = (119 - length m mod 64) mod 64"
    using pad_length [of 64 55 "length m"] by simp
  moreover have "be_bytes 8 (8 * length m) = WriteBE64 (word_of_nat (8 * length m))"
    by (rule WriteBE64_of_nat [symmetric])
  ultimately show ?thesis by (simp add: sha256_pad_def)
qed

lemma CSHA256_Finalize_hasher:
  assumes "hasher_of 64 sha256_chunk sha256_Initialize m h"
  shows "fst (CSHA256_Finalize h) = sha256_digest m"
proof -
  have "h_bytes h = word_of_nat (length m)" using assms by (simp add: hasher_of_def)
  then have "push_bit 3 (h_bytes h) = word_of_nat (8 * length m)"
    by (simp add: push_bit_eq_mult)
  moreover note sha256_stream.bytes_mod [OF assms] sha256_stream.state_after_writes [OF assms]
  ultimately show ?thesis
    by (simp add: CSHA256_Finalize_def CSHA256_Write_generic Let_def sha256_digest_def sha256_pad_code
        WriteBE32_def [abs_def] chain_chunk_compress sha256_initial [symmetric])
qed

lemma CSHA256_new_hasher: "hasher_of 64 sha256_chunk sha256_Initialize [] CSHA256_new"
  unfolding CSHA256_new_def by (rule sha256_stream.fresh_hasher) simp

text \<open>C24. However a message is cut into \<open>Write\<close> calls, \<open>Finalize\<close> returns the SHA-256 digest
  of the message as FIPS 180-4 defines it: its padding, its functions on rotations, its constants
  from the square and cube roots of the first primes, its schedule, block chaining and big-endian
  output, none of them taken from the code.  The standard covers messages below \<open>2 ^ 61\<close> bytes;
  beyond, both length fields are taken modulo \<open>2 ^ 64\<close>.\<close>

theorem CSHA256_streaming:
  "fst (CSHA256_Finalize (foldl CSHA256_Write CSHA256_new chunks)) = sha256_digest (concat chunks)"
  using CSHA256_Finalize_hasher [OF sha256_stream.writes_hasher [OF CSHA256_new_hasher]]
  by (simp add: CSHA256_Write_generic)

end
