(* ===== verification/Sha256_Self_Test.thy ===== *)
theory Sha256_Self_Test
  imports Sha256
begin

text \<open>
  The self test of \<open>SHA256AutoDetect\<close>, which the node asserts at startup, evaluated on the
  model of the portable implementation.
\<close>

lemma self_test_empty:
  "sha256_chunk sha256_Initialize self_test_in1 =
     [0xe3b0c442, 0x98fc1c14, 0x9afbf4c8, 0x996fb924, 0x27ae41e4, 0x649b934c, 0xa495991b, 0x7852b855]"
  by code_simp

lemma self_test_spaces:
  "sha256_chunk sha256_Initialize (replicate 64 32) =
     [0x4268b9ff, 0x7558c82e, 0x963e7bc1, 0xea419fe6, 0x7219e763, 0x7a246bdb, 0x160fbff0, 0x7ef412d]"
  by code_simp

lemma self_test_padding:
  "sha256_chunk [0x4268b9ff, 0x7558c82e, 0x963e7bc1, 0xea419fe6, 0x7219e763, 0x7a246bdb, 0x160fbff0, 0x7ef412d]
     (0x80 # replicate 61 0 @ [2, 0]) =
     [0xce4153b0, 0x147c2a86, 0x3ed4298e, 0xe0676bc8, 0x79fc77a1, 0x2abe1f49, 0xb2b055df, 0x1069523e]"
  by code_simp

text \<open>The startup assertion holds for the portable implementation: \<open>SelfTest\<close> accepts
  \<open>sha256::Transform\<close> on its empty-message and 64-spaces vectors.\<close>

theorem SelfTest_passes: "sha256_SelfTest sha256_Transform"
proof -
  let ?p = "0x80 # replicate 61 0 @ [2, 0 :: byte]"
  have "sha256_chunk sha256_Initialize self_test_in2 = sha256_chunk sha256_Initialize (replicate 64 32)"
    using sha256_chunk_take [of sha256_Initialize self_test_in2]
    by (simp add: self_test_in2_def)
  moreover have "drop 64 self_test_in2 = ?p" by (simp add: self_test_in2_def)
  ultimately show ?thesis
    unfolding sha256_SelfTest_def
    using self_test_empty self_test_spaces self_test_padding
    by (simp add: numeral_2_eq_2)
qed

end
