(* ===== verification/Int_Serialization.thy ===== *)
theory Int_Serialization
  imports Novo_Prelude
begin

text \<open>
  \<open>src/src/script/int_serialization.h\<close>: the sign-magnitude, little-endian number
  encoding of script values.  The C++ templates are modelled at \<open>T = int64_t\<close>, the one
  instance the program uses; a 64-bit integer is a 64-bit word read with \<open>sint\<close>, so the
  unsigned negation in \<open>abs\<close> and the shifts wrap exactly as the C++ ones do.
  \<open>sm_val\<close> is the integer an encoding denotes and \<open>sm_bytes\<close> the canonical encoding of an
  integer; the lemmas relate both to the four routines of the header.
\<close>

subsection \<open>The routines of the header\<close>

definition novo_abs :: "i64 \<Rightarrow> u64" where
  "novo_abs value = (let neg = sint value < 0 in if neg then - value else value)"

function serialize_loop :: "bool \<Rightarrow> u64 \<Rightarrow> byte list" where
  "serialize_loop neg absvalue =
     (if absvalue = 0 then []
      else let tmp = absvalue AND 0xff; absvalue' = drop_bit 8 absvalue
        in if absvalue' \<noteq> 0 then ucast tmp # serialize_loop neg absvalue'
           else if tmp AND 0x80 \<noteq> 0 then [ucast tmp, if neg then 0x80 else 0]
           else [ucast (if neg then tmp OR 0x80 else tmp)])"
  by pat_completeness auto
termination
proof (relation "measure (\<lambda>(neg, absvalue). unat absvalue)", goal_cases)
  case (2 neg absvalue tmp absvalue')
  then show ?case
    by (auto simp: codec_simps unat_gt_0)
qed simp

definition serialize_i64 :: "i64 \<Rightarrow> byte list" where
  "serialize_i64 value =
     (if value = 0 then [] else serialize_loop (sint value < 0) (novo_abs value))"

text \<open>\<open>deserialize\<close> asserts a non-empty range; \<open>None\<close> is the failed assertion.  Bytes from the ninth on are
  shifted by 64 bits and more, which is undefined in the source and adds nothing here; the interpreter
  reads at most eight bytes this way.\<close>

definition deserialize_i64 :: "byte list \<Rightarrow> i64 option" where
  "deserialize_i64 s =
     (if s = [] then None
      else let d = length s;
               result = fold (\<lambda>i r. r OR push_bit (8 * i) (ucast (s ! i))) [0..<d - 1] 0
        in if d > 8 then Some result
           else let tmp = ucast (s ! (d - 1));
                    negative = (tmp AND 0x80 \<noteq> 0);
                    tmp' = (if negative then tmp AND 0x7f else tmp);
                    result' = result OR push_bit (8 * (d - 1)) tmp'
             in Some (if negative then - result' else result'))"

definition IsMinimallyEncoded :: "byte list \<Rightarrow> nat \<Rightarrow> bool" where
  "IsMinimallyEncoded span nMaxNumSize =
     (let size = length span
      in if size > nMaxNumSize then False
         else if size > 0 \<and> last span AND 0x7f = 0 \<and>
                 (size \<le> 1 \<or> span ! (size - 2) AND 0x80 = 0) then False
         else True)"

text \<open>The trimming loop runs \<open>i\<close> from \<open>size - 1\<close> down to 1; \<open>Suc j\<close> is its \<open>i\<close>.\<close>

fun minimal_loop :: "nat \<Rightarrow> byte \<Rightarrow> byte list \<Rightarrow> byte list" where
  "minimal_loop 0 lst data = []"
| "minimal_loop (Suc j) lst data =
     (if data ! j \<noteq> 0 then
        (if data ! j AND 0x80 \<noteq> 0 then take (Suc j + 1) (data[Suc j := lst])
         else take (Suc j) (data[j := data ! j OR lst]))
      else minimal_loop j lst data)"

definition MinimallyEncode :: "byte list \<Rightarrow> bool \<times> byte list" where
  "MinimallyEncode data =
     (if length data = 0 then (False, data)
      else let lst = last data
        in if lst AND 0x7f \<noteq> 0 then (False, data)
           else if length data = 1 then (True, [])
           else if data ! (length data - 2) AND 0x80 \<noteq> 0 then (False, data)
           else (True, minimal_loop (length data - 1) lst data))"

subsection \<open>What an encoding denotes\<close>

definition sm_mag :: "byte list \<Rightarrow> nat" where
  "sm_mag s =
     (if s = [] then 0
      else le_nat (butlast s) + 256 ^ (length s - 1) * (unat (last s) mod 128))"

definition sm_neg :: "byte list \<Rightarrow> bool" where
  "sm_neg s \<longleftrightarrow> s \<noteq> [] \<and> 128 \<le> unat (last s)"

definition sm_val :: "byte list \<Rightarrow> int" where
  "sm_val s = (if sm_neg s then - int (sm_mag s) else int (sm_mag s))"

fun mag_bytes :: "nat \<Rightarrow> byte list" where
  "mag_bytes n = (if n = 0 then [] else word_of_nat n # mag_bytes (n div 256))"

definition sm_bytes :: "int \<Rightarrow> byte list" where
  "sm_bytes v =
     (let m = mag_bytes (nat \<bar>v\<bar>)
      in if m = [] then []
         else if unat (last m) < 128 then butlast m @ [if v < 0 then last m OR 0x80 else last m]
         else m @ [if v < 0 then 0x80 else 0])"

definition sm_min :: "byte list \<Rightarrow> bool" where
  "sm_min s \<longleftrightarrow> s = [] \<or> unat (last s) mod 128 \<noteq> 0 \<or>
     (2 \<le> length s \<and> 128 \<le> unat (s ! (length s - 2)))"

declare serialize_loop.simps [simp del] mag_bytes.simps [simp del]

subsection \<open>Magnitudes\<close>

lemma mag_bytes_0 [simp]: "mag_bytes 0 = []"
  by (simp add: mag_bytes.simps)

lemma mag_bytes_pos: "n \<noteq> 0 \<Longrightarrow> mag_bytes n = word_of_nat n # mag_bytes (n div 256)"
  by (simp add: mag_bytes.simps [of n])

lemma mag_bytes_eq_Nil_iff [simp]: "mag_bytes n = [] \<longleftrightarrow> n = 0"
  by (simp add: mag_bytes.simps [of n])

lemma le_nat_mag_bytes [codec_simps]: "le_nat (mag_bytes n) = n"
proof (induction n rule: mag_bytes.induct)
  case (1 n)
  then show ?case
    by (cases "n = 0") (simp_all add: mag_bytes_pos codec_simps)
qed

lemma last_mag_bytes: "n \<noteq> 0 \<Longrightarrow> last (mag_bytes n) \<noteq> 0"
proof (induction n rule: mag_bytes.induct)
  case (1 n)
  show ?case
  proof (cases "n div 256 = 0")
    case True
    then have "n < 256" by simp
    with \<open>n \<noteq> 0\<close> True show ?thesis
      by (simp add: mag_bytes_pos word_of_nat_eq_0_iff) (metis nat_dvd_not_less neq0_conv)
  next
    case False
    with "1" show ?thesis by (simp add: mag_bytes_pos)
  qed
qed

lemma mag_bytes_le_nat: "bs = [] \<or> last bs \<noteq> 0 \<Longrightarrow> mag_bytes (le_nat bs) = bs"
proof (induction bs)
  case (Cons b bs)
  have nz: "le_nat (b # bs) \<noteq> 0"
    using Cons.prems by (auto simp: le_nat_eq_0_iff unat_eq_0 split: if_splits dest: last_in_set)
  have "le_nat (b # bs) div 256 = le_nat bs" by simp
  moreover have "word_of_nat (le_nat (b # bs)) = b"
    using le_bytes_le_nat [of "b # bs"] by (simp del: le_nat.simps)
  moreover have "mag_bytes (le_nat bs) = bs"
    using Cons by (cases bs) auto
  ultimately show ?case
    using nz by (simp add: mag_bytes_pos del: le_nat.simps)
qed simp

lemma length_mag_bytes: "n < 256 ^ k \<Longrightarrow> length (mag_bytes n) \<le> k"
proof (induction k arbitrary: n)
  case (Suc k)
  then have "n div 256 < 256 ^ k" by auto
  with Suc.IH show ?case by (cases "n = 0") (auto simp: mag_bytes_pos)
qed simp

subsection \<open>Canonical encodings\<close>

lemma IsMinimallyEncoded_iff: "IsMinimallyEncoded s n \<longleftrightarrow> length s \<le> n \<and> sm_min s"
  by (auto simp: IsMinimallyEncoded_def sm_min_def Let_def byte_and_7f_0 byte_and_80_0)

lemma sm_mag_snoc [codec_simps]:
  "sm_mag (xs @ [b]) = le_nat xs + 256 ^ length xs * (unat b mod 128)"
  by (simp add: sm_mag_def)

lemma sm_neg_snoc [codec_simps]: "sm_neg (xs @ [b]) \<longleftrightarrow> 128 \<le> unat b"
  by (simp add: sm_neg_def)

lemma sm_val_Nil [simp]: "sm_val [] = 0"
  by (simp add: sm_val_def sm_mag_def)

lemma nat_abs_sm_val: "nat \<bar>sm_val s\<bar> = sm_mag s"
  by (simp add: sm_val_def)

lemma sm_val_neg_iff: "sm_val s < 0 \<longleftrightarrow> sm_neg s \<and> sm_mag s \<noteq> 0"
  by (simp add: sm_val_def)

lemma sm_min_snoc: "sm_min (xs @ [b]) \<longleftrightarrow>
    unat b mod 128 \<noteq> 0 \<or> (xs \<noteq> [] \<and> 128 \<le> unat (last xs))"
  by (cases xs rule: rev_cases) (auto simp: sm_min_def nth_append)

lemma sm_bytes_0 [simp]: "sm_bytes 0 = []"
  by (simp add: sm_bytes_def)

lemma sm_bytes_cases:
  assumes "v \<noteq> 0"
  obtains (short) xs b where "mag_bytes (nat \<bar>v\<bar>) = xs @ [b]" "b \<noteq> 0" "unat b < 128"
      "sm_bytes v = xs @ [if v < 0 then b OR 0x80 else b]"
  | (long) xs b where "mag_bytes (nat \<bar>v\<bar>) = xs @ [b]" "128 \<le> unat b"
      "sm_bytes v = (xs @ [b]) @ [if v < 0 then 0x80 else 0]"
proof -
  from assms have nz: "nat \<bar>v\<bar> \<noteq> 0" by simp
  then obtain xs b where m: "mag_bytes (nat \<bar>v\<bar>) = xs @ [b]"
    by (metis mag_bytes_eq_Nil_iff rev_exhaust)
  with last_mag_bytes [OF nz] have "b \<noteq> 0" by simp
  with m show thesis
    by (cases "unat b < 128") (auto simp: sm_bytes_def Let_def intro: short long)
qed

lemma sm_mag_sm_bytes [simp]: "sm_mag (sm_bytes v) = nat \<bar>v\<bar>"
proof (cases "v = 0")
  case False
  then show ?thesis
  proof (cases rule: sm_bytes_cases)
    case (short xs b)
    then have "nat \<bar>v\<bar> = le_nat (xs @ [b])" by (metis le_nat_mag_bytes)
    with short show ?thesis by (simp add: codec_simps byte_or_80)
  next
    case (long xs b)
    then have "nat \<bar>v\<bar> = le_nat (xs @ [b])" by (metis le_nat_mag_bytes)
    with long show ?thesis by (simp only: sm_mag_snoc) simp
  qed
qed (simp add: sm_mag_def)

lemma sm_neg_sm_bytes [simp]: "sm_neg (sm_bytes v) \<longleftrightarrow> v < 0"
proof (cases "v = 0")
  case False
  then show ?thesis
    by (cases rule: sm_bytes_cases) (simp_all add: sm_neg_def byte_or_80)
qed (simp add: sm_neg_def)

lemma sm_val_sm_bytes [simp]: "sm_val (sm_bytes v) = v"
  by (simp add: sm_val_def)

lemma sm_min_sm_bytes [simp]: "sm_min (sm_bytes v)"
proof (cases "v = 0")
  case False
  then show ?thesis
  proof (cases rule: sm_bytes_cases)
    case (short xs b)
    then show ?thesis by (auto simp: sm_min_snoc byte_or_80 unat_eq_0)
  next
    case (long xs b)
    then show ?thesis by (simp only: sm_min_snoc) simp
  qed
qed (simp add: sm_min_def)

lemma byte_split_sign:
  "(if 128 \<le> unat b then (b AND 0x7f) OR 0x80 else b AND 0x7f) = (b :: byte)"
proof (cases "128 \<le> unat b")
  case True
  have "unat b - 128 < 128" using unat_byte_less [of b] by linarith
  then have "unat b mod 128 + 128 = unat b" using True le_mod_geq [OF True] by simp
  with True show ?thesis by (simp add: word_unat_eq_iff byte_or_80 byte_and_7f)
next
  case False
  then show ?thesis by (simp add: word_unat_eq_iff byte_and_7f)
qed

lemma sm_bytes_sm_val_carry:
  assumes s: "s = xs @ [b]" and b: "unat b mod 128 = 0" and xs: "xs \<noteq> []" "128 \<le> unat (last xs)"
  shows "sm_bytes (sm_val s) = s"
proof -
  have "last xs \<noteq> 0" using xs by auto
  then have mag: "mag_bytes (sm_mag s) = xs" by (simp add: s b codec_simps mag_bytes_le_nat)
  then have "sm_mag s \<noteq> 0" using xs(1) by (metis mag_bytes_eq_Nil_iff)
  then have "sm_bytes (sm_val s) = xs @ [if sm_neg s then 0x80 else 0]"
    using xs by (simp add: sm_bytes_def nat_abs_sm_val mag sm_val_neg_iff)
  moreover obtain q where "unat b = 128 * q" using b by (auto simp: dvd_def)
  then have "unat b = (if 128 \<le> unat b then 128 else 0)"
    using unat_byte_less [of b] by (cases "q = 0"; cases "q = 1") auto
  then have "(if sm_neg s then 0x80 else 0) = b"
    by (auto simp: word_unat_eq_iff s sm_neg_snoc split: if_splits)
  ultimately show ?thesis by (simp add: s)
qed

lemma sm_bytes_sm_val_plain:
  assumes s: "s = xs @ [b]" and b: "unat b mod 128 \<noteq> 0"
  shows "sm_bytes (sm_val s) = s"
proof -
  let ?c = "b AND 0x7f"
  have c: "?c \<noteq> 0" "unat ?c < 128"
    using b by (auto simp: byte_and_7f_0 byte_and_7f)
  have "sm_mag s = le_nat (xs @ [?c])" by (simp add: s codec_simps byte_and_7f)
  then have mag: "mag_bytes (sm_mag s) = xs @ [?c]"
    using c mag_bytes_le_nat [of "xs @ [?c]"] by simp
  then have "sm_mag s \<noteq> 0" by (metis mag_bytes_eq_Nil_iff snoc_eq_iff_butlast)
  then have "sm_val s < 0 \<longleftrightarrow> 128 \<le> unat b" by (simp add: sm_val_neg_iff s sm_neg_snoc)
  then have "sm_bytes (sm_val s) = xs @ [if 128 \<le> unat b then ?c OR 0x80 else ?c]"
    using c by (simp add: sm_bytes_def nat_abs_sm_val mag)
  then show ?thesis by (simp only: byte_split_sign s)
qed

lemma sm_bytes_sm_val [simp]: "sm_min s \<Longrightarrow> sm_bytes (sm_val s) = s"
  by (cases s rule: rev_cases)
    (auto simp: sm_min_snoc intro: sm_bytes_sm_val_carry sm_bytes_sm_val_plain)

lemma sm_val_inj: "sm_min xs \<Longrightarrow> sm_min ys \<Longrightarrow> sm_val xs = sm_val ys \<Longrightarrow> xs = ys"
  by (metis sm_bytes_sm_val)

subsection \<open>The 64-bit routines\<close>

lemma sint_i64_bounds: "- (2 ^ 63) \<le> sint (v :: i64)" "sint (v :: i64) < 2 ^ 63"
  using sint_ge [of v] sint_lt [of v] by simp_all

lemma unat_novo_abs: "unat (novo_abs v) = nat \<bar>sint v\<bar>"
proof -
  have u: "uint (word_of_int k :: u64) = k" if "0 \<le> k" "k \<le> 2 ^ 63" for k
    using that by (simp add: uint_word_of_int)
  have v: "word_of_int (sint v) = v" by simp
  have "uint (novo_abs v) = \<bar>sint v\<bar>"
  proof (cases "sint v < 0")
    case True
    have "- v = word_of_int (- sint v)" by simp
    then show ?thesis
      using True u [of "- sint v"] sint_i64_bounds [of v] by (simp add: novo_abs_def)
  next
    case False
    then show ?thesis
      using u [of "sint v"] sint_i64_bounds [of v] by (simp add: novo_abs_def)
  qed
  then show ?thesis by (metis nat_uint_eq)
qed

lemma unat_ucast_byte [codec_simps]: "unat (ucast (a :: u64) :: byte) = unat a mod 256"
  by (simp add: unsigned_ucast_eq take_bit_eq_mod)

lemma unat_and_ff: "unat ((a :: u64) AND 0xff) = unat a mod 256"
proof -
  have "unat a AND 255 = unat a mod 256"
    using take_bit_eq_mask [of 8 "unat a"] by (simp add: mask_eq_exp_minus_1 take_bit_eq_mod)
  then show ?thesis by (simp add: unsigned_and_eq)
qed

lemma serialize_low_byte: "ucast ((a :: u64) AND 0xff) = (ucast a :: byte)"
  by (simp add: word_unat_eq_iff unat_ucast_byte unat_and_ff)

lemma serialize_high_bit:
  "((a :: u64) AND 0xff) AND 0x80 = 0 \<longleftrightarrow> unat (ucast a :: byte) < 128"
proof -
  have "unat ((a AND 0xff) AND 0x80) = (unat a mod 256) AND 128"
    by (simp only: unsigned_and_eq [of "a AND 0xff"] unat_and_ff) simp
  then have "unat ((a AND 0xff) AND 0x80) = (if unat a mod 256 < 128 then 0 else 128)"
    by (simp add: nat_and_128)
  then show ?thesis
    by (simp add: codec_simps not_less split: if_splits flip: unat_eq_0)
qed

lemma serialize_loop_mag:
  "a \<noteq> 0 \<Longrightarrow> serialize_loop neg a =
     (let m = mag_bytes (unat a)
      in if unat (last m) < 128 then butlast m @ [if neg then last m OR 0x80 else last m]
         else m @ [if neg then 0x80 else 0])"
proof (induction neg a rule: serialize_loop.induct)
  case (1 neg a)
  let ?b = "ucast a :: byte" and ?r = "drop_bit 8 a"
  have mag: "mag_bytes (unat a) = ?b # mag_bytes (unat ?r)"
    using "1.prems" by (simp add: mag_bytes_pos unat_eq_0 codec_simps)
  show ?case
  proof (cases "?r = 0")
    case True
    with "1.prems" mag show ?thesis
      by (simp add: serialize_loop.simps [of neg a] serialize_low_byte serialize_high_bit
          unsigned_or_eq Let_def)
  next
    case False
    have "serialize_loop neg a = ?b # serialize_loop neg ?r"
      using False "1.prems"
      by (simp only: serialize_loop.simps [of neg a] Let_def serialize_low_byte) simp
    moreover have "unat ?r \<noteq> 0" using False by (simp add: unat_eq_0)
    ultimately show ?thesis
      using "1.IH" [OF "1.prems" refl refl False False] mag by (simp add: Let_def)
  qed
qed

lemma serialize_i64_sm_bytes: "serialize_i64 v = sm_bytes (sint v)"
proof (cases "v = 0")
  case False
  then have "novo_abs v \<noteq> 0"
    by (auto simp: novo_abs_def Let_def)
  moreover from this have "sint v \<noteq> 0"
    using unat_novo_abs [of v] by (auto simp: unat_eq_0)
  ultimately show ?thesis
    using False by (simp add: serialize_i64_def serialize_loop_mag unat_novo_abs sm_bytes_def Let_def)
qed (simp add: serialize_i64_def)

lemma or_push_bit_disjoint:
  assumes "m < 2 ^ k"
  shows "(word_of_nat m :: u64) OR push_bit k w = word_of_nat m + push_bit k w"
proof -
  have low: "j < k" if "bit m j" for j
  proof -
    have "take_bit k m = m" using assms by (simp add: take_bit_nat_eq_self)
    with that show ?thesis by (metis bit_take_bit_iff)
  qed
  have "(word_of_nat m :: u64) AND push_bit k w = 0"
    by (rule bit_word_eqI) (auto simp: bit_and_iff bit_push_bit_iff bit_of_nat_iff dest: low)
  then show ?thesis by (simp add: disjunctive_add_eq_or)
qed

lemma or_push_byte:
  assumes "m < 256 ^ n"
  shows "(word_of_nat m :: u64) OR push_bit (8 * n) (ucast (b :: byte))
    = word_of_nat (m + 256 ^ n * unat b)"
proof -
  have "m < 2 ^ (8 * n)" using assms by (simp add: power_mult)
  moreover have "push_bit (8 * n) (ucast b :: u64) = word_of_nat (256 ^ n * unat b)"
    by (simp add: push_bit_eq_mult power_mult)
  ultimately show ?thesis using or_push_bit_disjoint [of m "8 * n" "ucast b"] by simp
qed

lemma deserialize_fold:
  "n \<le> length s \<Longrightarrow>
   fold (\<lambda>i r. r OR push_bit (8 * i) (ucast (s ! i))) [0..<n] (0 :: u64)
     = word_of_nat (le_nat (take n s))"
proof (induction n)
  case (Suc n)
  have "le_nat (take n s) < 256 ^ n"
    using le_nat_bound [of "take n s"] Suc.prems by simp
  from or_push_byte [OF this] show ?case
    using Suc by (simp add: take_Suc_conv_app_nth)
qed simp

lemma unat_ucast_u64 [codec_simps]: "unat (ucast (b :: byte) :: u64) = unat b"
proof -
  have "unat b < 2 ^ 64" by (rule less_trans [OF unat_byte_less]) simp
  then show ?thesis by (simp add: unsigned_ucast_eq take_bit_nat_eq_self)
qed

lemma unat_tmp_80: "(ucast (b :: byte) :: u64) AND 0x80 = 0 \<longleftrightarrow> unat b < 128"
proof -
  have "(ucast b :: u64) AND 0x80 = ucast (b AND 0x80)"
    by (simp add: unsigned_and_eq)
  then show ?thesis by (metis byte_and_80_0 unat_eq_0 unat_ucast_u64)
qed

lemma tmp_7f: "(ucast (b :: byte) :: u64) AND 0x7f = ucast (b AND 0x7f)"
  by (simp add: unsigned_and_eq)

lemma deserialize_i64_short:
  assumes "s \<noteq> []" "length s \<le> 8"
  shows "deserialize_i64 s = Some (word_of_int (sm_val s))"
proof -
  obtain xs b where s: "s = xs @ [b]" using assms(1) by (cases s rule: rev_cases) auto
  let ?n = "length xs"
  have r: "fold (\<lambda>i r. r OR push_bit (8 * i) (ucast (s ! i))) [0..<?n] 0
      = (word_of_nat (le_nat xs) :: u64)"
    using deserialize_fold [of ?n s] by (simp add: s)
  note top = or_push_byte [OF le_nat_bound [of xs]]
  have nn: "Suc ?n \<le> 8" using assms(2) s by simp
  have "deserialize_i64 s = Some (if unat b < 128 then word_of_nat (le_nat xs + 256 ^ ?n * unat b)
      else - word_of_nat (le_nat xs + 256 ^ ?n * unat (b AND 0x7f)))"
    using r nn top [of b] top [of "b AND 0x7f"]
    by (auto simp add: deserialize_i64_def s Let_def unat_tmp_80 tmp_7f nth_append)
  also have "\<dots> = Some (word_of_int (sm_val s))"
    by (auto simp: sm_val_def s sm_neg_snoc sm_mag_snoc byte_and_7f)
  finally show ?thesis .
qed

lemma deserialize_i64_long:
  assumes "length s = 9"
  shows "deserialize_i64 s = Some (word_of_nat (le_nat (butlast s)))"
proof -
  have "fold (\<lambda>i r. r OR push_bit (8 * i) (ucast (s ! i))) [0..<8] 0
      = (word_of_nat (le_nat (take 8 s)) :: u64)"
    using deserialize_fold [of 8 s] assms by simp
  moreover have "take 8 s = butlast s" using assms by (simp add: butlast_conv_take)
  ultimately show ?thesis
    using assms by (auto simp: deserialize_i64_def Let_def)
qed

lemma length_sm_bytes: "nat \<bar>v\<bar> < 256 ^ k \<Longrightarrow> length (sm_bytes v) \<le> Suc k"
  using length_mag_bytes [of "nat \<bar>v\<bar>" k] by (auto simp: sm_bytes_def Let_def)

lemma length_sm_bytes_tight: "2 * nat \<bar>v\<bar> < 256 ^ Suc k \<Longrightarrow> length (sm_bytes v) \<le> Suc k"
proof (cases "v = 0")
  case False
  assume b: "2 * nat \<bar>v\<bar> < 256 ^ Suc k"
  from False show ?thesis
  proof (cases rule: sm_bytes_cases)
    case (short xs b)
    have "nat \<bar>v\<bar> < 256 ^ Suc k" using b by linarith
    from length_mag_bytes [OF this] show ?thesis using short by simp
  next
    case (long xs c)
    have "nat \<bar>v\<bar> = le_nat (xs @ [c])" using long by (metis le_nat_mag_bytes)
    then have "256 ^ length xs * 128 \<le> nat \<bar>v\<bar>"
      using long by (simp add: trans_le_add2)
    moreover have "nat \<bar>v\<bar> < 128 * 256 ^ k" using b by simp
    ultimately have "256 ^ length xs < (256 :: nat) ^ k" by linarith
    then have "length xs < k" by (rule power_less_imp_less_exp [rotated]) simp
    with long show ?thesis by simp
  qed
qed simp

subsection \<open>Normalising an encoding\<close>

lemma minimal_loop_sm_bytes:
  assumes "n \<le> length xs" and l: "l = 0 \<or> l = 0x80"
  shows "minimal_loop n l (xs @ [l])
    = sm_bytes (if l = 0 then int (le_nat (take n xs)) else - int (le_nat (take n xs)))"
  using assms(1)
proof (induction n)
  case (Suc j)
  let ?b = "xs ! j" and ?v = "\<lambda>m. if l = 0 then int m else - int m"
  have j: "j < length xs" and tk: "take (Suc j) xs = take j xs @ [?b]"
    using Suc.prems by (simp_all add: take_Suc_conv_app_nth)
  show ?case
  proof (cases "?b = 0")
    case True
    then show ?thesis using Suc j by (simp add: tk nth_append)
  next
    case False
    have mag: "mag_bytes (le_nat (take (Suc j) xs)) = take j xs @ [?b]"
      using False mag_bytes_le_nat [of "take (Suc j) xs"] by (simp add: tk)
    then have "le_nat (take (Suc j) xs) \<noteq> 0"
      by (metis mag_bytes_eq_Nil_iff snoc_eq_iff_butlast)
    then have "sm_bytes (?v (le_nat (take (Suc j) xs))) =
        (if unat ?b < 128 then take j xs @ [?b OR l] else take j xs @ [?b, l])"
      using l by (auto simp: sm_bytes_def mag Let_def)
    moreover have "minimal_loop (Suc j) l (xs @ [l]) =
        (if unat ?b < 128 then take j xs @ [?b OR l] else take j xs @ [?b, l])"
      using False j
      by (auto simp: nth_append byte_and_80_0 list_update_append take_Suc_conv_app_nth take_update_swap
          nth_list_update list_update_beyond)
    ultimately show ?thesis by simp
  qed
qed simp

lemma MinimallyEncode_sm_bytes: "MinimallyEncode data = (\<not> sm_min data, sm_bytes (sm_val data))"
proof (cases data rule: rev_cases)
  case (snoc xs l)
  show ?thesis
  proof (cases "sm_min data")
    case True
    then show ?thesis
      by (auto simp: MinimallyEncode_def snoc sm_min_snoc byte_and_7f_0 byte_and_80_0 Let_def
          nth_append last_conv_nth)
  next
    case False
    then have lm: "unat l mod 128 = 0" and lx: "xs = [] \<or> unat (last xs) < 128"
      by (auto simp: snoc sm_min_snoc)
    then obtain q where "unat l = 128 * q" by (auto simp: dvd_def)
    then have "unat l = 0 \<or> unat l = 128"
      using unat_byte_less [of l] by (cases "q = 0"; cases "q = 1") auto
    then have l: "l = 0 \<or> l = 0x80" by (auto simp: word_unat_eq_iff)
    have "MinimallyEncode data = (True, minimal_loop (length xs) l (xs @ [l]))"
      using lm lx
      by (cases xs rule: rev_cases)
        (auto simp: MinimallyEncode_def snoc byte_and_7f_0 byte_and_80_0 Let_def nth_append)
    also have "minimal_loop (length xs) l (xs @ [l]) = sm_bytes (sm_val data)"
      using minimal_loop_sm_bytes [OF order_refl l, of xs] l
      by (auto simp: sm_val_def snoc sm_neg_snoc sm_mag_snoc)
    finally show ?thesis using False by simp
  qed
qed (simp add: MinimallyEncode_def sm_min_def)

lemma sm_mag_bound: "2 * sm_mag s < 256 ^ length s"
proof (cases s rule: rev_cases)
  case (snoc xs b)
  define n where "n = (256 :: nat) ^ length xs"
  define p where "p = n * (unat b mod 128)"
  have "le_nat xs < n" unfolding n_def by (rule le_nat_bound)
  moreover have "unat b mod 128 \<le> 127"
    using mod_less_divisor [of 128 "unat b"] by linarith
  then have "p \<le> n * 127" unfolding p_def by (rule mult_left_mono) simp
  ultimately have "2 * (le_nat xs + p) < 256 * n" by auto
  then have "2 * (le_nat xs + 256 ^ length xs * (unat b mod 128)) < 256 * 256 ^ length xs"
    by (simp only: p_def n_def)
  then show ?thesis by (simp add: snoc sm_mag_snoc)
qed (simp add: sm_mag_def)

lemma length_sm_bytes_sm_val: "length (sm_bytes (sm_val s)) \<le> length s"
proof (cases s)
  case (Cons b bs)
  then show ?thesis
    using length_sm_bytes_tight [of "sm_val s" "length bs"] sm_mag_bound [of s]
    by (simp add: nat_abs_sm_val)
qed simp

lemma length_serialize_i64: "length (serialize_i64 v) \<le> 9"
proof -
  have "nat \<bar>sint v\<bar> < 256 ^ 8"
    using sint_i64_bounds [of v] by simp
  from length_sm_bytes [OF this] show ?thesis by (simp add: serialize_i64_sm_bytes)
qed

text \<open>Script numbers round-trip: writing a non-zero 64-bit integer with \<open>serialize\<close> and
  reading the bytes back with \<open>deserialize\<close> returns the same integer.  This includes the
  smallest integer, whose encoding needs nine bytes and takes the early return of
  \<open>deserialize\<close>.\<close>

theorem serialize_roundtrip:
  assumes "v \<noteq> 0"
  shows "deserialize_i64 (serialize_i64 v) = Some v"
proof (cases "sint v = - (2 ^ 63)")
  case True
  have "v = word_of_int (sint v)" by simp
  then have v: "v = word_of_int (- (2 ^ 63))" unfolding True .
  have s: "serialize_i64 v = [0, 0, 0, 0, 0, 0, 0, 0x80, 0x80]"
    unfolding serialize_i64_sm_bytes True
    by (simp add: sm_bytes_def mag_bytes_pos Let_def)
  have "deserialize_i64 (serialize_i64 v) = Some (word_of_int (- (2 ^ 63)))"
    by (simp add: s deserialize_i64_long)
  then show ?thesis by (simp only: v)
next
  case False
  then have "2 * nat \<bar>sint v\<bar> < 256 ^ Suc 7"
    using sint_i64_bounds [of v] by simp
  then have "length (serialize_i64 v) \<le> 8"
    using length_sm_bytes_tight [of "sint v" 7] by (simp add: serialize_i64_sm_bytes)
  moreover have "serialize_i64 v \<noteq> []"
  proof
    assume "serialize_i64 v = []"
    then have "sint v = 0" by (metis serialize_i64_sm_bytes sm_val_sm_bytes sm_val_Nil)
    moreover have "v = word_of_int (sint v)" by simp
    ultimately show False using assms by (metis word_of_int_0)
  qed
  ultimately show ?thesis
    by (simp add: deserialize_i64_short) (simp add: serialize_i64_sm_bytes)
qed

theorem serialize_roundtrip_witness:
  "deserialize_i64 (serialize_i64 (- 255)) = Some (- 255) \<and> (- 255 :: i64) \<noteq> 0"
  using serialize_roundtrip [of "- 255"] by simp

text \<open>\<open>serialize\<close> writes the value it is given and writes it minimally, so its
  output is always accepted by \<open>IsMinimallyEncoded\<close> at nine bytes.\<close>

theorem serialize_minimal:
  "sm_val (serialize_i64 v) = sint v \<and> IsMinimallyEncoded (serialize_i64 v) 9"
  using length_serialize_i64 [of v] by (simp add: IsMinimallyEncoded_iff serialize_i64_sm_bytes)

text \<open>\<open>MinimallyEncode\<close> normalises: its result denotes the same number, is minimally
  encoded, is not longer than the input, and the returned flag says exactly whether the data
  was changed.\<close>

theorem MinimallyEncode_correct:
  "sm_val (snd (MinimallyEncode data)) = sm_val data \<and>
   IsMinimallyEncoded (snd (MinimallyEncode data)) (length data) \<and>
   fst (MinimallyEncode data) = (snd (MinimallyEncode data) \<noteq> data)"
proof -
  have "sm_min data = (sm_bytes (sm_val data) = data)"
    by (metis sm_min_sm_bytes sm_bytes_sm_val)
  then show ?thesis
    using length_sm_bytes_sm_val [of data]
    by (simp add: MinimallyEncode_sm_bytes IsMinimallyEncoded_iff)
qed

text \<open>Minimal encodings are canonical: two byte strings accepted by
  \<open>IsMinimallyEncoded\<close> that denote the same number are equal.\<close>

theorem IsMinimallyEncoded_canonical:
  assumes "IsMinimallyEncoded xs m" "IsMinimallyEncoded ys n" "sm_val xs = sm_val ys"
  shows "xs = ys"
  using assms by (auto simp: IsMinimallyEncoded_iff intro: sm_val_inj)

theorem IsMinimallyEncoded_canonical_witness:
  "IsMinimallyEncoded [0xff, 0x80] 4 \<and> serialize_i64 (- 255) = [0xff, 0x80]"
proof -
  have "IsMinimallyEncoded [0xff, 0x80] 4"
    by (simp add: IsMinimallyEncoded_def)
  moreover have "IsMinimallyEncoded (serialize_i64 (- 255)) 9" "sm_val (serialize_i64 (- 255)) = - 255"
    using length_serialize_i64 [of "- 255"]
    by (simp_all add: IsMinimallyEncoded_iff serialize_i64_sm_bytes)
  moreover have "sm_val [0xff, 0x80] = - 255"
    by (simp add: sm_val_def sm_neg_def sm_mag_def)
  ultimately show ?thesis
    using IsMinimallyEncoded_canonical [of "serialize_i64 (- 255)" 9 "[0xff, 0x80]" 4] by simp
qed

end
