(* ===== verification/Big_Int.thy ===== *)
theory Big_Int
  imports Int_Serialization "HOL-Library.Signed_Division"
begin

text \<open>
  \<open>src/src/big_int.cpp\<close>: the class \<open>novo::bint\<close>, a C++ wrapper around OpenSSL big numbers.
  OpenSSL is not part of the repository, so its routines are parameters: the record
  \<open>openssl\<close> holds one function per \<open>BN_\<close> routine the wrapper calls, over an abstract type
  \<open>'b\<close> of big numbers; \<open>None\<close> is the documented failure return.  The locale
  \<open>openssl_bn\<close> states the documented behaviour of the calls that succeed with respect to a
  denotation \<open>bnval\<close>; \<open>openssl_bn_reads\<close> adds that \<open>BN_mpi2bn\<close> succeeds, whose failure is the one
  the wrapper does not turn into an exception, and \<open>openssl_bn_total\<close> that no routine fails
  (there is memory).  Inside the locales every wrapper routine is shown to compute on \<open>bnval\<close>
  what its name says.  The allocation \<open>BN_new\<close> that precedes a routine is part of it, and copying
  a \<open>bint\<close> is the identity of the model.
\<close>

subsection \<open>Exceptions\<close>

text \<open>What a C++ call may throw; \<open>std_exception\<close> stands for the standard exceptions no code
  distinguishes, \<open>assert_failure\<close> for the abort of a failed \<open>assert\<close>, and \<open>null_bignum\<close> for
  the use of the null pointer that \<open>deserialize\<close> leaves when \<open>BN_mpi2bn\<close> fails.\<close>

datatype cxx_exn =
    scriptnum_overflow_error | scriptnum_minencode_error | stack_overflow_error
  | big_int_error | std_exception | assert_failure | null_bignum

subsection \<open>The OpenSSL routines the wrapper calls\<close>

record 'b openssl =
  BN_set_word :: "nat \<Rightarrow> 'b option"
  BN_value_one :: "'b"
  BN_set_negative :: "'b \<Rightarrow> bool \<Rightarrow> 'b"
  BN_is_negative :: "'b \<Rightarrow> bool"
  BN_add :: "'b \<Rightarrow> 'b \<Rightarrow> 'b option"
  BN_sub :: "'b \<Rightarrow> 'b \<Rightarrow> 'b option"
  BN_mul :: "'b \<Rightarrow> 'b \<Rightarrow> 'b option"
  BN_div :: "'b \<Rightarrow> 'b \<Rightarrow> 'b option"
  BN_mod :: "'b \<Rightarrow> 'b \<Rightarrow> 'b option"
  BN_cmp :: "'b \<Rightarrow> 'b \<Rightarrow> int"
  BN_lshift :: "'b \<Rightarrow> nat \<Rightarrow> 'b option"
  BN_rshift :: "'b \<Rightarrow> nat \<Rightarrow> 'b option"
  BN_bn2bin :: "'b \<Rightarrow> byte list"
  BN_bin2bn :: "byte list \<Rightarrow> 'b"
  BN_bn2mpi :: "'b \<Rightarrow> byte list"
  BN_mpi2bn :: "byte list \<Rightarrow> 'b option"
  ASN1_INTEGER_get :: "'b \<Rightarrow> int option"

subsection \<open>Constructors\<close>

abbreviation INT_MIN :: int where "INT_MIN \<equiv> - 2147483648"
abbreviation INT_MAX :: int where "INT_MAX \<equiv> 2147483647"
abbreviation INT64_MIN :: int where "INT64_MIN \<equiv> - 9223372036854775808"
abbreviation INT64_MAX :: int where "INT64_MAX \<equiv> 9223372036854775807"

definition bint_of_int :: "'b openssl \<Rightarrow> int \<Rightarrow> cxx_exn + 'b" where
  "bint_of_int B i =
     (if i \<ge> 0 then of_opt big_int_error (BN_set_word B (nat i))
      else if i > INT_MIN then
        bindE (of_opt big_int_error (BN_set_word B (nat (- i))))
          (\<lambda>v. Inr (BN_set_negative B v True))
      else let ii = i + 1
        in bindE (of_opt big_int_error (BN_set_word B (nat (- ii))))
             (\<lambda>v. of_opt big_int_error (BN_sub B (BN_set_negative B v True) (BN_value_one B))))"

definition bint_of_int64 :: "'b openssl \<Rightarrow> int \<Rightarrow> cxx_exn + 'b" where
  "bint_of_int64 B i =
     (if i \<ge> 0 then of_opt big_int_error (BN_set_word B (nat i))
      else if i > INT64_MIN then
        bindE (of_opt big_int_error (BN_set_word B (nat (- i))))
          (\<lambda>v. Inr (BN_set_negative B v True))
      else let ii = i + 1
        in bindE (of_opt big_int_error (BN_set_word B (nat (- ii))))
             (\<lambda>v. of_opt big_int_error (BN_sub B (BN_set_negative B v True) (BN_value_one B))))"

definition bint_of_size_t :: "'b openssl \<Rightarrow> nat \<Rightarrow> cxx_exn + 'b" where
  "bint_of_size_t B i = of_opt big_int_error (BN_set_word B i)"

subsection \<open>Operators\<close>

definition bint_spaceship :: "'b openssl \<Rightarrow> 'b \<Rightarrow> 'b \<Rightarrow> int" where
  "bint_spaceship B a b = BN_cmp B a b"

definition bint_lt :: "'b openssl \<Rightarrow> 'b \<Rightarrow> 'b \<Rightarrow> bool" where
  "bint_lt B a b \<longleftrightarrow> bint_spaceship B a b < 0"

definition bint_eq :: "'b openssl \<Rightarrow> 'b \<Rightarrow> 'b \<Rightarrow> bool" where
  "bint_eq B a b \<longleftrightarrow> bint_spaceship B a b = 0"

definition bint_add :: "'b openssl \<Rightarrow> 'b \<Rightarrow> 'b \<Rightarrow> cxx_exn + 'b" where
  "bint_add B a b = of_opt big_int_error (BN_add B a b)"

definition bint_sub :: "'b openssl \<Rightarrow> 'b \<Rightarrow> 'b \<Rightarrow> cxx_exn + 'b" where
  "bint_sub B a b = of_opt big_int_error (BN_sub B a b)"

definition bint_mul :: "'b openssl \<Rightarrow> 'b \<Rightarrow> 'b \<Rightarrow> cxx_exn + 'b" where
  "bint_mul B a b = of_opt big_int_error (BN_mul B a b)"

definition bint_div :: "'b openssl \<Rightarrow> 'b \<Rightarrow> 'b \<Rightarrow> cxx_exn + 'b" where
  "bint_div B a b = of_opt big_int_error (BN_div B a b)"

definition bint_mod :: "'b openssl \<Rightarrow> 'b \<Rightarrow> 'b \<Rightarrow> cxx_exn + 'b" where
  "bint_mod B a b = of_opt big_int_error (BN_mod B a b)"

definition bint_is_negative :: "'b openssl \<Rightarrow> 'b \<Rightarrow> bool" where
  "bint_is_negative B n = BN_is_negative B n"

definition bint_negate :: "'b openssl \<Rightarrow> 'b \<Rightarrow> 'b" where
  "bint_negate B a =
     (let neg = bint_is_negative B a
      in if neg then BN_set_negative B a False else BN_set_negative B a True)"

definition bint_uminus :: "'b openssl \<Rightarrow> 'b \<Rightarrow> 'b" where
  "bint_uminus B a = bint_negate B a"

definition bint_abs :: "'b openssl \<Rightarrow> 'b \<Rightarrow> 'b" where
  "bint_abs B n = (if bint_is_negative B n then bint_uminus B n else n)"

definition bint_to_bin :: "'b openssl \<Rightarrow> 'b \<Rightarrow> byte list" where
  "bint_to_bin B a = BN_bn2bin B a"

definition bint_lsb :: "'b openssl \<Rightarrow> 'b \<Rightarrow> byte" where
  "bint_lsb B a =
     (let buffer = bint_to_bin B a in if buffer = [] then 0 else buffer ! (length buffer - 1))"

text \<open>\<open>transform\<close> walks both buffers from their ends for the length of the first; \<open>and_tail\<close>
  and \<open>or_tail\<close> are its two uses.\<close>

definition and_tail :: "byte list \<Rightarrow> byte list \<Rightarrow> byte list" where
  "and_tail short long = rev (map2 (\<lambda>x y. x AND y) (rev short) (rev long))"

definition or_tail :: "byte list \<Rightarrow> byte list \<Rightarrow> byte list" where
  "or_tail short long =
     take (length long - length short) long @
     rev (map2 (\<lambda>x y. x OR y) (rev short) (rev long))"

definition bint_and :: "'b openssl \<Rightarrow> 'b \<Rightarrow> 'b \<Rightarrow> cxx_exn + 'b" where
  "bint_and B this other =
     (if bint_to_bin B other = [] then bint_of_int B 0
      else let negate = bint_is_negative B this \<and> bint_is_negative B other;
               bytes_other = bint_to_bin B other;
               bytes_this = bint_to_bin B this;
               r = (if length bytes_other \<le> length bytes_this
                    then BN_bin2bn B (and_tail bytes_other bytes_this)
                    else BN_bin2bn B (and_tail bytes_this bytes_other))
        in Inr (if negate then bint_negate B r else r))"

definition bint_or :: "'b openssl \<Rightarrow> 'b \<Rightarrow> 'b \<Rightarrow> cxx_exn + 'b" where
  "bint_or B this other =
     (if bint_to_bin B other = [] then Inr this
      else let negate = (bint_is_negative B other \<and> \<not> bint_is_negative B this) \<or>
                        (bint_is_negative B this \<and> \<not> bint_is_negative B other);
               bytes_other = bint_to_bin B other;
               bytes_this = bint_to_bin B this;
               r = (if length bytes_other \<le> length bytes_this
                    then BN_bin2bn B (or_tail bytes_other bytes_this)
                    else BN_bin2bn B (or_tail bytes_this bytes_other))
        in Inr (if negate then bint_negate B r else r))"

definition bint_shl :: "'b openssl \<Rightarrow> 'b \<Rightarrow> int \<Rightarrow> cxx_exn + 'b" where
  "bint_shl B a n = (if n \<le> 0 then Inr a else of_opt big_int_error (BN_lshift B a (nat n)))"

definition bint_shr :: "'b openssl \<Rightarrow> 'b \<Rightarrow> int \<Rightarrow> cxx_exn + 'b" where
  "bint_shr B a n = (if n \<le> 0 then Inr a else of_opt big_int_error (BN_rshift B a (nat n)))"

subsection \<open>Conversions\<close>

definition bint_to_long :: "'b openssl \<Rightarrow> 'b \<Rightarrow> cxx_exn + int" where
  "bint_to_long B n = of_opt big_int_error (ASN1_INTEGER_get B n)"

definition bint_to_size_t_limited :: "'b openssl \<Rightarrow> 'b \<Rightarrow> cxx_exn + nat" where
  "bint_to_size_t_limited B n = bindE (bint_to_long B n) (\<lambda>i64. Inr (nat (i64 mod 2 ^ 64)))"

definition bint_serialize :: "'b openssl \<Rightarrow> 'b \<Rightarrow> byte list" where
  "bint_serialize B a = rev (drop 4 (BN_bn2mpi B a))"

definition bint_deserialize :: "'b openssl \<Rightarrow> byte list \<Rightarrow> cxx_exn + 'b" where
  "bint_deserialize B s =
     (let size = length s;
          tmp = [word_of_nat (drop_bit 24 size AND 0xff), word_of_nat (drop_bit 16 size AND 0xff),
                 word_of_nat (drop_bit 8 size AND 0xff), word_of_nat (size AND 0xff)] @ rev s
      in of_opt null_bignum (BN_mpi2bn B tmp))"

text \<open>Every failure the wrapper reports is its one exception.\<close>

lemma bint_errors:
  "bint_of_int B i = Inl x \<Longrightarrow> x = big_int_error" "bint_of_int64 B i = Inl x \<Longrightarrow> x = big_int_error"
  "bint_of_size_t B n = Inl x \<Longrightarrow> x = big_int_error" "bint_add B a b = Inl x \<Longrightarrow> x = big_int_error"
  "bint_sub B a b = Inl x \<Longrightarrow> x = big_int_error" "bint_mul B a b = Inl x \<Longrightarrow> x = big_int_error"
  "bint_div B a b = Inl x \<Longrightarrow> x = big_int_error" "bint_mod B a b = Inl x \<Longrightarrow> x = big_int_error"
  "bint_to_long B a = Inl x \<Longrightarrow> x = big_int_error"
  "bint_to_size_t_limited B a = Inl x \<Longrightarrow> x = big_int_error"
  by (auto simp: bint_of_int_def bint_of_int64_def bint_of_size_t_def bint_add_def bint_sub_def bint_mul_def
      bint_div_def bint_mod_def bint_to_long_def bint_to_size_t_limited_def bindE_eq_Inl Let_def
      split: if_splits)

subsection \<open>Documented behaviour of the routines\<close>

locale openssl_bn =
  fixes B :: "'b openssl" and bnval :: "'b \<Rightarrow> int"
  assumes set_word: "BN_set_word B n = Some b \<Longrightarrow> n < 2 ^ 64 \<Longrightarrow> bnval b = int n"
    and value_one: "bnval (BN_value_one B) = 1"
    and set_negative:
      "bnval (BN_set_negative B b neg) = (if neg then - \<bar>bnval b\<bar> else \<bar>bnval b\<bar>)"
    and is_negative: "BN_is_negative B b \<longleftrightarrow> bnval b < 0"
    and add: "BN_add B a b = Some c \<Longrightarrow> bnval c = bnval a + bnval b"
    and sub: "BN_sub B a b = Some c \<Longrightarrow> bnval c = bnval a - bnval b"
    and mul: "BN_mul B a b = Some c \<Longrightarrow> bnval c = bnval a * bnval b"
    and div: "BN_div B a b = Some c \<Longrightarrow> bnval b \<noteq> 0 \<Longrightarrow> bnval c = bnval a sdiv bnval b"
    and mod: "BN_mod B a b = Some c \<Longrightarrow> bnval b \<noteq> 0 \<Longrightarrow> bnval c = bnval a smod bnval b"
    and cmp: "sgn (BN_cmp B a b) = sgn (bnval a - bnval b)"
    and lshift: "BN_lshift B a n = Some c \<Longrightarrow> bnval c = bnval a * 2 ^ n"
    and rshift: "BN_rshift B a n = Some c \<Longrightarrow> bnval c = bnval a sdiv 2 ^ n"
    and bn2bin: "BN_bn2bin B a = rev (mag_bytes (nat \<bar>bnval a\<bar>))"
    and bin2bn: "bnval (BN_bin2bn B bs) = int (be_nat bs)"
    and bn2mpi: "BN_bn2mpi B a =
      be_bytes 4 (length (sm_bytes (bnval a))) @ rev (sm_bytes (bnval a))"
    and mpi2bn: "BN_mpi2bn B (be_bytes 4 (length s) @ rev s) = Some b \<Longrightarrow> length s < 2 ^ 32
      \<Longrightarrow> bnval b = sm_val s"
    and get: "ASN1_INTEGER_get B a = Some l \<Longrightarrow> INT64_MIN < bnval a \<Longrightarrow> bnval a \<le> INT64_MAX
      \<Longrightarrow> l = bnval a"
begin

lemma bint_of_int_val:
  "bint_of_int B i = Inr b \<Longrightarrow> INT_MIN \<le> i \<Longrightarrow> i \<le> INT_MAX \<Longrightarrow> bnval b = i"
  by (auto simp: bint_of_int_def bindE_eq_Inr set_negative value_one Let_def split: if_splits
      dest!: set_word sub)

lemma bint_of_int64_val:
  "bint_of_int64 B i = Inr b \<Longrightarrow> INT64_MIN \<le> i \<Longrightarrow> i \<le> INT64_MAX \<Longrightarrow> bnval b = i"
  by (auto simp: bint_of_int64_def bindE_eq_Inr set_negative value_one Let_def split: if_splits
      dest!: set_word sub)

lemma bint_of_size_t_val:
  "bint_of_size_t B n = Inr b \<Longrightarrow> n < 2 ^ 64 \<Longrightarrow> bnval b = int n"
  by (simp add: bint_of_size_t_def set_word)

lemma bint_lt_iff [simp]: "bint_lt B a b \<longleftrightarrow> bnval a < bnval b"
  using cmp [of a b] by (simp add: bint_lt_def bint_spaceship_def sgn_if split: if_splits)

lemma bint_eq_iff [simp]: "bint_eq B a b \<longleftrightarrow> bnval a = bnval b"
  using cmp [of a b] by (simp add: bint_eq_def bint_spaceship_def sgn_if split: if_splits)

lemma bint_add_val: "bint_add B a b = Inr c \<Longrightarrow> bnval c = bnval a + bnval b"
  by (simp add: bint_add_def add)

lemma bint_sub_val: "bint_sub B a b = Inr c \<Longrightarrow> bnval c = bnval a - bnval b"
  by (simp add: bint_sub_def sub)

lemma bint_mul_val: "bint_mul B a b = Inr c \<Longrightarrow> bnval c = bnval a * bnval b"
  by (simp add: bint_mul_def mul)

lemma bint_div_val:
  "bint_div B a b = Inr c \<Longrightarrow> bnval b \<noteq> 0 \<Longrightarrow> bnval c = bnval a sdiv bnval b"
  by (simp add: bint_div_def div)

lemma bint_mod_val:
  "bint_mod B a b = Inr c \<Longrightarrow> bnval b \<noteq> 0 \<Longrightarrow> bnval c = bnval a smod bnval b"
  by (simp add: bint_mod_def mod)

lemma bint_negate_val [simp]: "bnval (bint_negate B a) = - bnval a"
  by (simp add: bint_negate_def bint_is_negative_def is_negative set_negative)

lemma bint_uminus_val [simp]: "bnval (bint_uminus B a) = - bnval a"
  by (simp add: bint_uminus_def)

lemma bint_abs_val: "bnval (bint_abs B a) = \<bar>bnval a\<bar>"
  by (simp add: bint_abs_def bint_is_negative_def is_negative)

lemma bint_shl_val: "bint_shl B a n = Inr c \<Longrightarrow> bnval c = bnval a * 2 ^ nat n"
  by (auto simp: bint_shl_def lshift split: if_splits)

lemma bint_to_long_val:
  "bint_to_long B a = Inr l \<Longrightarrow> INT64_MIN < bnval a \<Longrightarrow> bnval a \<le> INT64_MAX \<Longrightarrow> l = bnval a"
  by (simp add: bint_to_long_def get)

lemma bint_to_size_t_limited_val:
  "bint_to_size_t_limited B a = Inr n \<Longrightarrow> 0 \<le> bnval a \<Longrightarrow> bnval a \<le> INT64_MAX
    \<Longrightarrow> int n = bnval a"
  by (auto simp: bint_to_size_t_limited_def bindE_eq_Inr dest!: bint_to_long_val)

lemma bint_serialize_val [simp]: "bint_serialize B a = sm_bytes (bnval a)"
  by (simp add: bint_serialize_def bn2mpi)

end

lemma size_prefix:
  "[word_of_nat (drop_bit 24 n AND 0xff), word_of_nat (drop_bit 16 n AND 0xff),
    word_of_nat (drop_bit 8 n AND 0xff), word_of_nat (n AND 0xff)] = be_bytes 4 n"
proof -
  have low: "word_of_nat (m AND 0xff) = (word_of_nat m :: byte)" for m
  proof -
    have "m AND 255 = m mod 256"
      using take_bit_eq_mask [of 8 m] by (simp add: mask_eq_exp_minus_1 take_bit_eq_mod)
    then show ?thesis by (simp add: word_unat_eq_iff unat_of_nat)
  qed
  have four: "le_bytes 4 n = le_bytes (Suc (Suc (Suc (Suc 0)))) n"
    by (simp only: numeral_nat)
  show ?thesis
    unfolding low be_bytes_def four
    by (simp add: drop_bit_eq_div flip: div_mult2_eq)
qed

context openssl_bn
begin

lemma bint_deserialize_val:
  "bint_deserialize B s = Inr b \<Longrightarrow> length s < 2 ^ 32 \<Longrightarrow> bnval b = sm_val s"
  unfolding bint_deserialize_def Let_def size_prefix by (simp add: mpi2bn)

end

subsection \<open>Bitwise operators on magnitudes\<close>

lemma nat_and_split:
  "((p :: nat) AND q) mod 256 = (p mod 256) AND (q mod 256)"
  "(p AND q) div 256 = (p div 256) AND (q div 256)"
  using take_bit_and [of 8 p q] drop_bit_and [of 8 p q]
  by (simp_all add: take_bit_eq_mod drop_bit_eq_div)

lemma nat_or_split:
  "((p :: nat) OR q) mod 256 = (p mod 256) OR (q mod 256)"
  "(p OR q) div 256 = (p div 256) OR (q div 256)"
  using take_bit_or [of 8 p q] drop_bit_or [of 8 p q]
  by (simp_all add: take_bit_eq_mod drop_bit_eq_div)

lemma le_nat_Cons_split:
  "le_nat (b # bs) mod 256 = unat b" "le_nat (b # bs) div 256 = le_nat bs"
  by simp_all

lemma nat_256_eqI: "(x :: nat) mod 256 = y mod 256 \<Longrightarrow> x div 256 = y div 256 \<Longrightarrow> x = y"
  by (metis div_mult_mod_eq)

lemma le_nat_map2_and: "le_nat (map2 (\<lambda>x y. x AND y) xs ys) = le_nat xs AND le_nat ys"
proof (induction xs arbitrary: ys)
  case (Cons x xs)
  show ?case
  proof (cases ys)
    case (Cons y ys')
    show ?thesis
    proof (rule nat_256_eqI)
      show "le_nat (map2 (\<lambda>x y. x AND y) (x # xs) ys) mod 256
          = (le_nat (x # xs) AND le_nat ys) mod 256"
        unfolding nat_and_split Cons
        by (simp add: unsigned_and_eq del: le_nat.simps add: le_nat_Cons_split)
      show "le_nat (map2 (\<lambda>x y. x AND y) (x # xs) ys) div 256
          = (le_nat (x # xs) AND le_nat ys) div 256"
        unfolding nat_and_split Cons
        using Cons.IH by (simp del: le_nat.simps add: le_nat_Cons_split)
    qed
  qed simp
qed simp

lemma le_nat_map2_or:
  "length xs \<le> length ys \<Longrightarrow>
   le_nat (map2 (\<lambda>x y. x OR y) xs ys @ drop (length xs) ys) = le_nat xs OR le_nat ys"
proof (induction xs arbitrary: ys)
  case (Cons x xs)
  then obtain y ys' where ys: "ys = y # ys'" "length xs \<le> length ys'" by (cases ys) auto
  show ?case
  proof (rule nat_256_eqI)
    show "le_nat (map2 (\<lambda>x y. x OR y) (x # xs) ys @ drop (length (x # xs)) ys) mod 256
        = (le_nat (x # xs) OR le_nat ys) mod 256"
      unfolding nat_or_split ys
      by (simp add: unsigned_or_eq del: le_nat.simps le_nat_append add: le_nat_Cons_split)
    show "le_nat (map2 (\<lambda>x y. x OR y) (x # xs) ys @ drop (length (x # xs)) ys) div 256
        = (le_nat (x # xs) OR le_nat ys) div 256"
      unfolding nat_or_split ys
      using Cons.IH [OF ys(2)] by (simp del: le_nat.simps le_nat_append add: le_nat_Cons_split)
  qed
qed simp

lemma be_nat_and_tail: "be_nat (and_tail s l) = be_nat s AND be_nat l"
  by (simp add: and_tail_def be_nat_def le_nat_map2_and)

lemma be_nat_or_tail: "length s \<le> length l \<Longrightarrow> be_nat (or_tail s l) = be_nat s OR be_nat l"
  using le_nat_map2_or [of "rev s" "rev l"]
  by (simp add: or_tail_def be_nat_def rev_take rev_map)

context openssl_bn
begin

lemma be_nat_to_bin: "be_nat (bint_to_bin B a) = nat \<bar>bnval a\<bar>"
  by (simp add: bint_to_bin_def bn2bin be_nat_def codec_simps)

lemma to_bin_Nil_iff: "bint_to_bin B a = [] \<longleftrightarrow> bnval a = 0"
  by (simp add: bint_to_bin_def bn2bin)

lemma bint_and_val:
  assumes "bint_and B a b = Inr c"
  shows "bnval c = (if bnval a < 0 \<and> bnval b < 0 then -1 else 1) * int (nat \<bar>bnval a\<bar> AND nat \<bar>bnval b\<bar>)"
proof (cases "bnval b = 0")
  case True
  with assms bint_of_int_val [of 0 c] show ?thesis
    by (simp add: bint_and_def to_bin_Nil_iff)
next
  case False
  with assms show ?thesis
    by (auto simp: bint_and_def to_bin_Nil_iff Let_def bin2bn be_nat_and_tail be_nat_to_bin
        bint_is_negative_def is_negative and.commute)
qed

lemma bint_or_val:
  assumes "bint_or B a b = Inr c"
  shows "bnval c = (if (bnval a < 0) \<noteq> (bnval b < 0) \<and> bnval b \<noteq> 0 \<or> bnval b = 0 \<and> bnval a < 0 then -1 else 1)
    * int (nat \<bar>bnval a\<bar> OR nat \<bar>bnval b\<bar>)"
proof (cases "bnval b = 0")
  case True
  with assms show ?thesis by (auto simp: bint_or_def to_bin_Nil_iff)
next
  case False
  with assms show ?thesis
    by (auto simp: bint_or_def to_bin_Nil_iff Let_def bin2bn be_nat_or_tail be_nat_to_bin
        bint_is_negative_def is_negative or.commute split: if_splits)
qed

end

locale openssl_bn_reads = openssl_bn +
  assumes mpi2bn_total:
    "length s + 4 < 2 ^ 31 \<Longrightarrow> BN_mpi2bn B (be_bytes 4 (length s) @ rev s) \<noteq> None"
begin

lemma bint_deserialize_ex:
  "length s + 4 < 2 ^ 31 \<Longrightarrow> \<exists>b. bint_deserialize B s = Inr b \<and> bnval b = sm_val s"
  using mpi2bn_total [of s] mpi2bn [of s]
  unfolding bint_deserialize_def Let_def size_prefix by auto

end

locale openssl_bn_total = openssl_bn_reads +
  assumes set_word_total: "n < 2 ^ 64 \<Longrightarrow> BN_set_word B n \<noteq> None"
    and add_total: "BN_add B a b \<noteq> None"
    and sub_total: "BN_sub B a b \<noteq> None"
    and mul_total: "BN_mul B a b \<noteq> None"
    and div_total: "bnval b \<noteq> 0 \<Longrightarrow> BN_div B a b \<noteq> None"
    and mod_total: "bnval b \<noteq> 0 \<Longrightarrow> BN_mod B a b \<noteq> None"
    and get_total: "INT64_MIN < bnval a \<Longrightarrow> bnval a \<le> INT64_MAX \<Longrightarrow> ASN1_INTEGER_get B a \<noteq> None"
begin

lemma bint_of_int_ex: "INT_MIN \<le> i \<Longrightarrow> i \<le> INT_MAX \<Longrightarrow> \<exists>b. bint_of_int B i = Inr b \<and> bnval b = i"
proof -
  assume i: "INT_MIN \<le> i" "i \<le> INT_MAX"
  have "\<exists>b. bint_of_int B i = Inr b"
    using i set_word_total [of "nat i"] set_word_total [of "nat (- i)"]
      set_word_total [of "nat (- (i + 1))"] sub_total
    by (auto simp: bint_of_int_def bindE_eq_Inr Let_def)
  with i bint_of_int_val show ?thesis by blast
qed

lemma bint_of_int64_ex:
  "INT64_MIN \<le> i \<Longrightarrow> i \<le> INT64_MAX \<Longrightarrow> \<exists>b. bint_of_int64 B i = Inr b \<and> bnval b = i"
proof -
  assume i: "INT64_MIN \<le> i" "i \<le> INT64_MAX"
  have "\<exists>b. bint_of_int64 B i = Inr b"
    using i set_word_total [of "nat i"] set_word_total [of "nat (- i)"]
      set_word_total [of "nat (- (i + 1))"] sub_total
    by (auto simp: bint_of_int64_def bindE_eq_Inr Let_def)
  with i bint_of_int64_val show ?thesis by blast
qed

lemma bint_of_size_t_ex: "n < 2 ^ 64 \<Longrightarrow> \<exists>b. bint_of_size_t B n = Inr b \<and> bnval b = int n"
  using set_word_total [of n] set_word [of n] by (auto simp: bint_of_size_t_def)

lemma bint_arith_ex:
  "\<exists>c. bint_add B a b = Inr c \<and> bnval c = bnval a + bnval b"
  "\<exists>c. bint_sub B a b = Inr c \<and> bnval c = bnval a - bnval b"
  "\<exists>c. bint_mul B a b = Inr c \<and> bnval c = bnval a * bnval b"
  "bnval b \<noteq> 0 \<Longrightarrow> \<exists>c. bint_div B a b = Inr c \<and> bnval c = bnval a sdiv bnval b"
  "bnval b \<noteq> 0 \<Longrightarrow> \<exists>c. bint_mod B a b = Inr c \<and> bnval c = bnval a smod bnval b"
  using add_total [of a b] sub_total [of a b] mul_total [of a b] div_total [of b a] mod_total [of b a]
  by (auto simp: bint_add_def bint_sub_def bint_mul_def bint_div_def bint_mod_def
      add sub mul div mod)

lemma bint_to_long_ex:
  "INT64_MIN < bnval a \<Longrightarrow> bnval a \<le> INT64_MAX \<Longrightarrow> bint_to_long B a = Inr (bnval a)"
  using get_total [of a] get [of a] by (auto simp: bint_to_long_def)

end

subsection \<open>Exact integer arithmetic satisfies the documented behaviour\<close>

definition int_openssl :: "int openssl" where
  "int_openssl = \<lparr>
     BN_set_word = (\<lambda>n. Some (int n)),
     BN_value_one = 1,
     BN_set_negative = (\<lambda>b neg. if neg then - \<bar>b\<bar> else \<bar>b\<bar>),
     BN_is_negative = (\<lambda>b. b < 0),
     BN_add = (\<lambda>a b. Some (a + b)),
     BN_sub = (\<lambda>a b. Some (a - b)),
     BN_mul = (\<lambda>a b. Some (a * b)),
     BN_div = (\<lambda>a b. if b = 0 then None else Some (a sdiv b)),
     BN_mod = (\<lambda>a b. if b = 0 then None else Some (a smod b)),
     BN_cmp = (\<lambda>a b. sgn (a - b)),
     BN_lshift = (\<lambda>a n. Some (a * 2 ^ n)),
     BN_rshift = (\<lambda>a n. Some (a sdiv 2 ^ n)),
     BN_bn2bin = (\<lambda>a. rev (mag_bytes (nat \<bar>a\<bar>))),
     BN_bin2bn = (\<lambda>bs. int (be_nat bs)),
     BN_bn2mpi = (\<lambda>a. be_bytes 4 (length (sm_bytes a)) @ rev (sm_bytes a)),
     BN_mpi2bn = (\<lambda>bs. Some (sm_val (rev (drop 4 bs)))),
     ASN1_INTEGER_get = (\<lambda>a. Some a)\<rparr>"

interpretation int_bn: openssl_bn_total int_openssl "\<lambda>x. x"
  by unfold_locales (auto simp: int_openssl_def split: if_splits)

end
