(* ===== verification/Script_Num.thy ===== *)
theory Script_Num
  imports Big_Int
begin

text \<open>
  \<open>src/src/script/script_num.h\<close> and \<open>script_num.cpp\<close>: \<open>CScriptNum\<close>, the number type of the
  interpreter, a variant of a 64-bit integer and a big number.  Failed assertions of the
  source are the value \<open>Inl assert_failure\<close>; 64-bit arithmetic wraps.  Inside the OpenSSL
  locales \<open>num_val\<close> gives a number's integer value, and the operators are shown to be the
  integer operations.
\<close>

datatype 'b CScriptNum = Num64 i64 | NumBig 'b

abbreviation (input) MAXIMUM_ELEMENT_SIZE :: nat where "MAXIMUM_ELEMENT_SIZE \<equiv> 4"

definition equal_index :: "'b CScriptNum \<Rightarrow> 'b CScriptNum \<Rightarrow> bool" where
  "equal_index a b = (case (a, b) of (Num64 _, Num64 _) \<Rightarrow> True | (NumBig _, NumBig _) \<Rightarrow> True
     | _ \<Rightarrow> False)"

definition num_of_bytes ::
  "'b openssl \<Rightarrow> byte list \<Rightarrow> bool \<Rightarrow> nat \<Rightarrow> bool \<Rightarrow> cxx_exn + 'b CScriptNum" where
  "num_of_bytes B span fRequireMinimal nMaxNumSize big_int =
     (if length span > nMaxNumSize then Inl scriptnum_overflow_error
      else if fRequireMinimal \<and> \<not> IsMinimallyEncoded span nMaxNumSize
        then Inl scriptnum_minencode_error
      else if span = [] then
        (if big_int then bindE (bint_of_int B 0) (\<lambda>b. Inr (NumBig b)) else Inr (Num64 0))
      else if big_int then bindE (bint_deserialize B span) (\<lambda>b. Inr (NumBig b))
      else bindE (of_opt assert_failure (deserialize_i64 span)) (\<lambda>n. Inr (Num64 n)))"

definition num_and :: "'b openssl \<Rightarrow> 'b CScriptNum \<Rightarrow> 'b CScriptNum \<Rightarrow> cxx_exn + 'b CScriptNum" where
  "num_and B a b =
     (case (a, b) of
        (Num64 x, Num64 y) \<Rightarrow> Inr (Num64 (x AND y))
      | (NumBig x, NumBig y) \<Rightarrow> bindE (bint_and B x y) (\<lambda>z. Inr (NumBig z))
      | _ \<Rightarrow> Inl assert_failure)"

definition num_and_i64 :: "'b openssl \<Rightarrow> 'b CScriptNum \<Rightarrow> i64 \<Rightarrow> cxx_exn + 'b CScriptNum" where
  "num_and_i64 B a other =
     (case a of
        Num64 x \<Rightarrow> Inr (Num64 (x AND other))
      | NumBig x \<Rightarrow> bindE (bint_of_int64 B (sint other))
          (\<lambda>y. bindE (bint_and B x y) (\<lambda>z. Inr (NumBig z))))"

definition num_eq :: "'b openssl \<Rightarrow> 'b CScriptNum \<Rightarrow> 'b CScriptNum \<Rightarrow> cxx_exn + bool" where
  "num_eq B a b =
     (case (a, b) of
        (Num64 x, Num64 y) \<Rightarrow> Inr (x = y)
      | (NumBig x, NumBig y) \<Rightarrow> Inr (bint_eq B x y)
      | (NumBig x, Num64 y) \<Rightarrow> bindE (bint_of_int64 B (sint y)) (\<lambda>y'. Inr (bint_eq B x y'))
      | (Num64 x, NumBig y) \<Rightarrow> bindE (bint_of_int64 B (sint x)) (\<lambda>x'. Inr (bint_eq B x' y)))"

definition num_lt :: "'b openssl \<Rightarrow> 'b CScriptNum \<Rightarrow> 'b CScriptNum \<Rightarrow> cxx_exn + bool" where
  "num_lt B a b =
     (case (a, b) of
        (Num64 x, Num64 y) \<Rightarrow> Inr (sint x < sint y)
      | (NumBig x, NumBig y) \<Rightarrow> Inr (bint_lt B x y)
      | (NumBig x, Num64 y) \<Rightarrow> bindE (bint_of_int64 B (sint y)) (\<lambda>y'. Inr (bint_lt B x y'))
      | (Num64 x, NumBig y) \<Rightarrow> bindE (bint_of_int64 B (sint x)) (\<lambda>x'. Inr (bint_lt B x' y)))"

definition num_lt_i64 :: "'b openssl \<Rightarrow> 'b CScriptNum \<Rightarrow> int \<Rightarrow> cxx_exn + bool" where
  "num_lt_i64 B a b =
     (case a of
        Num64 x \<Rightarrow> Inr (sint x < b)
      | NumBig x \<Rightarrow> bindE (bint_of_int64 B b) (\<lambda>b'. Inr (bint_lt B x b')))"

definition i64_lt_num :: "'b openssl \<Rightarrow> int \<Rightarrow> 'b CScriptNum \<Rightarrow> cxx_exn + bool" where
  "i64_lt_num B a b =
     (case b of
        Num64 y \<Rightarrow> Inr (a < sint y)
      | NumBig y \<Rightarrow> bindE (bint_of_int64 B a) (\<lambda>a'. Inr (bint_lt B a' y)))"

text \<open>The derived comparisons of the header.\<close>

definition num_ge_i64 :: "'b openssl \<Rightarrow> 'b CScriptNum \<Rightarrow> int \<Rightarrow> cxx_exn + bool" where
  "num_ge_i64 B a b = bindE (num_lt_i64 B a b) (\<lambda>r. Inr (\<not> r))"

definition num_gt_i64 :: "'b openssl \<Rightarrow> 'b CScriptNum \<Rightarrow> int \<Rightarrow> cxx_exn + bool" where
  "num_gt_i64 B a b = i64_lt_num B b a"

definition num_gt :: "'b openssl \<Rightarrow> 'b CScriptNum \<Rightarrow> 'b CScriptNum \<Rightarrow> cxx_exn + bool" where
  "num_gt B a b = num_lt B b a"

definition num_le :: "'b openssl \<Rightarrow> 'b CScriptNum \<Rightarrow> 'b CScriptNum \<Rightarrow> cxx_exn + bool" where
  "num_le B a b = bindE (num_lt B b a) (\<lambda>r. Inr (\<not> r))"

definition num_ge :: "'b openssl \<Rightarrow> 'b CScriptNum \<Rightarrow> 'b CScriptNum \<Rightarrow> cxx_exn + bool" where
  "num_ge B a b = bindE (num_lt B a b) (\<lambda>r. Inr (\<not> r))"

definition num_ne :: "'b openssl \<Rightarrow> 'b CScriptNum \<Rightarrow> 'b CScriptNum \<Rightarrow> cxx_exn + bool" where
  "num_ne B a b = bindE (num_eq B a b) (\<lambda>r. Inr (\<not> r))"

definition num_add :: "'b openssl \<Rightarrow> 'b CScriptNum \<Rightarrow> 'b CScriptNum \<Rightarrow> cxx_exn + 'b CScriptNum" where
  "num_add B a b =
     (case (a, b) of
        (Num64 x, Num64 y) \<Rightarrow>
          (if sint y = 0 \<or> (sint y > 0 \<and> sint x \<le> INT64_MAX - sint y) \<or>
              (sint y < 0 \<and> sint x \<ge> INT64_MIN - sint y)
           then Inr (Num64 (x + y)) else Inl assert_failure)
      | (NumBig x, NumBig y) \<Rightarrow> bindE (bint_add B x y) (\<lambda>z. Inr (NumBig z))
      | _ \<Rightarrow> Inl assert_failure)"

definition num_sub :: "'b openssl \<Rightarrow> 'b CScriptNum \<Rightarrow> 'b CScriptNum \<Rightarrow> cxx_exn + 'b CScriptNum" where
  "num_sub B a b =
     (case (a, b) of
        (Num64 x, Num64 y) \<Rightarrow>
          (if sint y = 0 \<or> (sint y > 0 \<and> sint x \<ge> INT64_MIN + sint y) \<or>
              (sint y < 0 \<and> sint x \<le> INT64_MAX + sint y)
           then Inr (Num64 (x - y)) else Inl assert_failure)
      | (NumBig x, NumBig y) \<Rightarrow> bindE (bint_sub B x y) (\<lambda>z. Inr (NumBig z))
      | _ \<Rightarrow> Inl assert_failure)"

definition num_mul :: "'b openssl \<Rightarrow> 'b CScriptNum \<Rightarrow> 'b CScriptNum \<Rightarrow> cxx_exn + 'b CScriptNum" where
  "num_mul B a b =
     (case (a, b) of
        (Num64 x, Num64 y) \<Rightarrow> Inr (Num64 (x * y))
      | (NumBig x, NumBig y) \<Rightarrow> bindE (bint_mul B x y) (\<lambda>z. Inr (NumBig z))
      | _ \<Rightarrow> Inl assert_failure)"

definition num_div :: "'b openssl \<Rightarrow> 'b CScriptNum \<Rightarrow> 'b CScriptNum \<Rightarrow> cxx_exn + 'b CScriptNum" where
  "num_div B a b =
     (case (a, b) of
        (Num64 x, Num64 y) \<Rightarrow> Inr (Num64 (word_of_int (sint x sdiv sint y)))
      | (NumBig x, NumBig y) \<Rightarrow> bindE (bint_div B x y) (\<lambda>z. Inr (NumBig z))
      | _ \<Rightarrow> Inl assert_failure)"

definition num_mod :: "'b openssl \<Rightarrow> 'b CScriptNum \<Rightarrow> 'b CScriptNum \<Rightarrow> cxx_exn + 'b CScriptNum" where
  "num_mod B a b =
     (case (a, b) of
        (Num64 x, Num64 y) \<Rightarrow> Inr (Num64 (word_of_int (sint x smod sint y)))
      | (NumBig x, NumBig y) \<Rightarrow> bindE (bint_mod B x y) (\<lambda>z. Inr (NumBig z))
      | _ \<Rightarrow> Inl assert_failure)"

definition num_uminus :: "'b openssl \<Rightarrow> 'b CScriptNum \<Rightarrow> 'b CScriptNum" where
  "num_uminus B a = (case a of Num64 x \<Rightarrow> Num64 (- x) | NumBig x \<Rightarrow> NumBig (bint_uminus B x))"

text \<open>Assignment from a C++ \<open>bool\<close>, which converts to the integers 0 and 1.\<close>

definition num_of_bool :: "bool \<Rightarrow> 'b CScriptNum" where
  "num_of_bool p = Num64 (if p then 1 else 0)"

definition num_getint :: "'b openssl \<Rightarrow> 'b CScriptNum \<Rightarrow> cxx_exn + int" where
  "num_getint B a =
     (case a of
        NumBig n \<Rightarrow>
          bindE (bint_of_int B INT_MIN) (\<lambda>bn_int_min. bindE (bint_of_int B INT_MAX) (\<lambda>bn_int_max.
            if bint_lt B bn_int_max n then Inr INT_MAX
            else if bint_lt B n bn_int_min then Inr INT_MIN
            else bint_to_long B n))
      | Num64 n \<Rightarrow>
          Inr (if sint n > INT_MAX then INT_MAX else if sint n < INT_MIN then INT_MIN else sint n))"

definition num_to_size_t_limited :: "'b openssl \<Rightarrow> 'b CScriptNum \<Rightarrow> cxx_exn + nat" where
  "num_to_size_t_limited B a =
     (case a of
        NumBig n \<Rightarrow>
          bindE (bint_of_int64 B 0) (\<lambda>zero. bindE (bint_of_int64 B INT_MAX) (\<lambda>mx.
            if \<not> bint_lt B n zero \<and> \<not> bint_lt B mx n then bint_to_size_t_limited B n
            else Inl assert_failure))
      | Num64 n \<Rightarrow>
          if 0 \<le> sint n \<and> sint n \<le> INT_MAX then Inr (unat n) else Inl assert_failure)"

definition num_getvch :: "'b openssl \<Rightarrow> 'b CScriptNum \<Rightarrow> byte list" where
  "num_getvch B a = (case a of NumBig n \<Rightarrow> bint_serialize B n | Num64 n \<Rightarrow> serialize_i64 n)"

subsection \<open>The integer a script number stands for\<close>

definition num_val :: "('b \<Rightarrow> int) \<Rightarrow> 'b CScriptNum \<Rightarrow> int" where
  "num_val bnval a = (case a of Num64 n \<Rightarrow> sint n | NumBig b \<Rightarrow> bnval b)"

lemma num_val_simps [simp]:
  "num_val bnval (Num64 n) = sint n"
  "num_val bnval (NumBig b) = bnval b"
  by (simp_all add: num_val_def)

lemma i64_range: "INT64_MIN \<le> sint (v :: i64)" "sint (v :: i64) \<le> INT64_MAX"
  using sint_i64_bounds [of v] by simp_all

lemma num_val_of_bool [simp]: "num_val bnval (num_of_bool p) = (if p then 1 else 0)"
  by (simp add: num_of_bool_def)

lemma sint_word_of_int_i64: "INT64_MIN \<le> k \<Longrightarrow> k \<le> INT64_MAX \<Longrightarrow> sint (word_of_int k :: i64) = k"
  by (simp add: signed_of_int signed_take_bit_int_eq_self)

lemma sint_i64_inj: "sint x = sint y \<longleftrightarrow> x = (y :: i64)"
proof
  assume "sint x = sint y"
  then have "word_of_int (sint x) = (word_of_int (sint y) :: i64)" by (simp only:)
  then show "x = y" by simp
qed simp

lemma num_of_bytes_64:
  assumes "num_of_bytes B s m n False = Inr x" "length s \<le> 8"
  shows "x = Num64 (word_of_int (sm_val s))"
  using assms by (auto simp: num_of_bytes_def bindE_eq_Inr deserialize_i64_short split: if_splits)

lemma sm_val_bound: "\<bar>sm_val s\<bar> < 2 ^ (8 * length s)"
proof -
  have "sm_mag s < 256 ^ length s" using sm_mag_bound [of s] by simp
  then have "int (sm_mag s) < 256 ^ length s"
    by (metis of_nat_less_numeral_power_cancel_iff)
  then show ?thesis by (simp add: sm_val_def power_mult)
qed

lemma sm_val_bound_half: "s \<noteq> [] \<Longrightarrow> \<bar>sm_val s\<bar> < 2 ^ (8 * length s - 1)"
proof -
  assume "s \<noteq> []"
  then obtain k where k: "8 * length s = Suc k" by (cases "8 * length s") auto
  have "2 * sm_mag s < 2 ^ Suc k"
    using sm_mag_bound [of s] by (simp add: power_mult flip: k)
  then have "sm_mag s < 2 ^ k" by simp
  then have "int (sm_mag s) < 2 ^ k"
    by (metis of_nat_less_numeral_power_cancel_iff)
  then show ?thesis by (simp add: sm_val_def k)
qed

lemma sm_val_i64: "length s \<le> 8 \<Longrightarrow> INT64_MIN \<le> sm_val s \<and> sm_val s \<le> INT64_MAX"
proof (cases "s = []")
  case False
  assume "length s \<le> 8"
  then have "8 * length s - 1 \<le> 63" by simp
  then have "(2 :: int) ^ (8 * length s - 1) \<le> 2 ^ 63" by (rule power_increasing) simp
  with sm_val_bound_half [OF False] have "\<bar>sm_val s\<bar> < 2 ^ 63" by linarith
  then show ?thesis by auto
qed simp

lemma num_of_bytes_64_val:
  assumes "num_of_bytes B s m n False = Inr x" "length s \<le> 8"
  shows "num_val bnval x = sm_val s"
  using num_of_bytes_64 [OF assms] sm_val_i64 [OF assms(2)] by (simp add: sint_word_of_int_i64)

lemma num_of_bytes_lengthD: "num_of_bytes B s m n big = Inr x \<Longrightarrow> length s \<le> n"
  by (auto simp: num_of_bytes_def split: if_splits)

lemma num_of_bytes_minimalD: "num_of_bytes B s True n big = Inr x \<Longrightarrow> sm_min s"
  by (auto simp: num_of_bytes_def IsMinimallyEncoded_iff split: if_splits)

context openssl_bn
begin

lemma num_getvch_val [simp]: "num_getvch B a = sm_bytes (num_val bnval a)"
  by (cases a) (simp_all add: num_getvch_def serialize_i64_sm_bytes)

lemma num_of_bytes_val:
  assumes "num_of_bytes B s m n big = Inr x" "n < 2 ^ 32" "big \<or> n \<le> 8"
  shows "num_val bnval x = sm_val s"
proof (cases big)
  case True
  with assms bint_of_int_val [of 0] bint_deserialize_val [of s] show ?thesis
    by (auto simp: num_of_bytes_def bindE_eq_Inr split: if_splits)
next
  case False
  with assms num_of_bytes_lengthD [OF assms(1)] show ?thesis
    by (auto intro: num_of_bytes_64_val [of B s m n])
qed

lemma num_getvch_of_bytes:
  assumes "num_of_bytes B s True n big = Inr x" "n < 2 ^ 32" "big \<or> n \<le> 8"
  shows "num_getvch B x = s"
  using num_of_bytes_val [OF assms] num_of_bytes_minimalD [OF assms(1)] by simp

lemma num_uminus_val:
  "num_val bnval a \<noteq> INT64_MIN \<Longrightarrow> num_val bnval (num_uminus B a) = - num_val bnval a"
proof (cases a)
  case (Num64 x)
  assume "num_val bnval a \<noteq> INT64_MIN"
  with Num64 i64_range [of x] sint_word_of_int_i64 [of "- sint x"] show ?thesis
    by (simp add: num_uminus_def)
qed (simp add: num_uminus_def)

end

text \<open>Comparisons, sums and conversions that may fail: what they throw, and what a result means.\<close>

lemma num_cmp_errors:
  "num_eq B a b = Inl x \<Longrightarrow> x = big_int_error" "num_lt B a b = Inl x \<Longrightarrow> x = big_int_error"
  "num_lt_i64 B a k = Inl x \<Longrightarrow> x = big_int_error" "i64_lt_num B k a = Inl x \<Longrightarrow> x = big_int_error"
  by (auto simp: num_eq_def num_lt_def num_lt_i64_def i64_lt_num_def bindE_eq_Inl bint_errors
      split: CScriptNum.splits)

lemma num_cmp_errors':
  "num_ge_i64 B a k = Inl x \<Longrightarrow> x = big_int_error" "num_gt_i64 B a k = Inl x \<Longrightarrow> x = big_int_error"
  "num_gt B a b = Inl x \<Longrightarrow> x = big_int_error" "num_le B a b = Inl x \<Longrightarrow> x = big_int_error"
  "num_ge B a b = Inl x \<Longrightarrow> x = big_int_error" "num_ne B a b = Inl x \<Longrightarrow> x = big_int_error"
  by (auto simp: num_ge_i64_def num_gt_i64_def num_gt_def num_le_def num_ge_def num_ne_def bindE_eq_Inl
      num_cmp_errors)

lemma num_arith_errors:
  "num_add B (NumBig a) (NumBig b) = Inl x \<Longrightarrow> x = big_int_error"
  "num_sub B (NumBig a) (NumBig b) = Inl x \<Longrightarrow> x = big_int_error"
  "num_mul B (NumBig a) (NumBig b) = Inl x \<Longrightarrow> x = big_int_error"
  "num_div B (NumBig a) (NumBig b) = Inl x \<Longrightarrow> x = big_int_error"
  "num_mod B (NumBig a) (NumBig b) = Inl x \<Longrightarrow> x = big_int_error"
  "num_getint B c = Inl x \<Longrightarrow> x = big_int_error"
  by (auto simp: num_add_def num_sub_def num_mul_def num_div_def num_mod_def num_getint_def bindE_eq_Inl
      bint_errors split: CScriptNum.splits if_splits)

context openssl_bn
begin

lemma num_lt_i64_val:
  "num_lt_i64 B a k = Inr r \<Longrightarrow> INT64_MIN \<le> k \<Longrightarrow> k \<le> INT64_MAX \<Longrightarrow> r \<longleftrightarrow> num_val bnval a < k"
  by (cases a) (auto simp: num_lt_i64_def bindE_eq_Inr dest: bint_of_int64_val)

lemma num_ge_i64_val:
  "num_ge_i64 B a k = Inr r \<Longrightarrow> INT64_MIN \<le> k \<Longrightarrow> k \<le> INT64_MAX \<Longrightarrow> r \<longleftrightarrow> k \<le> num_val bnval a"
  by (auto simp: num_ge_i64_def bindE_eq_Inr dest: num_lt_i64_val)

lemma num_gt_i64_val:
  "num_gt_i64 B a k = Inr r \<Longrightarrow> INT64_MIN \<le> k \<Longrightarrow> k \<le> INT64_MAX \<Longrightarrow> r \<longleftrightarrow> k < num_val bnval a"
  by (cases a) (auto simp: num_gt_i64_def i64_lt_num_def bindE_eq_Inr dest: bint_of_int64_val)

lemma num_sub_val:
  "num_sub B (NumBig a) (NumBig b) = Inr r \<Longrightarrow> \<exists>c. r = NumBig c \<and> bnval c = bnval a - bnval b"
  by (auto simp: num_sub_def bindE_eq_Inr dest: bint_sub_val)

lemma num_to_size_t_limited_cases:
  assumes "0 \<le> num_val bnval a" "num_val bnval a \<le> INT_MAX"
  shows "num_to_size_t_limited B a = Inl x \<Longrightarrow> x = big_int_error"
    "num_to_size_t_limited B a = Inr n \<Longrightarrow> int n = num_val bnval a"
proof -
  have nat: "int (unat k) = sint k" if "0 \<le> sint k" for k :: i64
    using that unat_novo_abs [of k] by (simp add: novo_abs_def)
  show "num_to_size_t_limited B a = Inl x \<Longrightarrow> x = big_int_error"
    using assms by (cases a) (auto simp: num_to_size_t_limited_def bindE_eq_Inl bint_errors
        dest!: bint_of_int64_val bint_errors split: if_splits)
  show "num_to_size_t_limited B a = Inr n \<Longrightarrow> int n = num_val bnval a"
    using assms nat by (cases a) (auto simp: num_to_size_t_limited_def bindE_eq_Inr
        dest!: bint_to_size_t_limited_val split: if_splits)
qed

end

context openssl_bn_total
begin

lemma num_of_bytes_big_ex:
  assumes "length s \<le> n" "n + 4 < 2 ^ 31" "m \<longrightarrow> IsMinimallyEncoded s n"
  shows "\<exists>b. num_of_bytes B s m n True = Inr (NumBig b) \<and> bnval b = sm_val s"
  using assms bint_of_int_ex [of 0] bint_deserialize_ex [of s]
  by (auto simp: num_of_bytes_def)

lemma bint_of_i64_ex: "\<exists>b. bint_of_int64 B (sint (x :: i64)) = Inr b \<and> bnval b = sint x"
  using bint_of_int64_ex i64_range by blast

lemma num_eq_total [simp]: "num_eq B a b = Inr (num_val bnval a = num_val bnval b)"
proof (cases a)
  case (Num64 x)
  then show ?thesis
    using bint_of_i64_ex [of x] by (cases b) (auto simp: num_eq_def sint_i64_inj)
next
  case a: (NumBig x)
  show ?thesis
  proof (cases b)
    case (Num64 y)
    then show ?thesis using a bint_of_i64_ex [of y] by (auto simp: num_eq_def)
  qed (simp add: a num_eq_def)
qed

lemma num_lt_total [simp]: "num_lt B a b = Inr (num_val bnval a < num_val bnval b)"
proof (cases a)
  case (Num64 x)
  then show ?thesis
    using bint_of_i64_ex [of x] by (cases b) (auto simp: num_lt_def)
next
  case a: (NumBig x)
  show ?thesis
  proof (cases b)
    case (Num64 y)
    then show ?thesis using a bint_of_i64_ex [of y] by (auto simp: num_lt_def)
  qed (simp add: a num_lt_def)
qed

lemma num_lt_i64_total [simp]:
  "INT64_MIN \<le> k \<Longrightarrow> k \<le> INT64_MAX \<Longrightarrow> num_lt_i64 B a k = Inr (num_val bnval a < k)"
  using bint_of_int64_ex [of k] by (cases a) (auto simp: num_lt_i64_def)

lemma i64_lt_num_total [simp]:
  "INT64_MIN \<le> k \<Longrightarrow> k \<le> INT64_MAX \<Longrightarrow> i64_lt_num B k a = Inr (k < num_val bnval a)"
  using bint_of_int64_ex [of k] by (cases a) (auto simp: i64_lt_num_def)

lemma num_cmp_total [simp]:
  "INT64_MIN \<le> k \<Longrightarrow> k \<le> INT64_MAX \<Longrightarrow> num_ge_i64 B a k = Inr (k \<le> num_val bnval a)"
  "INT64_MIN \<le> k \<Longrightarrow> k \<le> INT64_MAX \<Longrightarrow> num_gt_i64 B a k = Inr (k < num_val bnval a)"
  "num_gt B a b = Inr (num_val bnval b < num_val bnval a)"
  "num_le B a b = Inr (num_val bnval a \<le> num_val bnval b)"
  "num_ge B a b = Inr (num_val bnval b \<le> num_val bnval a)"
  "num_ne B a b = Inr (num_val bnval a \<noteq> num_val bnval b)"
  by (auto simp: num_ge_i64_def num_gt_i64_def num_gt_def num_le_def num_ge_def num_ne_def)

lemma num_arith_big_ex:
  "\<exists>c. num_add B (NumBig a) (NumBig b) = Inr (NumBig c) \<and> bnval c = bnval a + bnval b"
  "\<exists>c. num_sub B (NumBig a) (NumBig b) = Inr (NumBig c) \<and> bnval c = bnval a - bnval b"
  "\<exists>c. num_mul B (NumBig a) (NumBig b) = Inr (NumBig c) \<and> bnval c = bnval a * bnval b"
  "bnval b \<noteq> 0 \<Longrightarrow>
    \<exists>c. num_div B (NumBig a) (NumBig b) = Inr (NumBig c) \<and> bnval c = bnval a sdiv bnval b"
  "bnval b \<noteq> 0 \<Longrightarrow>
    \<exists>c. num_mod B (NumBig a) (NumBig b) = Inr (NumBig c) \<and> bnval c = bnval a smod bnval b"
  using bint_arith_ex [where a = a and b = b]
  by (auto simp: num_add_def num_sub_def num_mul_def num_div_def num_mod_def)

lemma num_getint_total: "num_getint B a = Inr (max INT_MIN (min INT_MAX (num_val bnval a)))"
proof (cases a)
  case (NumBig n)
  obtain lo hi where "bint_of_int B INT_MIN = Inr lo" "bnval lo = INT_MIN"
    "bint_of_int B INT_MAX = Inr hi" "bnval hi = INT_MAX"
    using bint_of_int_ex [of INT_MIN] bint_of_int_ex [of INT_MAX] by auto
  then show ?thesis
    using bint_to_long_ex [of n] by (auto simp: num_getint_def NumBig)
qed (simp add: num_getint_def)

lemma num_to_size_t_limited_total:
  "num_to_size_t_limited B a =
     (if 0 \<le> num_val bnval a \<and> num_val bnval a \<le> INT_MAX then Inr (nat (num_val bnval a))
      else Inl assert_failure)"
proof (cases a)
  case (NumBig n)
  obtain lo hi where "bint_of_int64 B 0 = Inr lo" "bnval lo = 0"
    "bint_of_int64 B INT_MAX = Inr hi" "bnval hi = INT_MAX"
    using bint_of_int64_ex [of 0] bint_of_int64_ex [of INT_MAX] by auto
  then show ?thesis
    using bint_to_long_ex [of n] by (auto simp: num_to_size_t_limited_def bint_to_size_t_limited_def NumBig)
next
  case (Num64 n)
  have "nat (sint n) = unat n" if "0 \<le> sint n"
    using that unat_novo_abs [of n] by (simp add: novo_abs_def)
  then show ?thesis by (simp add: num_to_size_t_limited_def Num64)
qed

end

subsection \<open>Properties\<close>

lemma four_byte_range: "length s \<le> 4 \<Longrightarrow> \<bar>sm_val s\<bar> \<le> 2147483647"
proof (cases "s = []")
  case False
  assume "length s \<le> 4"
  then have "8 * length s - 1 \<le> 31" by simp
  then have "(2 :: int) ^ (8 * length s - 1) \<le> 2 ^ 31" by (rule power_increasing) simp
  with sm_val_bound_half [OF False] have "\<bar>sm_val s\<bar> < 2 ^ 31" by linarith
  then show ?thesis by simp
qed simp

text \<open>C19. A script number read with minimal encoding required writes back the very bytes it was
  read from, and its value is the integer those bytes denote, whether it is held as a 64-bit
  integer or as a big number.\<close>

theorem scriptnum_read_write:
  assumes "openssl_bn B bnval" "num_of_bytes B s True n big = Inr x" "n < 2 ^ 32" "big \<or> n \<le> 8"
  shows "num_getvch B x = s \<and> num_val bnval x = sm_val s"
  using openssl_bn.num_getvch_of_bytes [OF assms] openssl_bn.num_of_bytes_val [OF assms] by simp

theorem scriptnum_read_write_witness:
  "num_of_bytes int_openssl [0xff, 0x80] True 750000 True = Inr (NumBig (- 255)) \<and>
   num_getvch int_openssl (NumBig (- 255)) = [0xff, 0x80]"
proof -
  have r: "num_of_bytes int_openssl [0xff, 0x80] True 750000 True = Inr (NumBig (- 255))"
    by (simp add: num_of_bytes_def IsMinimallyEncoded_def bint_deserialize_def int_openssl_def
        sm_val_def sm_neg_def sm_mag_def)
  show ?thesis
    using scriptnum_read_write [OF int_bn.openssl_bn_axioms r] r by simp
qed

text \<open>Numbers read from at most four bytes into the 64-bit representation add, subtract
  and multiply exactly: the overflow assertions of \<open>operator+=\<close> and \<open>operator-=\<close> cannot fail
  and the product does not wrap.\<close>

theorem scriptnum_four_byte_exact:
  assumes a: "num_of_bytes B s m 4 False = Inr a" and b: "num_of_bytes B t m 4 False = Inr b"
  shows "(\<exists>c. num_add B a b = Inr c \<and> num_val bnval c = sm_val s + sm_val t) \<and>
    (\<exists>c. num_sub B a b = Inr c \<and> num_val bnval c = sm_val s - sm_val t) \<and>
    (\<exists>c. num_mul B a b = Inr c \<and> num_val bnval c = sm_val s * sm_val t)"
proof -
  let ?x = "sm_val s" and ?y = "sm_val t"
  have len: "length s \<le> 4" "length t \<le> 4"
    using a b by (simp_all add: num_of_bytes_lengthD)
  then have x: "\<bar>?x\<bar> \<le> 2147483647" and y: "\<bar>?y\<bar> \<le> 2147483647"
    by (simp_all add: four_byte_range)
  have ab: "a = Num64 (word_of_int ?x)" "b = Num64 (word_of_int ?y)"
    using num_of_bytes_64 [OF a] num_of_bytes_64 [OF b] len by simp_all
  have sx: "sint (word_of_int ?x :: i64) = ?x" and sy: "sint (word_of_int ?y :: i64) = ?y"
    using x y by (simp_all add: sint_word_of_int_i64)
  have "\<bar>?x * ?y\<bar> \<le> 2147483647 * 2147483647"
    unfolding abs_mult using x y by (intro mult_mono) simp_all
  then have "sint (word_of_int (?x * ?y) :: i64) = ?x * ?y"
    by (intro sint_word_of_int_i64) simp_all
  moreover have "sint (word_of_int (?x + ?y) :: i64) = ?x + ?y"
    "sint (word_of_int (?x - ?y) :: i64) = ?x - ?y"
    using x y by (intro sint_word_of_int_i64; linarith)+
  moreover have "?y = 0 \<or> (?y > 0 \<and> ?x \<le> INT64_MAX - ?y) \<or> (?y < 0 \<and> ?x \<ge> INT64_MIN - ?y)"
    "?y = 0 \<or> (?y > 0 \<and> ?x \<ge> INT64_MIN + ?y) \<or> (?y < 0 \<and> ?x \<le> INT64_MAX + ?y)"
    using x y by auto
  ultimately show ?thesis
    by (simp add: ab num_add_def num_sub_def num_mul_def sx sy)
qed

theorem scriptnum_four_byte_exact_witness:
  "\<exists>a. num_of_bytes int_openssl [0xff, 0xff, 0xff, 0x7f] True 4 False = Inr a \<and>
     (\<exists>c. num_add int_openssl a a = Inr c \<and> num_val id c = 4294967294)"
proof -
  have r: "num_of_bytes int_openssl [0xff, 0xff, 0xff, 0x7f] True 4 False = Inr (Num64 0x7fffffff)"
    by (simp add: num_of_bytes_def IsMinimallyEncoded_def deserialize_i64_short sm_val_def
        sm_neg_def sm_mag_def)
  have "sm_val [0xff, 0xff, 0xff, 0x7f] = 2147483647"
    by (simp add: sm_val_def sm_neg_def sm_mag_def)
  then show ?thesis
    using scriptnum_four_byte_exact [OF r r, of id] r by auto
qed

end
