(* ===== verification/Script.thy ===== *)
theory Script
  imports Script_Num Crypto_Common
begin

text \<open>
  Scripts: \<open>src/src/script/opcodes.h\<close>, \<open>script.h\<close>, \<open>script.cpp\<close>, \<open>instruction.h\<close> and
  \<open>instruction_iterator.h\<close>.
  A script is its byte list, an iterator into it an index, an opcode its number.  The two
  decoders of the source, \<open>CScript::GetOp2\<close> and \<open>decode_instruction\<close>, are both modelled
  and shown to agree; pushes are shown to be read back.
\<close>

subsection \<open>Opcodes\<close>

type_synonym opcodetype = nat

abbreviation (input) OP_0 :: opcodetype where "OP_0 \<equiv> 0"
abbreviation (input) OP_FALSE :: opcodetype where "OP_FALSE \<equiv> 0"
abbreviation (input) OP_PUSHDATA1 :: opcodetype where "OP_PUSHDATA1 \<equiv> 0x4c"
abbreviation (input) OP_PUSHDATA2 :: opcodetype where "OP_PUSHDATA2 \<equiv> 0x4d"
abbreviation (input) OP_PUSHDATA4 :: opcodetype where "OP_PUSHDATA4 \<equiv> 0x4e"
abbreviation (input) OP_1NEGATE :: opcodetype where "OP_1NEGATE \<equiv> 0x4f"
abbreviation (input) OP_RESERVED :: opcodetype where "OP_RESERVED \<equiv> 0x50"
abbreviation (input) OP_1 :: opcodetype where "OP_1 \<equiv> 0x51"
abbreviation (input) OP_TRUE :: opcodetype where "OP_TRUE \<equiv> 0x51"
abbreviation (input) OP_2 :: opcodetype where "OP_2 \<equiv> 0x52"
abbreviation (input) OP_3 :: opcodetype where "OP_3 \<equiv> 0x53"
abbreviation (input) OP_4 :: opcodetype where "OP_4 \<equiv> 0x54"
abbreviation (input) OP_5 :: opcodetype where "OP_5 \<equiv> 0x55"
abbreviation (input) OP_6 :: opcodetype where "OP_6 \<equiv> 0x56"
abbreviation (input) OP_7 :: opcodetype where "OP_7 \<equiv> 0x57"
abbreviation (input) OP_8 :: opcodetype where "OP_8 \<equiv> 0x58"
abbreviation (input) OP_9 :: opcodetype where "OP_9 \<equiv> 0x59"
abbreviation (input) OP_10 :: opcodetype where "OP_10 \<equiv> 0x5a"
abbreviation (input) OP_11 :: opcodetype where "OP_11 \<equiv> 0x5b"
abbreviation (input) OP_12 :: opcodetype where "OP_12 \<equiv> 0x5c"
abbreviation (input) OP_13 :: opcodetype where "OP_13 \<equiv> 0x5d"
abbreviation (input) OP_14 :: opcodetype where "OP_14 \<equiv> 0x5e"
abbreviation (input) OP_15 :: opcodetype where "OP_15 \<equiv> 0x5f"
abbreviation (input) OP_16 :: opcodetype where "OP_16 \<equiv> 0x60"
abbreviation (input) OP_NOP :: opcodetype where "OP_NOP \<equiv> 0x61"
abbreviation (input) OP_VER :: opcodetype where "OP_VER \<equiv> 0x62"
abbreviation (input) OP_IF :: opcodetype where "OP_IF \<equiv> 0x63"
abbreviation (input) OP_NOTIF :: opcodetype where "OP_NOTIF \<equiv> 0x64"
abbreviation (input) OP_VERIF :: opcodetype where "OP_VERIF \<equiv> 0x65"
abbreviation (input) OP_VERNOTIF :: opcodetype where "OP_VERNOTIF \<equiv> 0x66"
abbreviation (input) OP_ELSE :: opcodetype where "OP_ELSE \<equiv> 0x67"
abbreviation (input) OP_ENDIF :: opcodetype where "OP_ENDIF \<equiv> 0x68"
abbreviation (input) OP_VERIFY :: opcodetype where "OP_VERIFY \<equiv> 0x69"
abbreviation (input) OP_RETURN :: opcodetype where "OP_RETURN \<equiv> 0x6a"
abbreviation (input) OP_TOALTSTACK :: opcodetype where "OP_TOALTSTACK \<equiv> 0x6b"
abbreviation (input) OP_FROMALTSTACK :: opcodetype where "OP_FROMALTSTACK \<equiv> 0x6c"
abbreviation (input) OP_2DROP :: opcodetype where "OP_2DROP \<equiv> 0x6d"
abbreviation (input) OP_2DUP :: opcodetype where "OP_2DUP \<equiv> 0x6e"
abbreviation (input) OP_3DUP :: opcodetype where "OP_3DUP \<equiv> 0x6f"
abbreviation (input) OP_2OVER :: opcodetype where "OP_2OVER \<equiv> 0x70"
abbreviation (input) OP_2ROT :: opcodetype where "OP_2ROT \<equiv> 0x71"
abbreviation (input) OP_2SWAP :: opcodetype where "OP_2SWAP \<equiv> 0x72"
abbreviation (input) OP_IFDUP :: opcodetype where "OP_IFDUP \<equiv> 0x73"
abbreviation (input) OP_DEPTH :: opcodetype where "OP_DEPTH \<equiv> 0x74"
abbreviation (input) OP_DROP :: opcodetype where "OP_DROP \<equiv> 0x75"
abbreviation (input) OP_DUP :: opcodetype where "OP_DUP \<equiv> 0x76"
abbreviation (input) OP_NIP :: opcodetype where "OP_NIP \<equiv> 0x77"
abbreviation (input) OP_OVER :: opcodetype where "OP_OVER \<equiv> 0x78"
abbreviation (input) OP_PICK :: opcodetype where "OP_PICK \<equiv> 0x79"
abbreviation (input) OP_ROLL :: opcodetype where "OP_ROLL \<equiv> 0x7a"
abbreviation (input) OP_ROT :: opcodetype where "OP_ROT \<equiv> 0x7b"
abbreviation (input) OP_SWAP :: opcodetype where "OP_SWAP \<equiv> 0x7c"
abbreviation (input) OP_TUCK :: opcodetype where "OP_TUCK \<equiv> 0x7d"
abbreviation (input) OP_CAT :: opcodetype where "OP_CAT \<equiv> 0x7e"
abbreviation (input) OP_SPLIT :: opcodetype where "OP_SPLIT \<equiv> 0x7f"
abbreviation (input) OP_NUM2BIN :: opcodetype where "OP_NUM2BIN \<equiv> 0x80"
abbreviation (input) OP_BIN2NUM :: opcodetype where "OP_BIN2NUM \<equiv> 0x81"
abbreviation (input) OP_SIZE :: opcodetype where "OP_SIZE \<equiv> 0x82"
abbreviation (input) OP_INVERT :: opcodetype where "OP_INVERT \<equiv> 0x83"
abbreviation (input) OP_AND :: opcodetype where "OP_AND \<equiv> 0x84"
abbreviation (input) OP_OR :: opcodetype where "OP_OR \<equiv> 0x85"
abbreviation (input) OP_XOR :: opcodetype where "OP_XOR \<equiv> 0x86"
abbreviation (input) OP_EQUAL :: opcodetype where "OP_EQUAL \<equiv> 0x87"
abbreviation (input) OP_EQUALVERIFY :: opcodetype where "OP_EQUALVERIFY \<equiv> 0x88"
abbreviation (input) OP_RESERVED1 :: opcodetype where "OP_RESERVED1 \<equiv> 0x89"
abbreviation (input) OP_RESERVED2 :: opcodetype where "OP_RESERVED2 \<equiv> 0x8a"
abbreviation (input) OP_1ADD :: opcodetype where "OP_1ADD \<equiv> 0x8b"
abbreviation (input) OP_1SUB :: opcodetype where "OP_1SUB \<equiv> 0x8c"
abbreviation (input) OP_2MUL :: opcodetype where "OP_2MUL \<equiv> 0x8d"
abbreviation (input) OP_2DIV :: opcodetype where "OP_2DIV \<equiv> 0x8e"
abbreviation (input) OP_NEGATE :: opcodetype where "OP_NEGATE \<equiv> 0x8f"
abbreviation (input) OP_ABS :: opcodetype where "OP_ABS \<equiv> 0x90"
abbreviation (input) OP_NOT :: opcodetype where "OP_NOT \<equiv> 0x91"
abbreviation (input) OP_0NOTEQUAL :: opcodetype where "OP_0NOTEQUAL \<equiv> 0x92"
abbreviation (input) OP_ADD :: opcodetype where "OP_ADD \<equiv> 0x93"
abbreviation (input) OP_SUB :: opcodetype where "OP_SUB \<equiv> 0x94"
abbreviation (input) OP_MUL :: opcodetype where "OP_MUL \<equiv> 0x95"
abbreviation (input) OP_DIV :: opcodetype where "OP_DIV \<equiv> 0x96"
abbreviation (input) OP_MOD :: opcodetype where "OP_MOD \<equiv> 0x97"
abbreviation (input) OP_LSHIFT :: opcodetype where "OP_LSHIFT \<equiv> 0x98"
abbreviation (input) OP_RSHIFT :: opcodetype where "OP_RSHIFT \<equiv> 0x99"
abbreviation (input) OP_BOOLAND :: opcodetype where "OP_BOOLAND \<equiv> 0x9a"
abbreviation (input) OP_BOOLOR :: opcodetype where "OP_BOOLOR \<equiv> 0x9b"
abbreviation (input) OP_NUMEQUAL :: opcodetype where "OP_NUMEQUAL \<equiv> 0x9c"
abbreviation (input) OP_NUMEQUALVERIFY :: opcodetype where "OP_NUMEQUALVERIFY \<equiv> 0x9d"
abbreviation (input) OP_NUMNOTEQUAL :: opcodetype where "OP_NUMNOTEQUAL \<equiv> 0x9e"
abbreviation (input) OP_LESSTHAN :: opcodetype where "OP_LESSTHAN \<equiv> 0x9f"
abbreviation (input) OP_GREATERTHAN :: opcodetype where "OP_GREATERTHAN \<equiv> 0xa0"
abbreviation (input) OP_LESSTHANOREQUAL :: opcodetype where "OP_LESSTHANOREQUAL \<equiv> 0xa1"
abbreviation (input) OP_GREATERTHANOREQUAL :: opcodetype where "OP_GREATERTHANOREQUAL \<equiv> 0xa2"
abbreviation (input) OP_MIN :: opcodetype where "OP_MIN \<equiv> 0xa3"
abbreviation (input) OP_MAX :: opcodetype where "OP_MAX \<equiv> 0xa4"
abbreviation (input) OP_WITHIN :: opcodetype where "OP_WITHIN \<equiv> 0xa5"
abbreviation (input) OP_RIPEMD160 :: opcodetype where "OP_RIPEMD160 \<equiv> 0xa6"
abbreviation (input) OP_SHA1 :: opcodetype where "OP_SHA1 \<equiv> 0xa7"
abbreviation (input) OP_SHA256 :: opcodetype where "OP_SHA256 \<equiv> 0xa8"
abbreviation (input) OP_HASH160 :: opcodetype where "OP_HASH160 \<equiv> 0xa9"
abbreviation (input) OP_HASH256 :: opcodetype where "OP_HASH256 \<equiv> 0xaa"
abbreviation (input) OP_CODESEPARATOR :: opcodetype where "OP_CODESEPARATOR \<equiv> 0xab"
abbreviation (input) OP_CHECKSIG :: opcodetype where "OP_CHECKSIG \<equiv> 0xac"
abbreviation (input) OP_CHECKSIGVERIFY :: opcodetype where "OP_CHECKSIGVERIFY \<equiv> 0xad"
abbreviation (input) OP_CHECKMULTISIG :: opcodetype where "OP_CHECKMULTISIG \<equiv> 0xae"
abbreviation (input) OP_CHECKMULTISIGVERIFY :: opcodetype where "OP_CHECKMULTISIGVERIFY \<equiv> 0xaf"
abbreviation (input) OP_NOP1 :: opcodetype where "OP_NOP1 \<equiv> 0xb0"
abbreviation (input) OP_NOP2 :: opcodetype where "OP_NOP2 \<equiv> 0xb1"
abbreviation (input) OP_NOP3 :: opcodetype where "OP_NOP3 \<equiv> 0xb2"
abbreviation (input) OP_NOP4 :: opcodetype where "OP_NOP4 \<equiv> 0xb3"
abbreviation (input) OP_NOP5 :: opcodetype where "OP_NOP5 \<equiv> 0xb4"
abbreviation (input) OP_NOP6 :: opcodetype where "OP_NOP6 \<equiv> 0xb5"
abbreviation (input) OP_NOP7 :: opcodetype where "OP_NOP7 \<equiv> 0xb6"
abbreviation (input) OP_NOP8 :: opcodetype where "OP_NOP8 \<equiv> 0xb7"
abbreviation (input) OP_NOP9 :: opcodetype where "OP_NOP9 \<equiv> 0xb8"
abbreviation (input) OP_NOP10 :: opcodetype where "OP_NOP10 \<equiv> 0xb9"
abbreviation (input) OP_SMALLINTEGER :: opcodetype where "OP_SMALLINTEGER \<equiv> 0xfa"
abbreviation (input) OP_PUBKEYS :: opcodetype where "OP_PUBKEYS \<equiv> 0xfb"
abbreviation (input) OP_PUBKEYHASH :: opcodetype where "OP_PUBKEYHASH \<equiv> 0xfd"
abbreviation (input) OP_PUBKEY :: opcodetype where "OP_PUBKEY \<equiv> 0xfe"
abbreviation (input) OP_INVALIDOPCODE :: opcodetype where "OP_INVALIDOPCODE \<equiv> 0xff"

subsection \<open>Writing scripts\<close>

type_synonym CScript = "byte list"

text \<open>\<open>operator<<\<close> on an opcode, on data and on numbers.\<close>

definition script_op :: "CScript \<Rightarrow> nat \<Rightarrow> cxx_exn + CScript" where
  "script_op s opcode =
     (if opcode > 0xff then Inl std_exception else Inr (s @ [word_of_nat opcode]))"

definition script_push :: "CScript \<Rightarrow> valtype \<Rightarrow> CScript" where
  "script_push s b =
     (if length b < OP_PUSHDATA1 then s @ [word_of_nat (length b)]
      else if length b \<le> 0xff then s @ [word_of_nat OP_PUSHDATA1, word_of_nat (length b)]
      else if length b \<le> 0xffff then
        s @ [word_of_nat OP_PUSHDATA2] @ WriteLE16 (word_of_nat (length b))
      else s @ [word_of_nat OP_PUSHDATA4] @ WriteLE32 (word_of_nat (length b))) @ b"

definition push_int64 :: "CScript \<Rightarrow> i64 \<Rightarrow> CScript" where
  "push_int64 s n =
     (if sint n = - 1 \<or> (sint n \<ge> 1 \<and> sint n \<le> 16)
      then s @ [word_of_int (sint n + (int OP_1 - 1))]
      else if sint n = 0 then s @ [word_of_nat OP_0]
      else script_push s (serialize_i64 n))"

definition script_push_num :: "'b openssl \<Rightarrow> CScript \<Rightarrow> 'b CScriptNum \<Rightarrow> CScript" where
  "script_push_num B s b = script_push s (num_getvch B b)"

definition DecodeOP_N :: "nat \<Rightarrow> cxx_exn + nat" where
  "DecodeOP_N opcode =
     (if opcode = OP_0 then Inr 0
      else if opcode \<ge> OP_1 \<and> opcode \<le> OP_16 then Inr (opcode - (OP_1 - 1))
      else Inl assert_failure)"

definition EncodeOP_N :: "int \<Rightarrow> cxx_exn + nat" where
  "EncodeOP_N n =
     (if n \<ge> 0 \<and> n \<le> 16 then Inr (if n = 0 then OP_0 else OP_1 + nat n - 1)
      else Inl assert_failure)"

subsection \<open>Reading scripts: \<open>GetOp2\<close>\<close>

text \<open>The size of the immediate operand and where it starts, \<open>pc\<close> being past the opcode.\<close>

definition immediate :: "CScript \<Rightarrow> nat \<Rightarrow> nat \<Rightarrow> (nat \<times> nat) option" where
  "immediate s pc opcode =
     (if opcode < OP_PUSHDATA1 then Some (opcode, pc)
      else if opcode = OP_PUSHDATA1 then
        (if length s - pc < 1 then None else Some (unat (s ! pc), pc + 1))
      else if opcode = OP_PUSHDATA2 then
        (if length s - pc < 2 then None else Some (unat (ReadLE16 (drop pc s)), pc + 2))
      else
        (if length s - pc < 4 then None else Some (unat (ReadLE32 (drop pc s)), pc + 4)))"

text \<open>\<open>None\<close> is the return value \<open>false\<close>; otherwise the new \<open>pc\<close>, the opcode and the
  operand.  The size test truncates the remaining length to 32 bits, as the source does.\<close>

definition GetOp2 :: "CScript \<Rightarrow> nat \<Rightarrow> (nat \<times> nat \<times> valtype) option" where
  "GetOp2 s pc =
     (if pc \<ge> length s then None
      else let opcode = unat (s ! pc); pc = pc + 1
        in if opcode \<le> OP_PUSHDATA4 then
             (case immediate s pc opcode of
                None \<Rightarrow> None
              | Some (nSize, pc) \<Rightarrow>
                  if (length s - pc) mod 2 ^ 32 < nSize then None
                  else Some (pc + nSize, opcode, take nSize (drop pc s)))
           else Some (pc, opcode, []))"

lemma GetOp2_pc:
  assumes "GetOp2 s pc = Some (pc', opcode, v)"
  shows "pc < pc'" "pc' \<le> length s" "pc < length s"
  using assms mod_less_eq_dividend [of "length s - q" "2 ^ 32" for q]
  by (auto simp: GetOp2_def immediate_def Let_def Suc_le_eq not_less
      split: if_splits option.splits)

function IsPushOnly_from :: "CScript \<Rightarrow> nat \<Rightarrow> bool" where
  "IsPushOnly_from s pc =
     (if pc < length s then
        (case GetOp2 s pc of
           None \<Rightarrow> False
         | Some (pc', opcode, _) \<Rightarrow> if opcode > OP_16 then False else IsPushOnly_from s pc')
      else True)"
  by pat_completeness auto
termination
  by (relation "measure (\<lambda>(s, pc). length s - pc)") (auto dest!: GetOp2_pc(1))

definition IsPushOnly :: "CScript \<Rightarrow> bool" where
  "IsPushOnly s = IsPushOnly_from s 0"

subsection \<open>\<open>FindAndDelete\<close>\<close>

function skip_matches :: "CScript \<Rightarrow> CScript \<Rightarrow> nat \<Rightarrow> nat \<Rightarrow> nat \<times> nat" where
  "skip_matches s b pc nFound =
     (if b \<noteq> [] \<and> length s - pc \<ge> length b \<and> take (length b) (drop pc s) = b
      then skip_matches s b (pc + length b) (nFound + 1)
      else (pc, nFound))"
  by pat_completeness auto
termination
  by (relation "measure (\<lambda>(s, b, pc, n). length s - pc)")
    (auto simp: length_greater_0_conv [symmetric] simp del: length_greater_0_conv)

declare skip_matches.simps [simp del]

lemma skip_matches_ge: "skip_matches s b pc n = (pc', n') \<Longrightarrow> pc \<le> pc'"
  by (induction s b pc n rule: skip_matches.induct)
    (subst (asm) (2) skip_matches.simps, auto split: if_splits)

lemma GetOp2_decreases:
  "GetOp2 s pc = Some (pc', r) \<Longrightarrow> pc0 \<le> pc \<Longrightarrow> length s - pc' < length s - pc0"
  using GetOp2_pc [of s pc pc' "fst r" "snd r"] by auto

function delete_loop ::
  "CScript \<Rightarrow> CScript \<Rightarrow> nat \<Rightarrow> nat \<Rightarrow> CScript \<Rightarrow> nat \<Rightarrow> CScript \<times> nat \<times> nat" where
  "delete_loop s b pc pc2 result nFound =
     (let result = result @ take (pc - pc2) (drop pc2 s);
          (pc, nFound) = skip_matches s b pc nFound;
          pc2 = pc
      in case GetOp2 s pc of
           None \<Rightarrow> (result, pc2, nFound)
         | Some (pc, _) \<Rightarrow> delete_loop s b pc pc2 result nFound)"
  by pat_completeness auto
termination
  by (relation "measure (\<lambda>(s, b, pc, _). length s - pc)")
    (auto intro: GetOp2_decreases dest: skip_matches_ge [OF sym])

declare delete_loop.simps [simp del]

text \<open>The script afterwards and the number of occurrences found.\<close>

definition FindAndDelete :: "CScript \<Rightarrow> CScript \<Rightarrow> CScript \<times> nat" where
  "FindAndDelete s b =
     (if b = [] then (s, 0)
      else let (result, pc2, nFound) = delete_loop s b 0 0 [] 0
        in if nFound > 0 then (result @ drop pc2 s, nFound) else (s, nFound))"

subsection \<open>Script templates and the state part\<close>

definition IsP2SH :: "CScript \<Rightarrow> bool" where
  "IsP2SH script \<longleftrightarrow> length script = 23 \<and> script ! 0 = word_of_nat OP_HASH160 \<and>
     script ! 1 = 0x14 \<and> script ! 22 = word_of_nat OP_EQUAL"

definition IsDustReturnScript :: "CScript \<Rightarrow> bool" where
  "IsDustReturnScript script \<longleftrightarrow> script = [0x00, 0x6a, 0x04, 0x64, 0x75, 0x73, 0x74]"

definition IsUnspendable :: "CScript \<Rightarrow> bool" where
  "IsUnspendable s \<longleftrightarrow> length s > 1 \<and> s ! 0 = word_of_nat OP_FALSE \<and> s ! 1 = word_of_nat OP_RETURN"

definition IsKnownOpReturn :: "CScript \<Rightarrow> bool" where
  "IsKnownOpReturn s \<longleftrightarrow>
     (length s > 0 \<and> s ! 0 = word_of_nat OP_RETURN) \<or>
     (length s > 1 \<and> s ! 0 = word_of_nat OP_FALSE \<and> s ! 1 = word_of_nat OP_RETURN)"

text \<open>The iterator passed in is the end of the script; the result is where the state starts.\<close>

definition GetStateIterator :: "CScript \<Rightarrow> nat option" where
  "GetStateIterator s =
     (let scriptLen = length s
      in if scriptLen < 1 + 0 + 4 + 1 then None
         else let pc = scriptLen - 5; stateLen = unat (ReadLE32 (drop pc s))
           in if scriptLen - 1 - 4 - 1 < stateLen then None
              else let pc = pc - stateLen
                in if s ! (pc - 1) \<noteq> word_of_nat OP_RETURN then None else Some pc)"

subsection \<open>Instructions and their iterator\<close>

text \<open>Opcode, offset to the operand, length of the operand.\<close>

definition decode_instruction :: "byte list \<Rightarrow> nat \<times> nat \<times> nat" where
  "decode_instruction s =
     (if s = [] then (OP_INVALIDOPCODE, 0, 0)
      else let opcode = unat (hd s)
        in if opcode > OP_PUSHDATA4 \<or> opcode = 0 then (opcode, 0, 0)
           else let s = tl s
             in if s = [] then (OP_INVALIDOPCODE, 0, 0)
                else if opcode < OP_PUSHDATA1 then
                  (if opcode \<le> length s then (opcode, 0, opcode) else (OP_INVALIDOPCODE, 0, 0))
                else if opcode = OP_PUSHDATA1 then
                  (if unat (s ! 0) > length s - 1 then (OP_INVALIDOPCODE, 0, 0)
                   else (opcode, 1, unat (s ! 0)))
                else if opcode = OP_PUSHDATA2 then
                  (if length s < 2 then (OP_INVALIDOPCODE, 0, 0)
                   else let operand_len = unat (ReadLE16 s)
                     in if operand_len > length s - 2 then (OP_INVALIDOPCODE, 0, 0)
                        else (opcode, 2, operand_len))
                else
                  (if length s < 4 then (OP_INVALIDOPCODE, 0, 0)
                   else let operand_len = unat (ReadLE32 s)
                     in if operand_len > length s - 4 then (OP_INVALIDOPCODE, 0, 0)
                        else (opcode, 4, operand_len)))"

record instruction =
  inst_opcode :: nat
  inst_offset :: nat
  inst_operand :: valtype

definition next_instruction :: "byte list \<Rightarrow> instruction" where
  "next_instruction s =
     (let (opcode, offset, len) = decode_instruction s
      in \<lparr>inst_opcode = opcode, inst_offset = offset,
          inst_operand = take len (drop (1 + offset) s)\<rparr>)"

text \<open>An iterator is the rest of the script (\<open>span_\<close>); its instruction is
  \<open>next_instruction\<close> of it.\<close>

definition iterator_next :: "byte list \<Rightarrow> byte list" where
  "iterator_next span =
     (let i = next_instruction span
      in if inst_opcode i = OP_INVALIDOPCODE then []
         else drop (1 + inst_offset i + length (inst_operand i)) span)"

lemma iterator_next_shorter [simp]: "span \<noteq> [] \<Longrightarrow> length (iterator_next span) < length span"
  by (auto simp: iterator_next_def Let_def length_greater_0_conv [symmetric]
      simp del: length_greater_0_conv)

function instructions :: "byte list \<Rightarrow> instruction list" where
  "instructions span =
     (if span = [] then [] else next_instruction span # instructions (iterator_next span))"
  by pat_completeness auto
termination by (relation "measure length") simp_all

declare instructions.simps [simp del]

definition CountOp :: "byte list \<Rightarrow> nat \<Rightarrow> nat" where
  "CountOp s opcode = length (filter (\<lambda>i. inst_opcode i = opcode) (instructions s))"

subsection \<open>Signature operation count\<close>

text \<open>The loop of \<open>GetSigOpCount\<close>: the rest of the script, the last instruction, the count so
  far.  \<open>Inl\<close> is an exception; the result is \<open>sigOpCountError\<close> and the returned count.\<close>

function sigops_loop ::
  "'b openssl \<Rightarrow> byte list \<Rightarrow> instruction \<Rightarrow> u64 \<Rightarrow> cxx_exn + bool \<times> u64" where
  "sigops_loop B span last_instruction n =
     (if span = [] then Inr (False, n)
      else let it = next_instruction span; lastOpcode = inst_opcode last_instruction;
               opcode = inst_opcode it;
               continue = (\<lambda>n. sigops_loop B (iterator_next span) it n)
        in if opcode = OP_INVALIDOPCODE then Inr (False, n)
           else if opcode = OP_CHECKSIG \<or> opcode = OP_CHECKSIGVERIFY then continue (n + 1)
           else if opcode = OP_CHECKMULTISIG \<or> opcode = OP_CHECKMULTISIGVERIFY then
             (if lastOpcode \<ge> OP_1 \<and> lastOpcode \<le> OP_16 then
                bindE (DecodeOP_N lastOpcode) (\<lambda>k. continue (n + word_of_nat k))
              else if lastOpcode = OP_0 then continue n
              else if length (inst_operand last_instruction) > MAXIMUM_ELEMENT_SIZE
              then Inr (True, 0)
              else if \<not> IsMinimallyEncoded (inst_operand last_instruction) MAXIMUM_ELEMENT_SIZE
              then Inr (True, 0)
              else
                bindE (num_of_bytes B (inst_operand last_instruction) True MAXIMUM_ELEMENT_SIZE False)
                  (\<lambda>v. bindE (num_getint B v) (\<lambda>numSigs.
                    if numSigs < 0 then Inr (True, 0) else continue (n + word_of_int numSigs))))
           else continue n)"
  by pat_completeness auto
termination
  by (relation "measure (\<lambda>(B, span, _). length span)") simp_all

declare sigops_loop.simps [simp del]

definition GetSigOpCount :: "'b openssl \<Rightarrow> CScript \<Rightarrow> cxx_exn + bool \<times> u64" where
  "GetSigOpCount B s =
     sigops_loop B s \<lparr>inst_opcode = OP_INVALIDOPCODE, inst_offset = 0, inst_operand = []\<rparr> 0"

lemma drop_length_append [simp]: "drop (length xs) (xs @ ys) = ys" "drop (Suc (length xs)) (xs @ y # ys) = ys"
  by simp_all

subsection \<open>Pushes are read back\<close>

lemma GetOp2_simps:
  assumes "op \<le> OP_PUSHDATA4"
    and "immediate (s @ word_of_nat op # r) (Suc (length s)) op = Some (n, k)"
    and "k \<le> length s + Suc (length r)" "n \<le> length s + Suc (length r) - k" "length r < 2 ^ 32"
      "length s < k"
  shows "GetOp2 (s @ word_of_nat op # r) (length s) =
    Some (k + n, op, take n (drop k (s @ word_of_nat op # r)))"
proof -
  have "unat (word_of_nat op :: byte) = op" using assms(1) by (simp add: codec_simps)
  moreover have "(length s + Suc (length r) - k) mod 2 ^ 32 = length s + Suc (length r) - k"
    using assms by (intro mod_less) simp
  ultimately show ?thesis
    using assms by (simp add: GetOp2_def nth_append Let_def)
qed

text \<open>C21. Data written by \<open>operator<<\<close> is read back by \<open>GetOp\<close>: for every byte string up to
  the 32-bit size limit, at its place in the script, whatever follows.\<close>

theorem GetOp_push_roundtrip:
  assumes "length b + length post < 2 ^ 32 - 5"
  shows "\<exists>opcode \<le> OP_PUSHDATA4.
    GetOp2 (script_push s b @ post) (length s) = Some (length (script_push s b), opcode, b)"
proof -
  consider (1) "length b < 76" | (2) "76 \<le> length b" "length b \<le> 255"
    | (3) "255 < length b" "length b \<le> 65535" | (4) "65535 < length b" by linarith
  then show ?thesis
  proof cases
    case 1
    with assms show ?thesis
      using GetOp2_simps [of "length b" s "b @ post" "length b" "Suc (length s)"]
      by (auto simp: script_push_def immediate_def)
  next
    case 2
    with assms show ?thesis
      using GetOp2_simps [of OP_PUSHDATA1 s "word_of_nat (length b) # b @ post" "length b" "length s + 2"]
      by (auto simp: script_push_def immediate_def nth_append codec_simps)
  next
    case 3
    with assms show ?thesis
      using GetOp2_simps [of OP_PUSHDATA2 s "WriteLE16 (word_of_nat (length b)) @ b @ post"
          "length b" "length s + 3"]
      by (auto simp: script_push_def immediate_def nth_append codec_simps)
  next
    case 4
    with assms show ?thesis
      using GetOp2_simps [of OP_PUSHDATA4 s "WriteLE32 (word_of_nat (length b)) @ b @ post"
          "length b" "length s + 5"]
      by (auto simp: script_push_def immediate_def nth_append codec_simps)
  qed
qed

theorem GetOp_push_roundtrip_witness:
  "length ([7, 8] :: byte list) + length ([0x76] :: byte list) < 2 ^ 32 - 5 \<and>
   GetOp2 (script_push [0x51] [7, 8] @ [0x76]) 1 = Some (4, 2, [7, 8])"
  using GetOp_push_roundtrip [of "[7, 8]" "[0x76]" "[0x51]"]
  by (auto simp: script_push_def GetOp2_def immediate_def)

lemma unat_byte_eq: "n < 256 \<Longrightarrow> unat b = n \<longleftrightarrow> b = (word_of_nat n :: byte)"
  by (auto simp: word_unat_eq_iff codec_simps)

subsection \<open>The two decoders agree\<close>

lemma decode_drop:
  assumes "pc < length s" "length s < 2 ^ 32"
  shows "GetOp2 s pc =
    (let i = next_instruction (drop pc s)
     in if inst_opcode i = OP_INVALIDOPCODE \<and> s ! pc \<noteq> 0xff then None
        else Some (pc + 1 + inst_offset i + length (inst_operand i), inst_opcode i, inst_operand i))"
proof -
  define b r where "b = unat (s ! pc)" and "r = drop (Suc pc) s"
  have d: "drop pc s = s ! pc # r" using assms by (simp add: r_def Cons_nth_drop_Suc)
  have l: "length s = Suc pc + length r" using assms by (simp add: r_def)
  have b: "b = 255 \<longleftrightarrow> s ! pc = 0xff" "b < 256"
    using unat_byte_eq [of 255 "s ! pc"] by (auto simp: b_def)
  have m: "(length s - k) mod 2 ^ 32 = length s - k" for k using assms by (intro mod_less) simp
  have x: "drop (Suc pc) s = r" "drop (Suc (Suc pc)) s = drop (Suc 0) r"
    "drop (Suc (Suc (Suc pc))) s = drop 2 r" "drop (5 + pc) s = drop 4 r"
    by (simp_all add: r_def eval_nat_numeral)
  have y: "s ! Suc pc = r ! 0" if "r \<noteq> []" using that by (simp add: r_def)
  consider "b = 0" | "0 < b" "b < 76" | "b = 76" | "b = 77" | "b = 78" | "78 < b" by linarith
  then show ?thesis
    unfolding GetOp2_def immediate_def next_instruction_def decode_instruction_def d Let_def
    by cases (use assms l b m x y in \<open>auto simp: b_def [symmetric] add.commute\<close>)
qed

text \<open>The instructions of a script in the order a \<open>GetOp\<close> loop visits them.\<close>

function script_ops :: "CScript \<Rightarrow> nat \<Rightarrow> (nat \<times> valtype) list" where
  "script_ops s pc =
     (case GetOp2 s pc of None \<Rightarrow> [] | Some (pc', opcode, v) \<Rightarrow> (opcode, v) # script_ops s pc')"
  by pat_completeness auto
termination
  by (relation "measure (\<lambda>(s, pc). length s - pc)") (auto intro: GetOp2_decreases)

declare script_ops.simps [simp del]

lemma iterator_next_drop:
  assumes "GetOp2 s pc = Some (pc', opcode, v)" "length s < 2 ^ 32" "opcode \<noteq> OP_INVALIDOPCODE"
  shows "iterator_next (drop pc s) = drop pc' s"
proof -
  have "pc < length s" using assms GetOp2_pc by blast
  with assms show ?thesis
    by (auto simp: decode_drop iterator_next_def Let_def add_ac split: if_splits)
qed

text \<open>Whether a \<open>GetOp\<close> loop reads the script to its end and meets no invalid opcode.\<close>

function valid_to_end :: "CScript \<Rightarrow> nat \<Rightarrow> bool" where
  "valid_to_end s pc =
     (pc \<ge> length s \<or> (case GetOp2 s pc of
        None \<Rightarrow> False
      | Some (pc', opcode, _) \<Rightarrow> opcode \<noteq> OP_INVALIDOPCODE \<and> valid_to_end s pc'))"
  by pat_completeness auto
termination
  by (relation "measure (\<lambda>(s, pc). length s - pc)") (auto intro: GetOp2_decreases)

declare valid_to_end.simps [simp del]

lemma invalid_instruction:
  assumes "inst_opcode (next_instruction bs) = OP_INVALIDOPCODE"
  shows "inst_operand (next_instruction bs) = []" "instructions (iterator_next bs) = []"
proof -
  show "instructions (iterator_next bs) = []"
    using assms by (simp add: iterator_next_def Let_def instructions.simps)
  have "unat (bs ! 0) < 256" using unsigned_less [of "bs ! 0"] by simp
  then show "inst_operand (next_instruction bs) = []"
    using assms by (auto simp: next_instruction_def decode_instruction_def Let_def split: if_splits prod.splits)
qed

text \<open>C22. The two decoders of the code base agree up to the first invalid opcode and no further: on a
  script shorter than \<open>2^32\<close> bytes the instruction iterator visits the opcodes and operands of a
  \<open>GetOp\<close> loop up to the first byte \<open>0xff\<close> in opcode position or the first push that runs out of the
  script; it then gives one instruction \<open>OP_INVALIDOPCODE\<close> and ends there, while a \<open>GetOp\<close> loop
  goes on after \<open>0xff\<close> and stops at the broken push.\<close>

theorem decoders_agree:
  assumes "length s < 2 ^ 32"
  shows "map (\<lambda>i. (inst_opcode i, inst_operand i)) (instructions (drop pc s)) =
    takeWhile (\<lambda>(opcode, _). opcode \<noteq> OP_INVALIDOPCODE) (script_ops s pc) @
    (if valid_to_end s pc then [] else [(OP_INVALIDOPCODE, [])])"
  using assms
proof (induction s pc rule: script_ops.induct)
  case (1 s pc)
  show ?case
  proof (cases "pc < length s")
    case True
    note dec = decode_drop [OF True 1(2)]
    let ?i = "next_instruction (drop pc s)"
    have i: "instructions (drop pc s) = ?i # instructions (iterator_next (drop pc s))"
      using True by (simp add: instructions.simps)
    show ?thesis
    proof (cases "inst_opcode ?i = OP_INVALIDOPCODE")
      case inv: True
      then show ?thesis
        using dec i True invalid_instruction [OF inv]
        by (auto simp: script_ops.simps [of s pc] valid_to_end.simps [of s pc] Let_def split: if_splits)
    next
      case False
      then obtain pc' where r: "GetOp2 s pc = Some (pc', inst_opcode ?i, inst_operand ?i)"
        using dec by (auto simp: Let_def)
      have "iterator_next (drop pc s) = drop pc' s"
        using r 1(2) False by (intro iterator_next_drop) auto
      then show ?thesis
        using 1(1) [OF r] 1(2) False i r True
        by (simp add: script_ops.simps [of s pc] valid_to_end.simps [of s pc])
    qed
  next
    case False
    then show ?thesis by (simp add: instructions.simps script_ops.simps valid_to_end.simps GetOp2_def)
  qed
qed

theorem decoders_agree_witness:
  "map (\<lambda>i. (inst_opcode i, inst_operand i)) (instructions [0x01, 0x07, 0xac, 0xff, 0x51]) =
     [(1, [7]), (OP_CHECKSIG, []), (OP_INVALIDOPCODE, [])] \<and>
   script_ops [0x01, 0x07, 0xac, 0xff, 0x51] 0 =
     [(1, [7]), (OP_CHECKSIG, []), (OP_INVALIDOPCODE, []), (OP_1, [])]"
proof -
  let ?s = "[0x01, 0x07, 0xac, 0xff, 0x51] :: byte list"
  have ops: "script_ops ?s 0 = [(1, [7]), (OP_CHECKSIG, []), (OP_INVALIDOPCODE, []), (OP_1, [])]"
    by (simp add: script_ops.simps GetOp2_def immediate_def)
  have "\<not> valid_to_end ?s 0"
    by (simp add: valid_to_end.simps GetOp2_def immediate_def)
  then show ?thesis using decoders_agree [of ?s 0] ops by simp
qed

subsection \<open>\<open>FindAndDelete\<close> removes whole occurrences\<close>

lemma skip_matches_length:
  "skip_matches s b pc n = (pc', n') \<Longrightarrow> pc \<le> length s \<Longrightarrow>
     pc' \<le> length s \<and> pc' + n * length b = pc + n' * length b"
proof (induction s b pc n rule: skip_matches.induct)
  case (1 s b pc n)
  show ?case
  proof (cases "b \<noteq> [] \<and> length s - pc \<ge> length b \<and> take (length b) (drop pc s) = b")
    case True
    with 1 show ?thesis
      by (subst (asm) (2) skip_matches.simps) auto
  next
    case False
    with 1 show ?thesis by (subst (asm) skip_matches.simps) auto
  qed
qed

lemma delete_loop_length:
  "delete_loop s b pc pc2 res n = (res', pc', n') \<Longrightarrow> pc2 \<le> pc \<Longrightarrow> pc \<le> length s \<Longrightarrow>
     length res + n * length b = pc2 \<Longrightarrow>
     pc' \<le> length s \<and> length res' + n' * length b = pc'"
proof (induction s b pc pc2 res n rule: delete_loop.induct)
  case (1 s b pc pc2 res n)
  obtain q k where q: "skip_matches s b pc n = (q, k)" by (cases "skip_matches s b pc n")
  note l = skip_matches_length [OF q 1(4)]
  let ?res = "res @ take (pc - pc2) (drop pc2 s)"
  have res: "length ?res + k * length b = q"
    using l 1(3-5) by simp linarith
  show ?case
  proof (cases "GetOp2 s q")
    case None
    with 1(2) q l res show ?thesis by (subst (asm) delete_loop.simps) auto
  next
    case (Some r)
    then obtain q' r' where r: "GetOp2 s q = Some (q', r')" by (cases r) auto
    have "q \<le> q'" "q' \<le> length s" using r GetOp2_pc [of s q q' "fst r'" "snd r'"] by auto
    moreover have "delete_loop s b q' q ?res k = (res', pc', n')"
      using 1(2) q r by (subst (asm) delete_loop.simps) simp
    ultimately show ?thesis using 1(1) [OF refl refl q [symmetric] refl r refl] res by auto
  qed
qed

text \<open>\<open>FindAndDelete\<close> removes exactly the occurrences it counts: the result is shorter by
  the count times the length of the pattern, and a script without an occurrence is unchanged.\<close>

theorem FindAndDelete_length:
  "length (fst (FindAndDelete s b)) + snd (FindAndDelete s b) * length b = length s \<and>
   (snd (FindAndDelete s b) = 0 \<longleftrightarrow> fst (FindAndDelete s b) = s \<or> b = [])"
proof -
  obtain res pc n where d: "delete_loop s b 0 0 [] 0 = (res, pc, n)"
    by (cases "delete_loop s b 0 0 [] 0")
  then have l: "pc \<le> length s" "length res + n * length b = pc"
    using delete_loop_length [OF d] by auto
  then have "length (res @ drop pc s) + n * length b = length s" by simp
  moreover from this have "res @ drop pc s \<noteq> s" if "0 < n" "b \<noteq> []"
    using that by (metis add_cancel_right_right length_0_conv mult_is_0 not_gr_zero)
  ultimately show ?thesis by (auto simp: FindAndDelete_def d)
qed

subsection \<open>Counting signature operations\<close>

lemma num_of_bytes_minimal_64:
  assumes "length v \<le> MAXIMUM_ELEMENT_SIZE" "IsMinimallyEncoded v MAXIMUM_ELEMENT_SIZE"
  shows "num_of_bytes B v True MAXIMUM_ELEMENT_SIZE False = Inr (Num64 (word_of_int (sm_val v)))"
  using assms by (auto simp: num_of_bytes_def deserialize_i64_short IsMinimallyEncoded_iff)

lemma sigops_loop_total: "\<exists>r. sigops_loop B span last_instruction n = Inr r"
proof (induction B span last_instruction n rule: sigops_loop.induct)
  case (1 B span li n)
  show ?case
  proof (cases "span = []")
    case False
    note IH = 1 [OF False refl refl refl]
    show ?thesis
      unfolding sigops_loop.simps [of B span li n] Let_def
      using False IH by (auto simp: DecodeOP_N_def num_of_bytes_minimal_64 num_getint_def)
  qed (auto simp: sigops_loop.simps)
qed

text \<open>Counting signature operations never throws: the checks before the script number
  constructor cover every exception it can raise.\<close>

theorem GetSigOpCount_total: "\<exists>e n. GetSigOpCount B s = Inr (e, n)"
  using sigops_loop_total by (fastforce simp: GetSigOpCount_def)

subsection \<open>The state part of a script\<close>

text \<open>\<open>GetStateIterator\<close> inverts the layout it documents (code, \<open>OP_RETURN\<close>, state,
  4-byte length, version byte): it finds the state of every such script, and accepts no
  other script.\<close>

theorem GetStateIterator_layout:
  "GetStateIterator s = Some k \<longleftrightarrow>
     (\<exists>code state version. length state < 2 ^ 32 \<and> k = Suc (length code) \<and>
        s = code @ [word_of_nat OP_RETURN] @ state @ WriteLE32 (word_of_nat (length state)) @ [version])"
    (is "?l \<longleftrightarrow> ?r")
proof
  assume ?r
  then obtain code state version where s: "length state < 2 ^ 32" "k = Suc (length code)"
    "s = code @ [word_of_nat OP_RETURN] @ state @ WriteLE32 (word_of_nat (length state)) @ [version]"
    by auto
  let ?n = "length s - 5"
  have "?n = length (code @ [word_of_nat OP_RETURN] @ state)" using s by simp
  then have "drop ?n s = WriteLE32 (word_of_nat (length state)) @ [version]"
    using s by simp
  then have "unat (ReadLE32 (drop ?n s)) = length state"
    using s(1) by (simp add: codec_simps)
  then show ?l using s by (simp add: GetStateIterator_def Let_def nth_append)
next
  assume ?l
  let ?n = "length s - 5" let ?m = "unat (ReadLE32 (drop ?n s))"
  have a: "6 \<le> length s" "?m \<le> length s - 6" "k = ?n - ?m" "s ! (k - 1) = word_of_nat OP_RETURN"
    using \<open>?l\<close> by (auto simp: GetStateIterator_def Let_def split: if_splits)
  define code state where "code = take (k - 1) s" and "state = take ?m (drop k s)"
  have k: "0 < k" "k \<le> length s" "k + ?m = ?n" using a by auto
  have l: "length state = ?m" "length code = k - 1" using k a by (auto simp: code_def state_def)
  have "length (take 4 (drop ?n s)) = 4" using a by simp
  then have w: "WriteLE32 (ReadLE32 (drop ?n s)) = take 4 (drop ?n s)"
    using write_read(1) [of "take 4 (drop ?n s)" "drop 4 (drop ?n s)"]
    by (simp only: append_take_drop_id)
  have d: "drop 4 (drop ?n s) = [last s]"
    using a by (cases s rule: rev_cases) auto
  have "s = code @ drop (k - 1) s" by (simp add: code_def)
  also have "drop (k - 1) s = s ! (k - 1) # drop k s"
    using Cons_nth_drop_Suc [of "k - 1" s] k(1,2) by simp
  also have "drop k s = state @ drop ?n s"
    using k append_take_drop_id [of ?m "drop k s"] by (simp add: state_def add.commute)
  also have "drop ?n s = take 4 (drop ?n s) @ [last s]"
    using append_take_drop_id [of 4 "drop ?n s"] d by simp
  finally have "s = code @ word_of_nat OP_RETURN # state @ WriteLE32 (ReadLE32 (drop ?n s)) @ [last s]"
    using a(4) w by simp
  moreover have "word_of_nat (length state) = ReadLE32 (drop ?n s)" using l by simp
  ultimately have "s = code @ [word_of_nat OP_RETURN] @ state @
      WriteLE32 (word_of_nat (length state)) @ [last s]"
    by (metis append_Cons append_Nil)
  moreover have "length state < 2 ^ 32" "k = Suc (length code)" using l k(1) by simp_all
  ultimately show ?r by blast
qed

end
