(* ===== verification/Script_Checks.thy ===== *)
theory Script_Checks
  imports Script
begin

text \<open>
  The helper functions of \<open>src/src/script/interpreter.cpp\<close> before \<open>EvalScript\<close>: bit shifts of
  byte vectors, \<open>CastToBool\<close>, the encoding checks on signatures, public keys and pushes,
  with \<open>script_error.h\<close>, \<open>script_flags.h\<close> and \<open>sighashtype.h\<close>.  A function that returns
  \<open>bool\<close> and sets \<open>serror\<close> is a result whose \<open>Inl\<close> is the error that was set.
\<close>

subsection \<open>Errors and flags\<close>

datatype ScriptError =
  SCRIPT_ERR_OK | SCRIPT_ERR_UNKNOWN_ERROR | SCRIPT_ERR_EVAL_FALSE | SCRIPT_ERR_OP_RETURN
| SCRIPT_ERR_SCRIPT_SIZE | SCRIPT_ERR_PUSH_SIZE | SCRIPT_ERR_OP_COUNT | SCRIPT_ERR_STACK_SIZE
| SCRIPT_ERR_SIG_COUNT | SCRIPT_ERR_PUBKEY_COUNT
| SCRIPT_ERR_INVALID_OPERAND_SIZE | SCRIPT_ERR_INVALID_NUMBER_RANGE
| SCRIPT_ERR_IMPOSSIBLE_ENCODING | SCRIPT_ERR_INVALID_SPLIT_RANGE
| SCRIPT_ERR_SCRIPTNUM_OVERFLOW | SCRIPT_ERR_SCRIPTNUM_MINENCODE
| SCRIPT_ERR_VERIFY | SCRIPT_ERR_EQUALVERIFY | SCRIPT_ERR_CHECKMULTISIGVERIFY
| SCRIPT_ERR_CHECKSIGVERIFY | SCRIPT_ERR_NUMEQUALVERIFY
| SCRIPT_ERR_BAD_OPCODE | SCRIPT_ERR_DISABLED_OPCODE | SCRIPT_ERR_INVALID_STACK_OPERATION
| SCRIPT_ERR_INVALID_ALTSTACK_OPERATION | SCRIPT_ERR_UNBALANCED_CONDITIONAL
| SCRIPT_ERR_DIV_BY_ZERO | SCRIPT_ERR_MOD_BY_ZERO
| SCRIPT_ERR_NEGATIVE_LOCKTIME | SCRIPT_ERR_UNSATISFIED_LOCKTIME
| SCRIPT_ERR_SIG_HASHTYPE | SCRIPT_ERR_SIG_DER | SCRIPT_ERR_MINIMALDATA
| SCRIPT_ERR_SIG_PUSHONLY | SCRIPT_ERR_SIG_HIGH_S | SCRIPT_ERR_SIG_NULLDUMMY
| SCRIPT_ERR_PUBKEYTYPE | SCRIPT_ERR_CLEANSTACK | SCRIPT_ERR_MINIMALIF
| SCRIPT_ERR_SIG_NULLFAIL | SCRIPT_ERR_DISCOURAGE_UPGRADABLE_NOPS
| SCRIPT_ERR_NONCOMPRESSED_PUBKEY | SCRIPT_ERR_BIG_INT

abbreviation (input) SCRIPT_VERIFY_STRICTENC :: u32 where "SCRIPT_VERIFY_STRICTENC \<equiv> 0x2"
abbreviation (input) SCRIPT_VERIFY_DERSIG :: u32 where "SCRIPT_VERIFY_DERSIG \<equiv> 0x4"
abbreviation (input) SCRIPT_VERIFY_LOW_S :: u32 where "SCRIPT_VERIFY_LOW_S \<equiv> 0x8"
abbreviation (input) SCRIPT_VERIFY_NULLDUMMY :: u32 where "SCRIPT_VERIFY_NULLDUMMY \<equiv> 0x10"
abbreviation (input) SCRIPT_VERIFY_SIGPUSHONLY :: u32 where "SCRIPT_VERIFY_SIGPUSHONLY \<equiv> 0x20"
abbreviation (input) SCRIPT_VERIFY_MINIMALDATA :: u32 where "SCRIPT_VERIFY_MINIMALDATA \<equiv> 0x40"
abbreviation (input) SCRIPT_VERIFY_DISCOURAGE_UPGRADABLE_NOPS :: u32 where
  "SCRIPT_VERIFY_DISCOURAGE_UPGRADABLE_NOPS \<equiv> 0x80"
abbreviation (input) SCRIPT_VERIFY_CLEANSTACK :: u32 where "SCRIPT_VERIFY_CLEANSTACK \<equiv> 0x100"
abbreviation (input) SCRIPT_VERIFY_MINIMALIF :: u32 where "SCRIPT_VERIFY_MINIMALIF \<equiv> 0x2000"
abbreviation (input) SCRIPT_VERIFY_NULLFAIL :: u32 where "SCRIPT_VERIFY_NULLFAIL \<equiv> 0x4000"
abbreviation (input) SCRIPT_VERIFY_COMPRESSED_PUBKEYTYPE :: u32 where
  "SCRIPT_VERIFY_COMPRESSED_PUBKEYTYPE \<equiv> 0x8000"

definition has_flag :: "u32 \<Rightarrow> u32 \<Rightarrow> bool" where
  "has_flag flags f \<longleftrightarrow> flags AND f \<noteq> 0"

subsection \<open>Signature hash types\<close>

type_synonym SigHashType = u32

abbreviation (input) SIGHASH_ALL :: u32 where "SIGHASH_ALL \<equiv> 1"
abbreviation (input) SIGHASH_NONE :: u32 where "SIGHASH_NONE \<equiv> 2"
abbreviation (input) SIGHASH_SINGLE :: u32 where "SIGHASH_SINGLE \<equiv> 3"
abbreviation (input) SIGHASH_ANYONECANPAY :: u32 where "SIGHASH_ANYONECANPAY \<equiv> 0x80"

definition withBaseType :: "SigHashType \<Rightarrow> u32 \<Rightarrow> SigHashType" where
  "withBaseType sigHash base = (sigHash AND NOT 0x1f) OR base"

definition withAnyoneCanPay :: "SigHashType \<Rightarrow> bool \<Rightarrow> SigHashType" where
  "withAnyoneCanPay sigHash anyoneCanPay =
     (sigHash AND NOT SIGHASH_ANYONECANPAY) OR (if anyoneCanPay then SIGHASH_ANYONECANPAY else 0)"

definition getBaseType :: "SigHashType \<Rightarrow> u32" where
  "getBaseType sigHash = sigHash AND 0x1f"

text \<open>The conversion to \<open>BaseSigHashType\<close> truncates to 8 bits.\<close>

definition isDefined :: "SigHashType \<Rightarrow> bool" where
  "isDefined sigHash \<longleftrightarrow>
     (let baseType = (ucast (sigHash AND NOT SIGHASH_ANYONECANPAY) :: byte)
      in baseType \<ge> 1 \<and> baseType \<le> 3)"

definition hasAnyoneCanPay :: "SigHashType \<Rightarrow> bool" where
  "hasAnyoneCanPay sigHash \<longleftrightarrow> sigHash AND SIGHASH_ANYONECANPAY \<noteq> 0"

subsection \<open>Shifts\<close>

definition make_rshift_mask :: "nat \<Rightarrow> byte" where
  "make_rshift_mask n = [0xFF, 0xFE, 0xFC, 0xF8, 0xF0, 0xE0, 0xC0, 0x80] ! n"

definition make_lshift_mask :: "nat \<Rightarrow> byte" where
  "make_lshift_mask n = [0xFF, 0x7F, 0x3F, 0x1F, 0x0F, 0x07, 0x03, 0x01] ! n"

definition rshift_step :: "valtype \<Rightarrow> nat \<Rightarrow> valtype \<Rightarrow> nat \<Rightarrow> valtype" where
  "rshift_step x n result i =
     (let bit_shift = n mod 8; byte_shift = n div 8;
          mask = make_rshift_mask bit_shift; overflow_mask = NOT mask;
          k = i + byte_shift;
          result = (if k < length x
                    then result[k := result ! k OR drop_bit bit_shift (x ! i AND mask)] else result)
      in if k + 1 < length x
         then result[k + 1 := result ! (k + 1) OR push_bit (8 - bit_shift) (x ! i AND overflow_mask)]
         else result)"

definition RShift :: "valtype \<Rightarrow> nat \<Rightarrow> valtype" where
  "RShift x n = foldl (rshift_step x n) (replicate (length x) 0) [0..<length x]"

definition lshift_step :: "valtype \<Rightarrow> nat \<Rightarrow> valtype \<Rightarrow> nat \<Rightarrow> valtype" where
  "lshift_step x n result i =
     (let bit_shift = n mod 8; byte_shift = n div 8;
          mask = make_lshift_mask bit_shift; overflow_mask = NOT mask
      in if byte_shift \<le> i then
           let k = i - byte_shift;
               result = result[k := result ! k OR push_bit bit_shift (x ! i AND mask)]
           in if k \<ge> 1
              then result[k - 1 := result ! (k - 1) OR drop_bit (8 - bit_shift) (x ! i AND overflow_mask)]
              else result
         else result)"

definition LShift :: "valtype \<Rightarrow> nat \<Rightarrow> valtype" where
  "LShift x n = foldl (lshift_step x n) (replicate (length x) 0) (rev [0..<length x])"

subsection \<open>Truth values\<close>

fun cast_loop :: "valtype \<Rightarrow> nat \<Rightarrow> nat list \<Rightarrow> bool" where
  "cast_loop vch n [] = False"
| "cast_loop vch n (i # is) =
     (if vch ! i \<noteq> 0 then (if i = n - 1 \<and> vch ! i = 0x80 then False else True)
      else cast_loop vch n is)"

definition CastToBool :: "valtype \<Rightarrow> bool" where
  "CastToBool vch = cast_loop vch (length vch) [0..<length vch]"

subsection \<open>Encoding checks\<close>

definition IsCompressedOrUncompressedPubKey :: "valtype \<Rightarrow> bool" where
  "IsCompressedOrUncompressedPubKey vchPubKey =
     (if length vchPubKey < 33 then False
      else if vchPubKey ! 0 = 0x04 then length vchPubKey = 65
      else if vchPubKey ! 0 = 0x02 \<or> vchPubKey ! 0 = 0x03 then length vchPubKey = 33
      else False)"

definition IsCompressedPubKey :: "valtype \<Rightarrow> bool" where
  "IsCompressedPubKey vchPubKey =
     (if length vchPubKey \<noteq> 33 then False
      else if vchPubKey ! 0 \<noteq> 0x02 \<and> vchPubKey ! 0 \<noteq> 0x03 then False
      else True)"

definition IsValidSignatureEncoding :: "valtype \<Rightarrow> bool" where
  "IsValidSignatureEncoding sig =
     (if length sig < 9 then False
      else if length sig > 73 then False
      else if sig ! 0 \<noteq> 0x30 then False
      else if unat (sig ! 1) \<noteq> length sig - 3 then False
      else let lenR = unat (sig ! 3)
        in if 5 + lenR \<ge> length sig then False
           else let lenS = unat (sig ! (5 + lenR))
             in if lenR + lenS + 7 \<noteq> length sig then False
                else if sig ! 2 \<noteq> 0x02 then False
                else if lenR = 0 then False
                else if sig ! 4 AND 0x80 \<noteq> 0 then False
                else if lenR > 1 \<and> sig ! 4 = 0 \<and> sig ! 5 AND 0x80 = 0 then False
                else if sig ! (lenR + 4) \<noteq> 0x02 then False
                else if lenS = 0 then False
                else if sig ! (lenR + 6) AND 0x80 \<noteq> 0 then False
                else if lenS > 1 \<and> sig ! (lenR + 6) = 0 \<and> sig ! (lenR + 7) AND 0x80 = 0 then False
                else True)"

text \<open>\<open>CPubKey::CheckLowS\<close> rests on the secp256k1 library and is a parameter.\<close>

definition IsLowDERSignature :: "(valtype \<Rightarrow> bool) \<Rightarrow> valtype \<Rightarrow> ScriptError + unit" where
  "IsLowDERSignature CheckLowS vchSig =
     (if \<not> IsValidSignatureEncoding vchSig then Inl SCRIPT_ERR_SIG_DER
      else if \<not> CheckLowS (take (length vchSig - 1) vchSig) then Inl SCRIPT_ERR_SIG_HIGH_S
      else Inr ())"

definition GetHashType :: "valtype \<Rightarrow> SigHashType" where
  "GetHashType vchSig = (if length vchSig = 0 then 0 else ucast (vchSig ! (length vchSig - 1)))"

definition CheckSignatureEncoding ::
  "(valtype \<Rightarrow> bool) \<Rightarrow> valtype \<Rightarrow> u32 \<Rightarrow> ScriptError + unit" where
  "CheckSignatureEncoding CheckLowS vchSig flags =
     (if length vchSig = 0 then Inr ()
      else if has_flag flags (SCRIPT_VERIFY_DERSIG OR SCRIPT_VERIFY_LOW_S OR SCRIPT_VERIFY_STRICTENC) \<and>
         \<not> IsValidSignatureEncoding vchSig then Inl SCRIPT_ERR_SIG_DER
      else bindE (if has_flag flags SCRIPT_VERIFY_LOW_S then IsLowDERSignature CheckLowS vchSig else Inr ())
        (\<lambda>_. if has_flag flags SCRIPT_VERIFY_STRICTENC \<and> \<not> isDefined (GetHashType vchSig)
             then Inl SCRIPT_ERR_SIG_HASHTYPE else Inr ()))"

definition CheckPubKeyEncoding :: "valtype \<Rightarrow> u32 \<Rightarrow> ScriptError + unit" where
  "CheckPubKeyEncoding vchPubKey flags =
     (if has_flag flags SCRIPT_VERIFY_STRICTENC \<and> \<not> IsCompressedOrUncompressedPubKey vchPubKey
      then Inl SCRIPT_ERR_PUBKEYTYPE
      else if has_flag flags SCRIPT_VERIFY_COMPRESSED_PUBKEYTYPE \<and> \<not> IsCompressedPubKey vchPubKey
      then Inl SCRIPT_ERR_NONCOMPRESSED_PUBKEY
      else Inr ())"

definition CheckMinimalPush :: "valtype \<Rightarrow> nat \<Rightarrow> bool" where
  "CheckMinimalPush data opcode =
     (if length data = 0 then opcode = OP_0
      else if length data = 1 \<and> data ! 0 \<ge> 1 \<and> data ! 0 \<le> 16 then opcode = OP_1 + (unat (data ! 0) - 1)
      else if length data = 1 \<and> data ! 0 = 0x81 then opcode = OP_1NEGATE
      else if length data \<le> 75 then opcode = length data
      else if length data \<le> 255 then opcode = OP_PUSHDATA1
      else if length data \<le> 65535 then opcode = OP_PUSHDATA2
      else True)"

definition IsOpcodeDisabled :: "nat \<Rightarrow> bool" where
  "IsOpcodeDisabled opcode \<longleftrightarrow> opcode = OP_2MUL \<or> opcode = OP_2DIV"

definition IsInvalidBranchingOpcode :: "nat \<Rightarrow> bool" where
  "IsInvalidBranchingOpcode opcode \<longleftrightarrow> opcode = OP_VERNOTIF \<or> opcode = OP_VERIF"

subsection \<open>Bits of byte vectors\<close>

lemma bit_le_nat:
  "bit (le_nat bs) i \<longleftrightarrow> i div 8 < length bs \<and> bit (bs ! (i div 8)) (i mod 8)"
proof (induction bs arbitrary: i)
  case (Cons b bs)
  have d: "unat b AND push_bit 8 (le_nat bs) = 0"
  proof (rule bit_eqI)
    fix n assume "possible_bit TYPE(nat) n"
    have "n < 8" if "bit (unat b) n"
      using that bit_imp_le_length [of b n] by (simp add: bit_simps)
    then show "bit (unat b AND push_bit 8 (le_nat bs)) n = bit (0 :: nat) n"
      by (auto simp: bit_simps)
  qed
  have "le_nat (b # bs) = unat b OR push_bit 8 (le_nat bs)"
    using disjunctive_add_eq_or [OF d] by (simp add: push_bit_eq_mult mult.commute)
  then have "bit (le_nat (b # bs)) i \<longleftrightarrow> bit b i \<or> 8 \<le> i \<and> bit (le_nat bs) (i - 8)"
    by (simp add: bit_simps)
  also have "\<dots> \<longleftrightarrow> i div 8 < length (b # bs) \<and> bit ((b # bs) ! (i div 8)) (i mod 8)"
  proof (cases "i < 8")
    case True
    then show ?thesis by simp
  next
    case False
    then have "i div 8 = Suc ((i - 8) div 8)" "i mod 8 = (i - 8) mod 8"
      by (simp_all add: le_div_geq le_mod_geq not_less)
    moreover have "\<not> bit b i" using False bit_imp_le_length [of b i] by auto
    ultimately show ?thesis using False Cons.IH [of "i - 8"] by simp
  qed
  finally show ?case .
qed simp

lemma less_8_cases:
  assumes "(b :: nat) < 8"
  obtains "b = 0" | "b = 1" | "b = 2" | "b = 3" | "b = 4" | "b = 5" | "b = 6" | "b = 7"
proof -
  have "b = 0 \<or> b = 1 \<or> b = 2 \<or> b = 3 \<or> b = 4 \<or> b = 5 \<or> b = 6 \<or> b = 7"
    using assms by auto
  then show ?thesis using that by blast
qed

lemma rshift_mask: "b < 8 \<Longrightarrow> make_rshift_mask b = NOT (mask b)"
  by (erule less_8_cases) (simp_all add: make_rshift_mask_def mask_eq_exp_minus_1)

lemma lshift_mask: "b < 8 \<Longrightarrow> make_lshift_mask b = mask (8 - b)"
  by (erule less_8_cases) (simp_all add: make_lshift_mask_def mask_eq_exp_minus_1)

lemma shift_masked:
  assumes "b < 8"
  shows "drop_bit b (y AND make_rshift_mask b) = drop_bit b y"
    and "push_bit (8 - b) (y AND NOT (make_rshift_mask b)) = push_bit (8 - b) y"
    and "push_bit b (y AND make_lshift_mask b) = push_bit b y"
    and "drop_bit (8 - b) (y AND NOT (make_lshift_mask b)) = drop_bit (8 - b) y"
proof -
  have y: "k < 8" if "bit y k" for k using that bit_imp_le_length [of y k] by simp
  show "drop_bit b (y AND make_rshift_mask b) = drop_bit b y"
    using assms y by (auto simp: rshift_mask bit_simps intro!: bit_eqI)
  show "push_bit (8 - b) (y AND NOT (make_rshift_mask b)) = push_bit (8 - b) y"
    using assms y by (auto simp: rshift_mask bit_simps intro!: bit_eqI)
  show "push_bit b (y AND make_lshift_mask b) = push_bit b y"
    using assms y by (auto simp: lshift_mask bit_simps intro!: bit_eqI)
  show "drop_bit (8 - b) (y AND NOT (make_lshift_mask b)) = drop_bit (8 - b) y"
    using assms y by (fastforce simp: lshift_mask bit_simps intro!: bit_eqI)
qed

lemma rshift_step_nth:
  assumes "length r = length x" "j < length x"
  shows "rshift_step x n r i ! j = r ! j OR
    (if j = i + n div 8 then drop_bit (n mod 8) (x ! i) else 0) OR
    (if j = i + n div 8 + 1 then push_bit (8 - n mod 8) (x ! i) else 0)"
proof -
  have m: "n mod 8 < 8" by simp
  show ?thesis
    using assms unfolding rshift_step_def Let_def shift_masked [OF m]
    by (auto simp: nth_list_update)
qed

lemma length_rshift_step [simp]: "length (rshift_step x n r i) = length r"
  by (simp add: rshift_step_def Let_def)

lemma length_rshift_loop [simp]: "length (foldl (rshift_step x n) r is) = length r"
  by (induction "is" arbitrary: r) simp_all

lemma rshift_loop:
  assumes "j < length x"
  shows "foldl (rshift_step x n) (replicate (length x) 0) [0..<t] ! j =
      (if n div 8 \<le> j \<and> j < t + n div 8 then drop_bit (n mod 8) (x ! (j - n div 8)) else 0) OR
      (if n div 8 < j \<and> j \<le> t + n div 8 then push_bit (8 - n mod 8) (x ! (j - n div 8 - 1)) else 0)"
proof (induction t)
  case 0
  show ?case using assms by auto
next
  case (Suc t)
  let ?v = "\<lambda>i. drop_bit (n mod 8) (x ! i)" and ?c = "\<lambda>i. push_bit (8 - n mod 8) (x ! i)"
  have "foldl (rshift_step x n) (replicate (length x) 0) [0..<Suc t] ! j =
      foldl (rshift_step x n) (replicate (length x) 0) [0..<t] ! j OR
      (if j = t + n div 8 then ?v t else 0) OR (if j = t + n div 8 + 1 then ?c t else 0)"
    using assms by (simp add: rshift_step_nth)
  also have "\<dots> = (if n div 8 \<le> j \<and> j < Suc t + n div 8 then ?v (j - n div 8) else 0) OR
      (if n div 8 < j \<and> j \<le> Suc t + n div 8 then ?c (j - n div 8 - 1) else 0)"
  proof -
    consider "j < t + n div 8" | "j = t + n div 8" | "j = t + n div 8 + 1" | "t + n div 8 + 1 < j" by linarith
    then show ?thesis unfolding Suc by cases (simp_all add: or.commute)
  qed
  finally show ?case .
qed

lemma lshift_step_nth:
  assumes "length r = length x" "j < length x" "i < length x"
  shows "lshift_step x n r i ! j = r ! j OR
    (if j + n div 8 = i then push_bit (n mod 8) (x ! i) else 0) OR
    (if j + n div 8 + 1 = i then drop_bit (8 - n mod 8) (x ! i) else 0)"
proof -
  have m: "n mod 8 < 8" by simp
  show ?thesis
    using assms unfolding lshift_step_def Let_def shift_masked [OF m]
    by (cases "j = 0") (auto simp: nth_list_update)
qed

lemma length_lshift_step [simp]: "length (lshift_step x n r i) = length r"
  by (simp add: lshift_step_def Let_def)

lemma length_lshift_loop [simp]: "length (foldl (lshift_step x n) r is) = length r"
  by (induction "is" arbitrary: r) simp_all

lemma lshift_loop:
  assumes "j < length x" "t \<le> length x"
  shows "foldl (lshift_step x n) (replicate (length x) 0) (rev [t..<length x]) ! j =
      (if t \<le> j + n div 8 \<and> j + n div 8 < length x then push_bit (n mod 8) (x ! (j + n div 8)) else 0) OR
      (if t \<le> j + n div 8 + 1 \<and> j + n div 8 + 1 < length x
       then drop_bit (8 - n mod 8) (x ! (j + n div 8 + 1)) else 0)"
  using assms(2)
proof (induction "length x - t" arbitrary: t)
  case 0
  then show ?case using assms by auto
next
  case (Suc d)
  let ?v = "\<lambda>i. push_bit (n mod 8) (x ! i)" and ?c = "\<lambda>i. drop_bit (8 - n mod 8) (x ! i)"
  have t: "t < length x" using Suc by simp
  have "rev [t..<length x] = rev [Suc t..<length x] @ [t]" using t by (simp add: upt_conv_Cons)
  then have "foldl (lshift_step x n) (replicate (length x) 0) (rev [t..<length x]) ! j =
      foldl (lshift_step x n) (replicate (length x) 0) (rev [Suc t..<length x]) ! j OR
      (if j + n div 8 = t then ?v t else 0) OR (if j + n div 8 + 1 = t then ?c t else 0)"
    using assms t by (simp add: lshift_step_nth)
  moreover have "d = length x - Suc t" using Suc.hyps(2) t by simp
  note Suc.hyps(1) [OF this Suc_leI [OF t]]
  ultimately have e: "foldl (lshift_step x n) (replicate (length x) 0) (rev [t..<length x]) ! j =
      ((if Suc t \<le> j + n div 8 \<and> j + n div 8 < length x then ?v (j + n div 8) else 0) OR
       (if Suc t \<le> j + n div 8 + 1 \<and> j + n div 8 + 1 < length x then ?c (j + n div 8 + 1) else 0)) OR
      (if j + n div 8 = t then ?v t else 0) OR (if j + n div 8 + 1 = t then ?c t else 0)"
    by simp
  consider "j + n div 8 + 1 < t" | "t = j + n div 8 + 1" | "t = j + n div 8" | "t < j + n div 8" by linarith
  then show ?case unfolding e using t by cases (simp_all add: or.commute)
qed

subsection \<open>Shifts are shifts of the big-endian number\<close>

lemma bit_be_nat:
  "bit (be_nat bs) i \<longleftrightarrow> i div 8 < length bs \<and> bit (bs ! (length bs - 1 - i div 8)) (i mod 8)"
  by (auto simp: be_nat_def bit_le_nat rev_nth)

lemma byte_bit_less: "bit (b :: byte) k \<Longrightarrow> k < 8"
  using bit_imp_le_length [of b k] by simp

lemma length_shifts [simp]: "length (RShift x n) = length x" "length (LShift x n) = length x"
  by (simp_all add: RShift_def LShift_def)

lemma add_div_mod_8:
  fixes m n :: nat
  shows "m mod 8 + n mod 8 < 8 \<Longrightarrow> (m + n) div 8 = m div 8 + n div 8 \<and> (m + n) mod 8 = m mod 8 + n mod 8"
    and "\<not> m mod 8 + n mod 8 < 8 \<Longrightarrow>
      (m + n) div 8 = Suc (m div 8 + n div 8) \<and> (m + n) mod 8 = m mod 8 + n mod 8 - 8"
proof -
  have s: "(m + n) mod 8 = (m mod 8 + n mod 8) mod 8"
    "(m + n) div 8 = m div 8 + n div 8 + (m mod 8 + n mod 8) div 8"
    by (rule mod_add_eq [symmetric], rule div_add1_eq)
  show "m mod 8 + n mod 8 < 8 \<Longrightarrow> (m + n) div 8 = m div 8 + n div 8 \<and> (m + n) mod 8 = m mod 8 + n mod 8"
    unfolding s by simp
  assume a: "\<not> m mod 8 + n mod 8 < 8"
  have "m mod 8 < 8" "n mod 8 < 8" by simp_all
  then have "m mod 8 + n mod 8 < 16" by linarith
  with a have "(m mod 8 + n mod 8) div 8 = 1" by (intro div_nat_eqI) auto
  moreover from a have "(m mod 8 + n mod 8) mod 8 = (m mod 8 + n mod 8 - 8) mod 8"
    by (simp add: le_mod_geq)
  ultimately show "(m + n) div 8 = Suc (m div 8 + n div 8) \<and> (m + n) mod 8 = m mod 8 + n mod 8 - 8"
    unfolding s using \<open>m mod 8 < 8\<close> \<open>n mod 8 < 8\<close> by simp
qed

lemma RShift_nth:
  assumes "j < length x"
  shows "RShift x n ! j =
      (if n div 8 \<le> j then drop_bit (n mod 8) (x ! (j - n div 8)) else 0) OR
      (if n div 8 < j then push_bit (8 - n mod 8) (x ! (j - n div 8 - 1)) else 0)"
  using rshift_loop [OF assms, of n "length x"] assms unfolding RShift_def by auto

lemma LShift_nth:
  assumes "j < length x"
  shows "LShift x n ! j =
      (if j + n div 8 < length x then push_bit (n mod 8) (x ! (j + n div 8)) else 0) OR
      (if j + n div 8 + 1 < length x then drop_bit (8 - n mod 8) (x ! (j + n div 8 + 1)) else 0)"
  using lshift_loop [OF assms, of 0 n] unfolding LShift_def by simp

lemma bit_RShift_be_nat: "bit (be_nat (RShift x n)) i \<longleftrightarrow> bit (be_nat x) (i + n)"
proof (cases "i div 8 < length x")
  case True
  let ?j = "length x - 1 - i div 8"
  have L: "i div 8 < length x" and j: "?j < length x" using True by linarith+
  have i: "bit (be_nat (RShift x n)) i \<longleftrightarrow>
      n div 8 \<le> ?j \<and> bit (x ! (?j - n div 8)) (n mod 8 + i mod 8) \<or>
      n div 8 < ?j \<and> 8 - n mod 8 \<le> i mod 8 \<and> bit (x ! (?j - n div 8 - 1)) (i mod 8 - (8 - n mod 8))"
    using True j by (simp add: bit_be_nat RShift_nth bit_simps)
  show ?thesis
  proof (cases "i mod 8 + n mod 8 < 8")
    case True
    then have "\<not> 8 - n mod 8 \<le> i mod 8" by linarith
    moreover have "n div 8 \<le> ?j \<longleftrightarrow> i div 8 + n div 8 < length x" using L by linarith
    ultimately show ?thesis
      unfolding i using add_div_mod_8(1) [OF True] by (simp add: bit_be_nat add.commute)
  next
    case False
    then have "\<not> bit (x ! (?j - n div 8)) (n mod 8 + i mod 8)"
      using byte_bit_less [of "x ! (?j - n div 8)" "n mod 8 + i mod 8"] by linarith
    moreover have "n div 8 < ?j \<longleftrightarrow> Suc (i div 8 + n div 8) < length x" using L by linarith
    moreover have "8 - n mod 8 \<le> i mod 8" "i mod 8 - (8 - n mod 8) = i mod 8 + n mod 8 - 8"
      using False by linarith+
    ultimately show ?thesis
      unfolding i using add_div_mod_8(2) [OF False] by (simp add: bit_be_nat)
  qed
next
  case False
  moreover have "i div 8 \<le> (i + n) div 8" by (simp add: div_le_mono)
  ultimately show ?thesis by (simp add: bit_be_nat)
qed

lemma RShift_be_nat: "be_nat (RShift x n) = be_nat x div 2 ^ n"
proof -
  have "be_nat (RShift x n) = drop_bit n (be_nat x)"
    by (rule bit_eqI) (simp add: bit_RShift_be_nat bit_drop_bit_eq add.commute)
  then show ?thesis by (simp add: drop_bit_eq_div)
qed

lemma index_from_end:
  fixes a b c l :: nat
  shows "a = b + c \<Longrightarrow> a < l \<Longrightarrow> l - 1 - a + c = l - 1 - b \<and> b < l \<and> l - 1 - b < l"
    and "a = Suc (b + c) \<Longrightarrow> a < l \<Longrightarrow> l - 1 - a + c + 1 = l - 1 - b \<and> b < l \<and> l - 1 - b < l"
  by linarith+

lemma bit_LShift_be_nat:
  "bit (be_nat (LShift x n)) i \<longleftrightarrow> i div 8 < length x \<and> n \<le> i \<and> bit (be_nat x) (i - n)"
proof (cases "i div 8 < length x")
  case True
  let ?j = "length x - 1 - i div 8"
  have L: "i div 8 < length x" and j: "?j < length x" using True by linarith+
  have i: "bit (be_nat (LShift x n)) i \<longleftrightarrow>
      ?j + n div 8 < length x \<and> n mod 8 \<le> i mod 8 \<and> bit (x ! (?j + n div 8)) (i mod 8 - n mod 8) \<or>
      ?j + n div 8 + 1 < length x \<and> bit (x ! (?j + n div 8 + 1)) (8 - n mod 8 + i mod 8)"
    using True j by (simp add: bit_be_nat LShift_nth bit_simps)
  show ?thesis
  proof (cases "n \<le> i")
    case False
    then have "8 * (i div 8) + i mod 8 < 8 * (n div 8) + n mod 8" by simp
    moreover have "n mod 8 < 8" by simp
    ultimately have "i div 8 < n div 8 \<or> i div 8 = n div 8 \<and> i mod 8 < n mod 8" by linarith
    then show ?thesis
    proof
      assume "i div 8 < n div 8"
      then have "\<not> ?j + n div 8 < length x" by linarith
      then show ?thesis unfolding i using False by simp
    next
      assume "i div 8 = n div 8 \<and> i mod 8 < n mod 8"
      then have "\<not> ?j + n div 8 + 1 < length x" "\<not> n mod 8 \<le> i mod 8" by linarith+
      then show ?thesis unfolding i using False by simp
    qed
  next
    case n: True
    define m where "m = i - n"
    have im: "i = m + n" using n m_def by simp
    show ?thesis
    proof (cases "m mod 8 + n mod 8 < 8")
      case True
      note d = add_div_mod_8(1) [OF True, folded im]
      have "8 \<le> 8 - n mod 8 + i mod 8" unfolding conjunct2 [OF d] by simp
      then have "\<not> bit (x ! (?j + n div 8 + 1)) (8 - n mod 8 + i mod 8)"
        using byte_bit_less linorder_not_le by blast
      moreover have "n mod 8 \<le> i mod 8" "i mod 8 - n mod 8 = m mod 8" using d by simp_all
      moreover note index_from_end(1) [OF conjunct1 [OF d] L]
      ultimately show ?thesis
        unfolding i m_def [symmetric] using n L by (simp add: bit_be_nat)
    next
      case False
      note d = add_div_mod_8(2) [OF False, folded im]
      have r: "m mod 8 < 8" "n mod 8 < 8" by simp_all
      have "\<not> n mod 8 \<le> i mod 8" "8 - n mod 8 + i mod 8 = m mod 8"
        unfolding conjunct2 [OF d] using r False by simp_all
      moreover note index_from_end(2) [OF conjunct1 [OF d] L]
      ultimately show ?thesis
        unfolding i m_def [symmetric] using n L by (simp add: bit_be_nat)
    qed
  qed
qed (simp add: bit_be_nat)

lemma LShift_be_nat: "be_nat (LShift x n) = be_nat x * 2 ^ n mod 256 ^ length x"
proof -
  have "be_nat (LShift x n) = take_bit (8 * length x) (push_bit n (be_nat x))"
    by (rule bit_eqI) (auto simp: bit_LShift_be_nat bit_take_bit_iff bit_push_bit_iff)
  moreover have "(256 :: nat) ^ length x = 2 ^ (8 * length x)" by (simp add: power_mult)
  ultimately show ?thesis by (simp add: take_bit_eq_mod push_bit_eq_mult)
qed

subsection \<open>Truth values are non-zero numbers\<close>

lemma cast_loop_iff:
  "i \<le> n \<Longrightarrow> cast_loop v n [i..<n] \<longleftrightarrow> (\<exists>k. i \<le> k \<and> k < n \<and> v ! k \<noteq> 0 \<and> (k = n - 1 \<longrightarrow> v ! k \<noteq> 0x80))"
proof (induction "n - i" arbitrary: i)
  case (Suc d)
  then have i: "[i..<n] = i # [Suc i..<n]" "i < n" by (simp_all add: upt_conv_Cons)
  have "i = n - 1 \<Longrightarrow> cast_loop v n [Suc i..<n] = False" using i by simp
  moreover have "cast_loop v n [Suc i..<n] \<longleftrightarrow>
      (\<exists>k. Suc i \<le> k \<and> k < n \<and> v ! k \<noteq> 0 \<and> (k = n - 1 \<longrightarrow> v ! k \<noteq> 0x80))"
    using Suc i by simp
  moreover have "(\<exists>k. i \<le> k \<and> k < n \<and> P k) \<longleftrightarrow> P i \<or> (\<exists>k. Suc i \<le> k \<and> k < n \<and> P k)" for P
    using i(2) by (metis Suc_leD Suc_le_eq le_neq_implies_less order_refl)
  ultimately show ?case using i by auto
qed simp

lemma unat_mod_128_eq_0: "unat (b :: byte) mod 128 = 0 \<longleftrightarrow> b = 0 \<or> b = 0x80"
proof
  assume "unat b mod 128 = 0"
  moreover have "unat b < 256" by simp
  ultimately have "unat b = 0 \<or> unat b = 128" by presburger
  then show "b = 0 \<or> b = 0x80" by (simp add: word_unat_eq_iff)
qed auto

lemma CastToBool_sm_val: "CastToBool v \<longleftrightarrow> sm_val v \<noteq> 0"
proof (cases "v = []")
  case False
  then have n: "last v = v ! (length v - 1)" "length v - 1 < length v" by (simp_all add: last_conv_nth)
  have "sm_val v = 0 \<longleftrightarrow> sm_mag v = 0" by (simp add: sm_val_def)
  also have "\<dots> \<longleftrightarrow> set (butlast v) \<subseteq> {0} \<and> unat (last v) mod 128 = 0"
    using False by (simp add: sm_mag_def le_nat_eq_0_iff)
  also have "\<dots> \<longleftrightarrow> (\<forall>k < length v - 1. v ! k = 0) \<and> (v ! (length v - 1) = 0 \<or> v ! (length v - 1) = 0x80)"
    unfolding unat_mod_128_eq_0 n by (auto simp: set_conv_nth nth_butlast)
  also have "\<dots> \<longleftrightarrow> \<not> CastToBool v"
    unfolding CastToBool_def cast_loop_iff [OF le0] using n(2)
    by (metis Suc_pred' le0 less_Suc_eq length_greater_0_conv False order_less_irrefl)
  finally show ?thesis by blast
qed (simp add: CastToBool_def sm_val_def sm_mag_def sm_neg_def)

subsection \<open>Signatures are strict DER\<close>

text \<open>The content of a minimally encoded, non-negative DER integer.\<close>

definition der_int :: "byte list \<Rightarrow> bool" where
  "der_int r \<longleftrightarrow> r \<noteq> [] \<and> unat (r ! 0) < 128 \<and> (1 < length r \<and> r ! 0 = 0 \<longrightarrow> 128 \<le> unat (r ! 1))"

definition der_signature :: "byte list \<Rightarrow> byte list \<Rightarrow> byte \<Rightarrow> byte list" where
  "der_signature r s hashtype =
     [0x30, word_of_nat (length r + length s + 4), 0x02, word_of_nat (length r)] @ r @
     [0x02, word_of_nat (length s)] @ s @ [hashtype]"

lemma split_signature:
  assumes "a + b + 7 = length sig"
  shows "sig = [sig ! 0, sig ! 1, sig ! 2, sig ! 3] @ take a (drop 4 sig) @
    [sig ! (a + 4), sig ! (a + 5)] @ take b (drop (a + 6) sig) @ [sig ! (a + b + 6)]"
proof -
  have d: "drop k sig = sig ! k # drop (Suc k) sig" if "k < length sig" for k
    using that by (simp add: Cons_nth_drop_Suc)
  have "sig \<noteq> []" using assms by auto
  then have "sig = sig ! 0 # sig ! 1 # sig ! 2 # sig ! 3 # drop 4 sig"
    using assms d [of 0] d [of 1] d [of 2] d [of 3] by (simp add: eval_nat_numeral)
  moreover have "drop 4 sig = take a (drop 4 sig) @ drop (a + 4) sig"
    by (metis add.commute append_take_drop_id drop_drop)
  moreover have "drop (a + 4) sig = sig ! (a + 4) # sig ! (a + 5) # drop (a + 6) sig"
    using assms d [of "a + 4"] d [of "a + 5"] by (simp add: eval_nat_numeral)
  moreover have "drop (a + 6) sig = take b (drop (a + 6) sig) @ drop (a + b + 6) sig"
    by (metis add.assoc add.commute append_take_drop_id drop_drop)
  moreover have "drop (a + b + 6) sig = [sig ! (a + b + 6)]"
    using assms d [of "a + b + 6"] by simp
  ultimately show ?thesis by simp
qed

lemma der_signature_nth:
  fixes r s h
  defines "sig \<equiv> der_signature r s h"
  shows "length sig = length r + length s + 7"
    "sig ! 0 = 0x30" "sig ! 1 = word_of_nat (length r + length s + 4)" "sig ! 2 = 2"
    "sig ! 3 = word_of_nat (length r)" "sig ! (length r + 4) = 2"
    "sig ! (5 + length r) = word_of_nat (length s)"
    "i < length r \<Longrightarrow> sig ! (4 + i) = r ! i" "i < length s \<Longrightarrow> sig ! (length r + 6 + i) = s ! i"
  by (simp_all add: sig_def der_signature_def nth_append nth_Cons')

lemma IsValidSignatureEncoding_der:
  "IsValidSignatureEncoding sig \<longleftrightarrow>
     length sig \<le> 73 \<and> (\<exists>r s h. der_int r \<and> der_int s \<and> sig = der_signature r s h)" (is "_ \<longleftrightarrow> ?der")
proof
  assume v: "IsValidSignatureEncoding sig"
  let ?a = "unat (sig ! 3)" and ?b = "unat (sig ! (5 + unat (sig ! 3)))"
  let ?r = "take ?a (drop 4 sig)" and ?s = "take ?b (drop (?a + 6) sig)"
  have l: "?a + ?b + 7 = length sig" and z: "?a \<noteq> 0" "?b \<noteq> 0" and le: "length sig \<le> 73"
    and h: "sig ! 0 = 0x30" "unat (sig ! 1) = length sig - 3" "sig ! 2 = 2" "sig ! (?a + 4) = 2"
    using v by (auto simp: IsValidSignatureEncoding_def Let_def split: if_splits)
  have len: "length ?r = ?a" "length ?s = ?b" using l by simp_all
  have n: "?r ! 0 = sig ! 4" "?s ! 0 = sig ! (?a + 6)"
    "1 < ?a \<Longrightarrow> ?r ! 1 = sig ! 5" "1 < ?b \<Longrightarrow> ?s ! 1 = sig ! (?a + 7)"
    using z l by (simp_all add: add.commute)
  have "der_int ?r" "der_int ?s"
    using v z unfolding der_int_def len n IsValidSignatureEncoding_def Let_def
    by (auto simp: n byte_and_80_0 not_less add.commute split: if_splits)
  moreover have "unat (sig ! 1) = ?a + ?b + 4" using h(2) l by linarith
  then have "sig ! 1 = word_of_nat (?a + ?b + 4)" by (metis of_nat_unat ucast_id)
  then have "sig = der_signature ?r ?s (sig ! (?a + ?b + 6))"
    using split_signature [OF l] h unfolding der_signature_def len by (simp add: add.commute)
  ultimately show ?der using le by blast
next
  assume ?der
  then obtain r s h where d: "der_int r" "der_int s" and sig: "sig = der_signature r s h"
    and le: "length sig \<le> 73" by blast
  note n = der_signature_nth [where r = r and s = s and h = h, folded sig]
  have l: "length r + length s \<le> 66" using le n(1) by simp
  have u: "unat (word_of_nat k :: byte) = k" if "k < 256" for k using that by (simp add: unat_of_nat)
  have ne: "length r \<noteq> 0" "length s \<noteq> 0" using d by (auto simp: der_int_def)
  have v: "unat (sig ! 1) = length sig - 3" "unat (sig ! 3) = length r" "unat (sig ! (5 + length r)) = length s"
    using l by (simp_all only: n u)
  have "sig ! 4 AND 0x80 = 0" "sig ! (length r + 6) AND 0x80 = 0"
    using d n(8) [of 0] n(9) [of 0] by (simp_all add: der_int_def byte_and_80_0)
  moreover have "\<not> (1 < length r \<and> sig ! 4 = 0 \<and> sig ! 5 AND 0x80 = 0)"
    using d(1) n(8) [of 0] n(8) [of 1] by (auto simp: der_int_def byte_and_80_0)
  moreover have "\<not> (1 < length s \<and> sig ! (length r + 6) = 0 \<and> sig ! (length r + 7) AND 0x80 = 0)"
    using d(2) n(9) [of 0] n(9) [of 1] by (auto simp: der_int_def byte_and_80_0 add.commute)
  moreover have "\<not> length r + length s < 2" using ne by linarith
  ultimately show "IsValidSignatureEncoding sig"
    unfolding IsValidSignatureEncoding_def Let_def v n(2,4,6) using ne l le n(1) by (simp del: length_0_conv length_greater_0_conv)
qed

text \<open>\<open>RShift\<close> and \<open>LShift\<close>, which work byte by byte with masks and carries, keep the length
  and are, for every vector and every shift count, division by and multiplication with a power of
  two of the big-endian number, the bits shifted out being lost.\<close>

theorem shifts_are_arithmetic:
  "length (RShift x n) = length x \<and> length (LShift x n) = length x \<and>
   be_nat (RShift x n) = be_nat x div 2 ^ n \<and>
   be_nat (LShift x n) = be_nat x * 2 ^ n mod 256 ^ length x"
  by (simp add: RShift_be_nat LShift_be_nat)

text \<open>C23.  \<open>IsValidSignatureEncoding\<close>, a chain of index checks, accepts exactly the vectors of at
  most 73 bytes that are a DER sequence of two minimally encoded non-negative integers of any
  lengths followed by one hash type byte.\<close>

theorem IsValidSignatureEncoding_exact:
  "IsValidSignatureEncoding sig \<longleftrightarrow>
     length sig \<le> 73 \<and> (\<exists>r s h. der_int r \<and> der_int s \<and> sig = der_signature r s h)"
  by (rule IsValidSignatureEncoding_der)

end
