(* ===== verification/Limited_Stack.thy ===== *)
theory Limited_Stack
  imports Script_Num
begin

text \<open>
  \<open>src/src/script/limitedstack.h\<close> and \<open>limitedstack.cpp\<close>: the memory-limited stacks of the
  interpreter.  A \<open>LimitedStack\<close> object is an entry of a store; a stack made by
  \<open>makeChildStack\<close> keeps a pointer to its parent, which is part of its address here, and the
  size counters of a child live in its parent.  Each element (\<open>LimitedVector\<close>) keeps a
  reference to the stack it was created for.  A C++ reference to an element is its index.
  Sizes are natural numbers: vector sizes are below \<open>2^63\<close> and \<open>maxStackSize\<close> is at most
  \<open>INT64_MAX\<close>, so the 64-bit sums do not wrap, and the lemmas show that the counter is
  never decreased below zero.
\<close>

subsection \<open>Objects and addresses\<close>

datatype stack_ref = Root nat | Child stack_ref nat

record LimitedVector =
  stackElement :: valtype
  owner :: stack_ref

record LimitedStack =
  combinedStackSize :: nat
  maxStackSize :: nat
  elems :: "LimitedVector list"

type_synonym stack_store = "stack_ref \<Rightarrow> LimitedStack"

abbreviation (input) ELEMENT_OVERHEAD :: nat where "ELEMENT_OVERHEAD \<equiv> 32"

abbreviation vsize :: "LimitedVector \<Rightarrow> nat" where "vsize v \<equiv> length (stackElement v)"

fun getParentStack :: "stack_ref \<Rightarrow> stack_ref option" where
  "getParentStack (Root n) = None"
| "getParentStack (Child p n) = Some p"

definition make_vector :: "valtype \<Rightarrow> stack_ref \<Rightarrow> LimitedVector" where
  "make_vector e r = \<lparr>stackElement = e, owner = r\<rparr>"

definition set_elems :: "stack_store \<Rightarrow> stack_ref \<Rightarrow> LimitedVector list \<Rightarrow> stack_store" where
  "set_elems h r vs = h(r := (h r)\<lparr>elems := vs\<rparr>)"

definition stack_size :: "stack_store \<Rightarrow> stack_ref \<Rightarrow> nat" where
  "stack_size h r = length (elems (h r))"

subsection \<open>Size accounting\<close>

fun getCombinedStackSize :: "stack_store \<Rightarrow> stack_ref \<Rightarrow> nat" where
  "getCombinedStackSize h (Child p n) = getCombinedStackSize h p"
| "getCombinedStackSize h (Root n) = combinedStackSize (h (Root n))"

fun decreaseCombinedStackSize :: "stack_store \<Rightarrow> stack_ref \<Rightarrow> nat \<Rightarrow> stack_store" where
  "decreaseCombinedStackSize h (Child p n) additionalSize =
     decreaseCombinedStackSize h p additionalSize"
| "decreaseCombinedStackSize h (Root n) additionalSize =
     h(Root n := (h (Root n))\<lparr>combinedStackSize := combinedStackSize (h (Root n)) - additionalSize\<rparr>)"

fun increaseCombinedStackSize ::
  "stack_store \<Rightarrow> stack_ref \<Rightarrow> nat \<Rightarrow> cxx_exn + stack_store" where
  "increaseCombinedStackSize h (Child p n) additionalSize =
     increaseCombinedStackSize h p additionalSize"
| "increaseCombinedStackSize h (Root n) additionalSize =
     (if getCombinedStackSize h (Root n) + additionalSize > maxStackSize (h (Root n))
      then Inl stack_overflow_error
      else Inr (h(Root n := (h (Root n))
             \<lparr>combinedStackSize := combinedStackSize (h (Root n)) + additionalSize\<rparr>)))"

subsection \<open>Stack operations\<close>

definition stack_new :: "stack_store \<Rightarrow> nat \<Rightarrow> nat \<Rightarrow> stack_store" where
  "stack_new h n maxStackSizeIn =
     h(Root n := \<lparr>combinedStackSize = 0, maxStackSize = maxStackSizeIn, elems = []\<rparr>)"

definition stacktop :: "stack_store \<Rightarrow> stack_ref \<Rightarrow> int \<Rightarrow> cxx_exn + nat" where
  "stacktop h r index =
     (if index \<ge> 0 then Inl std_exception
      else if int (stack_size h r) + index < 0 then Inl std_exception
      else Inr (nat (int (stack_size h r) + index)))"

definition stack_at :: "stack_store \<Rightarrow> stack_ref \<Rightarrow> nat \<Rightarrow> cxx_exn + LimitedVector" where
  "stack_at h r i = (if i < stack_size h r then Inr (elems (h r) ! i) else Inl std_exception)"

definition stack_pop_back :: "stack_store \<Rightarrow> stack_ref \<Rightarrow> cxx_exn + stack_store" where
  "stack_pop_back h r =
     (if elems (h r) = [] then Inl std_exception
      else bindE (stacktop h r (- 1)) (\<lambda>i.
        let h' = decreaseCombinedStackSize h r (vsize (elems (h r) ! i) + ELEMENT_OVERHEAD)
        in Inr (set_elems h' r (butlast (elems (h' r))))))"

definition stack_push_vector ::
  "stack_store \<Rightarrow> stack_ref \<Rightarrow> LimitedVector \<Rightarrow> cxx_exn + stack_store" where
  "stack_push_vector h r element =
     (if owner element \<noteq> r then Inl std_exception
      else bindE (increaseCombinedStackSize h r (vsize element + ELEMENT_OVERHEAD))
        (\<lambda>h'. Inr (set_elems h' r (elems (h' r) @ [element]))))"

definition stack_push_back :: "stack_store \<Rightarrow> stack_ref \<Rightarrow> valtype \<Rightarrow> cxx_exn + stack_store" where
  "stack_push_back h r element =
     bindE (increaseCombinedStackSize h r (length element + ELEMENT_OVERHEAD))
       (\<lambda>h'. Inr (set_elems h' r (elems (h' r) @ [make_vector element r])))"

fun stack_push_all :: "stack_store \<Rightarrow> stack_ref \<Rightarrow> valtype list \<Rightarrow> cxx_exn + stack_store" where
  "stack_push_all h r [] = Inr h"
| "stack_push_all h r (v # vs) = bindE (stack_push_back h r v) (\<lambda>h'. stack_push_all h' r vs)"

definition stack_of_elements ::
  "stack_store \<Rightarrow> nat \<Rightarrow> valtype list \<Rightarrow> nat \<Rightarrow> cxx_exn + stack_store" where
  "stack_of_elements h n stackElements maxStackSizeIn =
     stack_push_all (stack_new h n maxStackSizeIn) (Root n) stackElements"

fun erase_sizes :: "stack_store \<Rightarrow> stack_ref \<Rightarrow> LimitedVector list \<Rightarrow> stack_store" where
  "erase_sizes h r [] = h"
| "erase_sizes h r (v # vs) =
     erase_sizes (decreaseCombinedStackSize h r (vsize v + ELEMENT_OVERHEAD)) r vs"

text \<open>Iterators before the beginning are undefined behaviour in the source; the model makes
  them an exception.\<close>

definition stack_erase_range ::
  "stack_store \<Rightarrow> stack_ref \<Rightarrow> int \<Rightarrow> int \<Rightarrow> cxx_exn + stack_store" where
  "stack_erase_range h r first last' =
     (if last' \<ge> 0 \<or> last' \<le> first then Inl std_exception
      else let size = int (stack_size h r)
        in if size + first < 0 then Inl std_exception
           else let f = nat (size + first); l = nat (size + last');
                    h' = erase_sizes h r (take (l - f) (drop f (elems (h r))))
             in Inr (set_elems h' r (take f (elems (h' r)) @ drop l (elems (h' r)))))"

definition stack_erase :: "stack_store \<Rightarrow> stack_ref \<Rightarrow> int \<Rightarrow> cxx_exn + stack_store" where
  "stack_erase h r index =
     (if index \<ge> 0 then Inl std_exception
      else if int (stack_size h r) + index < 0 then Inl std_exception
      else let i = nat (int (stack_size h r) + index);
               h' = decreaseCombinedStackSize h r (vsize (elems (h r) ! i) + ELEMENT_OVERHEAD)
        in Inr (set_elems h' r (take i (elems (h' r)) @ drop (Suc i) (elems (h' r)))))"

definition stack_insert ::
  "stack_store \<Rightarrow> stack_ref \<Rightarrow> int \<Rightarrow> LimitedVector \<Rightarrow> cxx_exn + stack_store" where
  "stack_insert h r position element =
     (if owner element \<noteq> r then Inl std_exception
      else if position \<ge> 0 then Inl std_exception
      else bindE (increaseCombinedStackSize h r (vsize element + ELEMENT_OVERHEAD))
        (\<lambda>h'. if int (stack_size h' r) + position < 0 then Inl std_exception
          else let i = nat (int (stack_size h' r) + position)
            in Inr (set_elems h' r (take i (elems (h' r)) @ [element] @ drop i (elems (h' r))))))"

definition swapElements :: "stack_store \<Rightarrow> stack_ref \<Rightarrow> nat \<Rightarrow> nat \<Rightarrow> cxx_exn + stack_store" where
  "swapElements h r index1 index2 =
     bindE (stack_at h r index1) (\<lambda>a. bindE (stack_at h r index2) (\<lambda>b.
       Inr (set_elems h r ((elems (h r))[index1 := b, index2 := a]))))"

text \<open>\<open>moveTopToStack h this other\<close> moves the top of \<open>other\<close> onto \<open>this\<close>.\<close>

definition moveTopToStack :: "stack_store \<Rightarrow> stack_ref \<Rightarrow> stack_ref \<Rightarrow> cxx_exn + stack_store" where
  "moveTopToStack h this other =
     (if getParentStack this = Some other \<or> getParentStack other = Some this then
        bindE (stacktop h other (- 1)) (\<lambda>i.
          let v = elems (h other) ! i;
              h1 = set_elems h this (elems (h this) @ [v])
          in Inr (set_elems h1 other (butlast (elems (h1 other)))))
      else Inl std_exception)"

definition MoveToValtypes ::
  "stack_store \<Rightarrow> stack_ref \<Rightarrow> valtype list \<Rightarrow> stack_store \<times> valtype list" where
  "MoveToValtypes h r valtypes =
     (let h' = erase_sizes h r (elems (h r))
      in (set_elems h' r [], valtypes @ map stackElement (elems (h r))))"

definition makeChildStack :: "stack_store \<Rightarrow> stack_ref \<Rightarrow> nat \<Rightarrow> stack_store \<times> stack_ref" where
  "makeChildStack h r n =
     (h(Child r n := \<lparr>combinedStackSize = 0, maxStackSize = 0, elems = []\<rparr>), Child r n)"

definition makeRootStackCopy ::
  "stack_store \<Rightarrow> stack_ref \<Rightarrow> nat \<Rightarrow> cxx_exn + stack_store" where
  "makeRootStackCopy h r n =
     (if getParentStack r \<noteq> None then Inl std_exception else Inr (h(Root n := h r)))"

definition stacks_equal :: "stack_store \<Rightarrow> stack_ref \<Rightarrow> stack_ref \<Rightarrow> bool" where
  "stacks_equal h r other =
     (if stack_size h r \<noteq> stack_size h other then False
      else list_all (\<lambda>i. stackElement (elems (h r) ! i) = stackElement (elems (h other) ! i))
             [0..<stack_size h r])"

subsection \<open>Operations on an element through a reference\<close>

definition element :: "stack_store \<Rightarrow> stack_ref \<Rightarrow> nat \<Rightarrow> valtype" where
  "element h r i = stackElement (elems (h r) ! i)"

definition set_element :: "stack_store \<Rightarrow> stack_ref \<Rightarrow> nat \<Rightarrow> valtype \<Rightarrow> stack_store" where
  "set_element h r i e = set_elems h r ((elems (h r))[i := (elems (h r) ! i)\<lparr>stackElement := e\<rparr>])"

definition vector_push_back :: "stack_store \<Rightarrow> stack_ref \<Rightarrow> nat \<Rightarrow> byte \<Rightarrow> cxx_exn + stack_store" where
  "vector_push_back h r i b =
     bindE (increaseCombinedStackSize h (owner (elems (h r) ! i)) 1)
       (\<lambda>h'. Inr (set_element h' r i (element h' r i @ [b])))"

definition vector_append ::
  "stack_store \<Rightarrow> stack_ref \<Rightarrow> nat \<Rightarrow> LimitedVector \<Rightarrow> cxx_exn + stack_store" where
  "vector_append h r i second =
     bindE (increaseCombinedStackSize h (owner (elems (h r) ! i)) (vsize second))
       (\<lambda>h'. Inr (set_element h' r i (element h' r i @ stackElement second)))"

definition padRight ::
  "stack_store \<Rightarrow> stack_ref \<Rightarrow> nat \<Rightarrow> nat \<Rightarrow> byte \<Rightarrow> cxx_exn + stack_store" where
  "padRight h r i newSize signbit =
     (let e = element h r i
      in if newSize > length e then
           bindE (increaseCombinedStackSize h (owner (elems (h r) ! i)) (newSize - length e))
             (\<lambda>h'. Inr (set_element h' r i (e @ replicate (newSize - length e - 1) 0 @ [signbit])))
         else Inr h)"

definition vector_MinimallyEncode ::
  "stack_store \<Rightarrow> stack_ref \<Rightarrow> nat \<Rightarrow> cxx_exn + stack_store \<times> bool" where
  "vector_MinimallyEncode h r i =
     (let o' = owner (elems (h r) ! i);
          h1 = decreaseCombinedStackSize h o' (length (element h r i));
          (successfulEncoding, e) = MinimallyEncode (element h1 r i);
          h2 = set_element h1 r i e
      in bindE (increaseCombinedStackSize h2 o' (length e)) (\<lambda>h3. Inr (h3, successfulEncoding)))"

definition vector_IsMinimallyEncoded :: "stack_store \<Rightarrow> stack_ref \<Rightarrow> nat \<Rightarrow> nat \<Rightarrow> bool" where
  "vector_IsMinimallyEncoded h r i maxSize = IsMinimallyEncoded (element h r i) maxSize"

subsection \<open>The two stacks of the interpreter as lists\<close>

text \<open>Specification view: the main stack \<open>xs\<close> and its child, the alt stack \<open>ys\<close>, under a
  limit \<open>m\<close>; \<open>g\<close> is what the counter holds beyond the elements of the two stacks.\<close>

abbreviation main_stack :: stack_ref where "main_stack \<equiv> Root 0"
abbreviation alt_stack :: stack_ref where "alt_stack \<equiv> Child (Root 0) 0"

definition cost :: "valtype list \<Rightarrow> nat" where
  "cost xs = sum_list (map (\<lambda>x. length x + ELEMENT_OVERHEAD) xs)"

definition vecs :: "valtype list \<Rightarrow> LimitedVector list" where
  "vecs xs = map (\<lambda>x. make_vector x main_stack) xs"

definition counted_stacks :: "nat \<Rightarrow> nat \<Rightarrow> valtype list \<Rightarrow> valtype list \<Rightarrow> stack_store" where
  "counted_stacks m c xs ys = (\<lambda>r.
     if r = main_stack then
       \<lparr>combinedStackSize = c, maxStackSize = m,
        elems = vecs xs\<rparr>
     else if r = alt_stack then
       \<lparr>combinedStackSize = 0, maxStackSize = 0, elems = vecs ys\<rparr>
     else \<lparr>combinedStackSize = 0, maxStackSize = 0, elems = []\<rparr>)"

definition two_stacks :: "nat \<Rightarrow> nat \<Rightarrow> valtype list \<Rightarrow> valtype list \<Rightarrow> stack_store" where
  "two_stacks m g xs ys = counted_stacks m (g + cost xs + cost ys) xs ys"

named_theorems stack_simps

lemma cost_simps [simp]:
  "cost [] = 0" "cost (x # xs) = length x + 32 + cost xs" "cost (xs @ ys) = cost xs + cost ys"
  by (simp_all add: cost_def)

lemma cost_take_drop: "cost (take n xs) + cost (drop n xs) = cost xs"
  by (metis append_take_drop_id cost_simps(3))

lemma cost_nth: "i < length xs \<Longrightarrow> cost xs = cost (take i xs) + (length (xs ! i) + 32) + cost (drop (Suc i) xs)"
  by (metis cost_simps(2) cost_simps(3) id_take_nth_drop add.assoc)

lemma cost_update:
  "i < length xs \<Longrightarrow> cost (xs[i := e]) + length (xs ! i) = cost xs + length e"
  using cost_nth [of i xs] by (simp add: upd_conv_take_nth_drop)

lemma cost_nth_le: "i < length xs \<Longrightarrow> length (xs ! i) + 32 \<le> cost xs"
  using cost_nth [of i xs] by simp

lemma make_vector_simps [simp]:
  "stackElement (make_vector x r) = x" "owner (make_vector x r) = r"
  "(make_vector x r)\<lparr>stackElement := y\<rparr> = make_vector y r"
  by (simp_all add: make_vector_def)

lemma make_vector_inj [simp]: "make_vector x r = make_vector y r \<longleftrightarrow> x = y"
  by (simp add: make_vector_def)

declare decreaseCombinedStackSize.simps(2) [simp del] increaseCombinedStackSize.simps(2) [simp del]

lemma vecs_simps [simp]:
  "length (vecs xs) = length xs" "vecs [] = []" "vecs xs = [] \<longleftrightarrow> xs = []"
  "i < length xs \<Longrightarrow> vecs xs ! i = make_vector (xs ! i) main_stack"
  "map stackElement (vecs xs) = xs"
  by (simp_all add: vecs_def o_def)

lemma vecs_fold [simp]:
  "vecs xs @ vecs ys = vecs (xs @ ys)"
  "vecs xs @ [make_vector x main_stack] = vecs (xs @ [x])"
  "make_vector x main_stack # vecs xs = vecs (x # xs)"
  "butlast (vecs xs) = vecs (butlast xs)"
  "take n (vecs xs) = vecs (take n xs)" "drop n (vecs xs) = vecs (drop n xs)"
  "(vecs xs)[i := make_vector x main_stack] = vecs (xs[i := x])"
  by (simp_all add: vecs_def map_butlast take_map drop_map map_update)

lemma vecs_cost [simp]: "sum_list (map (\<lambda>v. vsize v + ELEMENT_OVERHEAD) (vecs xs)) = cost xs"
  by (simp add: vecs_def cost_def o_def)

lemma two_stacks_elems [stack_simps]:
  "elems (two_stacks m g xs ys main_stack) = vecs xs"
  "elems (two_stacks m g xs ys alt_stack) = vecs ys"
  by (simp_all add: two_stacks_def counted_stacks_def)

lemma stack_size_two [stack_simps]:
  "stack_size (two_stacks m g xs ys) main_stack = length xs"
  "stack_size (two_stacks m g xs ys) alt_stack = length ys"
  by (simp_all add: stack_size_def stack_simps)

lemma element_two [stack_simps]:
  "i < length xs \<Longrightarrow> element (two_stacks m g xs ys) main_stack i = xs ! i"
  "i < length ys \<Longrightarrow> element (two_stacks m g xs ys) alt_stack i = ys ! i"
  by (simp_all add: element_def stack_simps)

lemma owner_two [stack_simps]:
  "i < length xs \<Longrightarrow> owner (elems (two_stacks m g xs ys main_stack) ! i) = main_stack"
  by (simp add: stack_simps)

lemma stacktop_two [stack_simps]:
  "stacktop (two_stacks m g xs ys) main_stack (- int k) =
     (if 0 < k \<and> k \<le> length xs then Inr (length xs - k) else Inl std_exception)"
  "stacktop (two_stacks m g xs ys) alt_stack (- int k) =
     (if 0 < k \<and> k \<le> length ys then Inr (length ys - k) else Inl std_exception)"
  by (auto simp: stacktop_def stack_simps)

lemma stacktop_two_num [stack_simps]:
  "stacktop (two_stacks m g xs ys) main_stack (- 1) =
     (if xs \<noteq> [] then Inr (length xs - 1) else Inl std_exception)"
  "stacktop (two_stacks m g xs ys) main_stack (- numeral n) =
     (if numeral n \<le> length xs then Inr (length xs - numeral n) else Inl std_exception)"
  "stacktop (two_stacks m g xs ys) alt_stack (- 1) =
     (if ys \<noteq> [] then Inr (length ys - 1) else Inl std_exception)"
  using stacktop_two [of m g xs ys 1] stacktop_two [of m g xs ys "numeral n"]
  by (auto simp: Suc_le_eq)

text \<open>Raw store updates, which the operations compose.\<close>

lemma set_elems_elems [simp]: "elems (set_elems h r vs r) = vs"
  by (simp add: set_elems_def)

lemma set_elems_other [simp]: "r' \<noteq> r \<Longrightarrow> set_elems h r vs r' = h r'"
  by (simp add: set_elems_def)

lemma counted_cong: "c = c' \<Longrightarrow> counted_stacks m c xs ys = counted_stacks m c' xs ys"
  by simp

lemma counted_elems [simp]:
  "elems (counted_stacks m c xs ys main_stack) = vecs xs"
  "elems (counted_stacks m c xs ys alt_stack) = vecs ys"
  by (simp_all add: counted_stacks_def)

lemma counted_set_elems [simp]:
  "set_elems (counted_stacks m c xs ys) main_stack (vecs xs') =
     counted_stacks m c xs' ys"
  "set_elems (counted_stacks m c xs ys) alt_stack (vecs ys') =
     counted_stacks m c xs ys'"
  by (auto simp: set_elems_def counted_stacks_def fun_eq_iff)

lemma counted_set_element [simp]:
  "i < length xs \<Longrightarrow>
   set_element (counted_stacks m c xs ys) main_stack i e = counted_stacks m c (xs[i := e]) ys"
  by (simp add: set_element_def)

lemma counted_element [simp]:
  "i < length xs \<Longrightarrow> element (counted_stacks m c xs ys) main_stack i = xs ! i"
  by (simp add: element_def)

lemma counted_decrease [simp]:
  "decreaseCombinedStackSize (counted_stacks m c xs ys) main_stack d = counted_stacks m (c - d) xs ys"
  by (auto simp: counted_stacks_def fun_eq_iff decreaseCombinedStackSize.simps)

lemma counted_increase [simp]:
  "increaseCombinedStackSize (counted_stacks m c xs ys) main_stack d =
     (if c + d > m then Inl stack_overflow_error else Inr (counted_stacks m (c + d) xs ys))"
  by (auto simp: counted_stacks_def fun_eq_iff increaseCombinedStackSize.simps)

lemma counted_erase_sizes [simp]:
  "erase_sizes (counted_stacks m c xs ys) main_stack vs =
     counted_stacks m (c - sum_list (map (\<lambda>v. vsize v + ELEMENT_OVERHEAD) vs)) xs ys"
  by (induction vs arbitrary: c) simp_all

lemma counted_size [simp]:
  "stack_size (counted_stacks m c xs ys) main_stack = length xs"
  "stack_size (counted_stacks m c xs ys) alt_stack = length ys"
  by (simp_all add: stack_size_def)

text \<open>Each operation on the two stacks, as an operation on lists.\<close>

lemma push_back_two [stack_simps]:
  "stack_push_back (two_stacks m g xs ys) main_stack e =
     (if g + cost (xs @ [e]) + cost ys > m then Inl stack_overflow_error
      else Inr (two_stacks m g (xs @ [e]) ys))"
  by (simp add: stack_push_back_def two_stacks_def ac_simps)

lemma push_vector_two [stack_simps]:
  "stack_push_vector (two_stacks m g xs ys) main_stack (make_vector e main_stack) =
     (if g + cost (xs @ [e]) + cost ys > m then Inl stack_overflow_error
      else Inr (two_stacks m g (xs @ [e]) ys))"
  by (simp add: stack_push_vector_def two_stacks_def ac_simps)

lemma pop_back_two [stack_simps]:
  "stack_pop_back (two_stacks m g xs ys) main_stack =
     (if xs = [] then Inl std_exception else Inr (two_stacks m g (butlast xs) ys))"
proof (cases xs rule: rev_cases)
  case (snoc zs z)
  then show ?thesis
    by (auto simp: stack_pop_back_def two_stacks_def stacktop_def Let_def nth_append
        intro!: counted_cong)
qed (simp add: stack_pop_back_def stack_simps)

lemma erase_range_two [stack_simps]:
  assumes "b < a" "0 < b"
  shows "stack_erase_range (two_stacks m g xs ys) main_stack (- int a) (- int b) =
     (if length xs < a then Inl std_exception
      else Inr (two_stacks m g (take (length xs - a) xs @ drop (length xs - b) xs) ys))"
proof (cases "length xs < a")
  case False
  let ?f = "length xs - a" and ?l = "length xs - b"
  have l: "?l - ?f = a - b" "?f + (a - b) = ?l" using assms False by auto
  have "cost xs = cost (take ?f xs) + cost (take (a - b) (drop ?f xs)) + cost (drop ?l xs)"
    using cost_take_drop [of ?f xs] cost_take_drop [of "a - b" "drop ?f xs"] l
    by (simp add: add.commute)
  moreover have "nat (int (length xs) + - int a) = ?f" "nat (int (length xs) + - int b) = ?l"
    using False assms by auto
  ultimately show ?thesis
    using assms False l
    by (auto simp: stack_erase_range_def two_stacks_def Let_def intro!: counted_cong)
qed (use assms in \<open>simp add: stack_erase_range_def stack_simps\<close>)

lemma erase_two [stack_simps]:
  "stack_erase (two_stacks m g xs ys) main_stack (- int k) =
     (if 0 < k \<and> k \<le> length xs
      then Inr (two_stacks m g (take (length xs - k) xs @ drop (Suc (length xs - k)) xs) ys)
      else Inl std_exception)"
  using cost_nth [of "length xs - k" xs]
  by (auto simp: stack_erase_def two_stacks_def Let_def nat_diff_distrib intro!: counted_cong)

lemma insert_two [stack_simps]:
  assumes "0 < k" "k \<le> length xs"
  shows "stack_insert (two_stacks m g xs ys) main_stack (- int k) (make_vector e main_stack) =
     (if g + cost xs + (length e + 32) + cost ys > m then Inl stack_overflow_error
      else Inr (two_stacks m g (take (length xs - k) xs @ [e] @ drop (length xs - k) xs) ys))"
  using assms cost_take_drop [of "length xs - k" xs]
  by (auto simp: stack_insert_def two_stacks_def Let_def nat_diff_distrib intro!: counted_cong)

lemma swap_two [stack_simps]:
  assumes "i < length xs" "j < length xs"
  shows "swapElements (two_stacks m g xs ys) main_stack i j =
     Inr (two_stacks m g (xs[i := xs ! j, j := xs ! i]) ys)"
proof -
  have "cost (xs[i := xs ! j, j := xs ! i]) = cost xs"
    using assms cost_update [of i xs "xs ! j"] cost_update [of j "xs[i := xs ! j]" "xs ! i"]
    by (cases "i = j") auto
  then show ?thesis
    using assms by (simp add: swapElements_def two_stacks_def stack_at_def)
qed

lemma to_alt_two [stack_simps]:
  "moveTopToStack (two_stacks m g xs ys) alt_stack main_stack =
     (if xs = [] then Inl std_exception
      else Inr (two_stacks m g (butlast xs) (ys @ [last xs])))"
proof (cases xs rule: rev_cases)
  case (snoc zs z)
  then show ?thesis
    by (auto simp: moveTopToStack_def two_stacks_def stacktop_def Let_def nth_append
        intro!: counted_cong)
qed (simp add: moveTopToStack_def stack_simps)

lemma from_alt_two [stack_simps]:
  "moveTopToStack (two_stacks m g xs ys) main_stack alt_stack =
     (if ys = [] then Inl std_exception
      else Inr (two_stacks m g (xs @ [last ys]) (butlast ys)))"
proof (cases ys rule: rev_cases)
  case (snoc zs z)
  then show ?thesis
    by (auto simp: moveTopToStack_def two_stacks_def stacktop_def Let_def nth_append
        intro!: counted_cong)
qed (simp add: moveTopToStack_def stack_simps)

lemma set_element_two [stack_simps]:
  assumes "i < length xs" "length e = length (xs ! i)"
  shows "set_element (two_stacks m g xs ys) main_stack i e = two_stacks m g (xs[i := e]) ys"
  using assms cost_update [of i xs e]
  by (auto simp: two_stacks_def intro!: counted_cong)

lemma vector_append_two [stack_simps]:
  assumes "i < length xs"
  shows "vector_append (two_stacks m g xs ys) main_stack i (make_vector e main_stack) =
     (if g + cost xs + length e + cost ys > m then Inl stack_overflow_error
      else Inr (two_stacks m g (xs[i := xs ! i @ e]) ys))"
  using assms cost_update [of i xs "xs ! i @ e"]
  by (auto simp: vector_append_def two_stacks_def intro!: counted_cong)

lemma padRight_two [stack_simps]:
  assumes "i < length xs"
  shows "padRight (two_stacks m g xs ys) main_stack i n s =
     (if n \<le> length (xs ! i) then Inr (two_stacks m g xs ys)
      else if g + cost xs + (n - length (xs ! i)) + cost ys > m then Inl stack_overflow_error
      else Inr (two_stacks m g
        (xs[i := xs ! i @ replicate (n - length (xs ! i) - 1) 0 @ [s]]) ys))"
  using assms cost_update [of i xs "xs ! i @ replicate (n - length (xs ! i) - 1) 0 @ [s]"]
  by (auto simp: padRight_def two_stacks_def Let_def intro!: counted_cong)

lemma vector_MinimallyEncode_two [stack_simps]:
  assumes "i < length xs" "g + cost xs + cost ys \<le> m"
  shows "vector_MinimallyEncode (two_stacks m g xs ys) main_stack i =
     Inr (two_stacks m g (xs[i := sm_bytes (sm_val (xs ! i))]) ys, \<not> sm_min (xs ! i))"
proof -
  let ?e = "sm_bytes (sm_val (xs ! i))"
  have "length ?e \<le> length (xs ! i)" by (rule length_sm_bytes_sm_val)
  moreover have "length (xs ! i) + 32 \<le> cost xs" using assms by (rule_tac cost_nth_le)
  moreover note cost_update [of i xs ?e]
  ultimately show ?thesis
    using assms
    by (auto simp: vector_MinimallyEncode_def two_stacks_def MinimallyEncode_sm_bytes Let_def
        intro!: counted_cong)
qed

lemma vector_IsMinimallyEncoded_two [stack_simps]:
  "i < length xs \<Longrightarrow> vector_IsMinimallyEncoded (two_stacks m g xs ys) main_stack i n =
     IsMinimallyEncoded (xs ! i) n"
  by (simp add: vector_IsMinimallyEncoded_def stack_simps)

lemma makeChildStack_two [stack_simps]:
  "makeChildStack (two_stacks m g xs ys) main_stack 0 = (two_stacks m (g + cost ys) xs [], alt_stack)"
  by (auto simp: makeChildStack_def two_stacks_def counted_stacks_def fun_eq_iff)

lemma stack_new_two [stack_simps]:
  "stack_new (\<lambda>_. \<lparr>combinedStackSize = 0, maxStackSize = 0, elems = []\<rparr>) 0 m = two_stacks m 0 [] []"
  by (auto simp: stack_new_def two_stacks_def counted_stacks_def fun_eq_iff)

lemma MoveToValtypes_two [stack_simps]:
  "MoveToValtypes (two_stacks m g xs ys) main_stack vs = (two_stacks m g [] ys, vs @ xs)"
  using counted_set_elems(1) [of m "g + cost ys" xs ys "[]"]
  by (simp add: MoveToValtypes_def two_stacks_def)

lemma stack_push_all_two [stack_simps]:
  "g + cost xs + cost ys \<le> m \<Longrightarrow> stack_push_all (two_stacks m g xs ys) main_stack vs =
     (if g + cost (xs @ vs) + cost ys > m then Inl stack_overflow_error
      else Inr (two_stacks m g (xs @ vs) ys))"
  by (induction vs arbitrary: xs) (auto simp: stack_simps)

subsection \<open>Refinement of sequences of operations\<close>

text \<open>The calls the interpreter makes, as data, run on the store and on a pair of lists.\<close>

datatype stack_call =
  Push valtype | PushCopy nat | Pop | Erase nat | EraseRange nat nat | InsertTop nat
| Swap nat nat | ToAlt | FromAlt | AppendTop nat | PadTop nat byte | MinEncodeTop

fun run_call :: "stack_store \<Rightarrow> stack_call \<Rightarrow> cxx_exn + stack_store" where
  "run_call h (Push v) = stack_push_back h main_stack v"
| "run_call h (PushCopy k) = bindE (stacktop h main_stack (- int k)) (\<lambda>i.
     stack_push_vector h main_stack (elems (h main_stack) ! i))"
| "run_call h Pop = stack_pop_back h main_stack"
| "run_call h (Erase k) = stack_erase h main_stack (- int k)"
| "run_call h (EraseRange a b) = stack_erase_range h main_stack (- int a) (- int b)"
| "run_call h (InsertTop k) = bindE (stacktop h main_stack (- 1)) (\<lambda>i.
     stack_insert h main_stack (- int k) (elems (h main_stack) ! i))"
| "run_call h (Swap i j) = swapElements h main_stack i j"
| "run_call h ToAlt = moveTopToStack h alt_stack main_stack"
| "run_call h FromAlt = moveTopToStack h main_stack alt_stack"
| "run_call h (AppendTop k) = bindE (stacktop h main_stack (- int k)) (\<lambda>i.
     bindE (stacktop h main_stack (- 1)) (\<lambda>j.
       vector_append h main_stack i (elems (h main_stack) ! j)))"
| "run_call h (PadTop n s) = bindE (stacktop h main_stack (- 1)) (\<lambda>i. padRight h main_stack i n s)"
| "run_call h MinEncodeTop = bindE (stacktop h main_stack (- 1)) (\<lambda>i.
     bindE (vector_MinimallyEncode h main_stack i) (\<lambda>(h', _). Inr h'))"

definition limited :: "nat \<Rightarrow> valtype list \<times> valtype list \<Rightarrow> cxx_exn + valtype list \<times> valtype list" where
  "limited m s = (if cost (fst s) + cost (snd s) > m then Inl stack_overflow_error else Inr s)"

fun list_call :: "nat \<Rightarrow> valtype list \<times> valtype list \<Rightarrow> stack_call \<Rightarrow>
    cxx_exn + valtype list \<times> valtype list" where
  "list_call m (xs, ys) (Push v) = limited m (xs @ [v], ys)"
| "list_call m (xs, ys) (PushCopy k) =
     (if 0 < k \<and> k \<le> length xs then limited m (xs @ [xs ! (length xs - k)], ys)
      else Inl std_exception)"
| "list_call m (xs, ys) Pop = (if xs = [] then Inl std_exception else Inr (butlast xs, ys))"
| "list_call m (xs, ys) (Erase k) =
     (if 0 < k \<and> k \<le> length xs
      then Inr (take (length xs - k) xs @ drop (Suc (length xs - k)) xs, ys)
      else Inl std_exception)"
| "list_call m (xs, ys) (EraseRange a b) =
     (if 0 < b \<and> b < a \<and> a \<le> length xs
      then Inr (take (length xs - a) xs @ drop (length xs - b) xs, ys) else Inl std_exception)"
| "list_call m (xs, ys) (InsertTop k) =
     (if xs = [] \<or> k = 0 then Inl std_exception
      else if cost xs + (length (last xs) + 32) + cost ys > m then Inl stack_overflow_error
      else if k \<le> length xs
      then Inr (take (length xs - k) xs @ [last xs] @ drop (length xs - k) xs, ys)
      else Inl std_exception)"
| "list_call m (xs, ys) (Swap i j) =
     (if i < length xs \<and> j < length xs then Inr (xs[i := xs ! j, j := xs ! i], ys)
      else Inl std_exception)"
| "list_call m (xs, ys) ToAlt =
     (if xs = [] then Inl std_exception else Inr (butlast xs, ys @ [last xs]))"
| "list_call m (xs, ys) FromAlt =
     (if ys = [] then Inl std_exception else Inr (xs @ [last ys], butlast ys))"
| "list_call m (xs, ys) (AppendTop k) =
     (if 0 < k \<and> k \<le> length xs
      then limited m (xs[length xs - k := xs ! (length xs - k) @ last xs], ys)
      else Inl std_exception)"
| "list_call m (xs, ys) (PadTop n s) =
     (if xs = [] then Inl std_exception
      else if n \<le> length (last xs) then Inr (xs, ys)
      else limited m
        (butlast xs @ [last xs @ replicate (n - length (last xs) - 1) 0 @ [s]], ys))"
| "list_call m (xs, ys) MinEncodeTop =
     (if xs = [] then Inl std_exception
      else Inr (butlast xs @ [sm_bytes (sm_val (last xs))], ys))"

lemma limited_eq_Inr [simp]: "limited m s = Inr s' \<longleftrightarrow> s' = s \<and> cost (fst s) + cost (snd s) \<le> m"
  by (auto simp: limited_def)

lemma cost_butlast_last: "xs \<noteq> [] \<Longrightarrow> cost (butlast xs) + (length (last xs) + 32) = cost xs"
  by (cases xs rule: rev_cases) auto

lemma nth_last: "xs \<noteq> [] \<Longrightarrow> xs ! (length xs - Suc 0) = last xs"
  by (simp add: last_conv_nth)

lemma update_last: "xs \<noteq> [] \<Longrightarrow> xs[length xs - Suc 0 := e] = butlast xs @ [e]"
  by (cases xs rule: rev_cases) auto

lemma erase_range_two_all:
  "stack_erase_range (two_stacks m g xs ys) main_stack (- int a) (- int b) =
     (if 0 < b \<and> b < a \<and> a \<le> length xs
      then Inr (two_stacks m g (take (length xs - a) xs @ drop (length xs - b) xs) ys)
      else Inl std_exception)"
  using erase_range_two [of b a m g xs ys] by (auto simp: stack_erase_range_def)

lemma insert_two_all:
  "stack_insert (two_stacks m g xs ys) main_stack (- int k) (make_vector e main_stack) =
     (if k = 0 then Inl std_exception
      else if g + cost xs + (length e + 32) + cost ys > m then Inl stack_overflow_error
      else if k \<le> length xs
      then Inr (two_stacks m g (take (length xs - k) xs @ [e] @ drop (length xs - k) xs) ys)
      else Inl std_exception)"
  using insert_two [of k xs m g ys e] by (auto simp: stack_insert_def two_stacks_def)

lemma insert_zero: "stack_insert h r 0 v = Inl std_exception"
  by (simp add: stack_insert_def)

lemma swap_two_all:
  "swapElements (two_stacks m g xs ys) main_stack i j =
     (if i < length xs \<and> j < length xs then Inr (two_stacks m g (xs[i := xs ! j, j := xs ! i]) ys)
      else Inl std_exception)"
  using swap_two [of i xs j m g ys]
  by (auto simp: swapElements_def stack_at_def stack_simps)

lemma run_call_two:
  assumes "cost xs + cost ys \<le> m"
  shows "run_call (two_stacks m 0 xs ys) c =
     map_sum id (\<lambda>(xs, ys). two_stacks m 0 xs ys) (list_call m (xs, ys) c)"
proof (cases c)
  case (AppendTop k)
  then show ?thesis
    using assms cost_update [of "length xs - k" xs "xs ! (length xs - k) @ last xs"]
    by (auto simp: stack_simps limited_def nth_last)
next
  case (PadTop n s)
  show ?thesis
  proof (cases "xs = []")
    case False
    then show ?thesis
      using PadTop assms cost_butlast_last [of xs]
      by (auto simp: stack_simps limited_def nth_last update_last)
  qed (simp add: PadTop stack_simps)
qed (use assms in \<open>auto simp: stack_simps limited_def nth_last update_last
      erase_range_two_all insert_two_all insert_zero swap_two_all\<close>)

lemma cost_erase_le:
  assumes "i \<le> j"
  shows "cost (take i xs) + cost (drop j xs) \<le> cost xs"
proof -
  have "cost (drop j xs) \<le> cost (drop i xs)"
    using assms cost_take_drop [of "j - i" "drop i xs"] by simp
  then show ?thesis using cost_take_drop [of i xs] by simp
qed

lemma cost_swap:
  "i < length xs \<Longrightarrow> j < length xs \<Longrightarrow> cost (xs[i := xs ! j, j := xs ! i]) = cost xs"
  using cost_update [of i xs "xs ! j"] cost_update [of j "xs[i := xs ! j]" "xs ! i"]
  by (cases "i = j") auto

lemma list_call_limit:
  assumes "cost (fst s) + cost (snd s) \<le> m" "list_call m s c = Inr s'"
  shows "cost (fst s') + cost (snd s') \<le> m"
proof -
  obtain xs ys where s: "s = (xs, ys)" by (cases s)
  note le = cost_erase_le [of "length xs - k" "Suc (length xs - k)" xs for k]
    cost_erase_le [of "length xs - a" "length xs - b" xs for a b]
  show ?thesis
  proof (cases c)
    case (Erase k)
    then show ?thesis using assms s le(1) [of k] by (auto split: if_splits)
  next
    case (EraseRange a b)
    then show ?thesis using assms s le(2) [of a b] diff_le_mono2 [of b a "length xs"]
      by (auto split: if_splits)
  next
    case (InsertTop k)
    then show ?thesis
      using assms s cost_take_drop [of "length xs - k" xs] by (auto split: if_splits)
  next
    case (MinEncodeTop)
    then show ?thesis
      using assms s cost_butlast_last [of xs] length_sm_bytes_sm_val [of "last xs"]
      by (auto split: if_splits)
  qed (use assms s cost_butlast_last [of xs] cost_butlast_last [of ys] in
      \<open>auto simp: cost_swap split: if_splits\<close>)
qed

interpretation stacks: functional_refinement
  "\<lambda>(xs, ys). two_stacks m 0 xs ys" run_call "list_call m"
  "\<lambda>(xs, ys). cost xs + cost ys \<le> m" for m
  using list_call_limit [of _ m] by unfold_locales (auto simp: run_call_two)

text \<open>C20. From a fresh \<open>LimitedStack\<close> of limit \<open>m\<close>, any sequence of the calls the
  interpreter makes behaves, errors included, as the same calls on two plain lists whose
  total size (32 bytes of overhead per element) may not exceed \<open>m\<close>.\<close>

theorem limited_stack_refines_lists:
  "runE run_call (two_stacks m 0 [] []) cs =
     map_sum id (\<lambda>(xs, ys). two_stacks m 0 xs ys) (runE (list_call m) ([], []) cs)"
  using stacks.run_rep [of m "([], [])" cs] by simp

text \<open>The counter is exact and bounded: after any successful sequence of calls
  \<open>combinedStackSize\<close> is the memory of the two stacks and at most the limit.\<close>

theorem combined_size_exact:
  assumes "runE run_call (two_stacks m 0 [] []) cs = Inr h"
  shows "getCombinedStackSize h main_stack =
      cost (map stackElement (elems (h main_stack))) + cost (map stackElement (elems (h alt_stack)))
    \<and> getCombinedStackSize h alt_stack = getCombinedStackSize h main_stack
    \<and> getCombinedStackSize h main_stack \<le> m"
proof -
  obtain xs ys where r: "runE (list_call m) ([], []) cs = Inr (xs, ys)"
      and h: "h = two_stacks m 0 xs ys"
    using assms stacks.run_rep [of m "([], [])" cs]
    by (cases "runE (list_call m) ([], []) cs") auto
  have "cost xs + cost ys \<le> m" using stacks.run_inv [OF _ r] by simp
  then show ?thesis by (simp add: h two_stacks_def counted_stacks_def)
qed

theorem combined_size_exact_witness:
  "\<exists>h. runE run_call (two_stacks 100 0 [] []) [Push [1, 2], ToAlt, Push [3]] = Inr h \<and>
     getCombinedStackSize h main_stack = 67"
proof -
  let ?h = "two_stacks 100 0 [[3]] [[1, 2]]"
  have "runE run_call (two_stacks 100 0 [] []) [Push [1, 2], ToAlt, Push [3]] = Inr ?h"
    by (simp add: stack_simps)
  from this combined_size_exact [OF this] show ?thesis by (auto simp: stack_simps)
qed

end
