(* ===== verification/Sha512.thy ===== *)
theory Sha512
  imports Sha2_Core Hash_Stream
begin

text \<open>
  \<open>src/src/crypto/sha512.cpp\<close>: SHA-512 and the class \<open>CSHA512\<close>.  \<open>sha512_program\<close> is the
  body of \<open>sha512::Transform\<close>, one entry per call of \<open>Round\<close> (registers a to h are numbered
  0 to 7).
\<close>

subsection \<open>Compression\<close>

definition sha512_Ch :: "u64 \<Rightarrow> u64 \<Rightarrow> u64 \<Rightarrow> u64" where
  "sha512_Ch x y z = z XOR (x AND (y XOR z))"

definition sha512_Maj :: "u64 \<Rightarrow> u64 \<Rightarrow> u64 \<Rightarrow> u64" where
  "sha512_Maj x y z = (x AND y) OR (z AND (x OR y))"

definition sha512_Sigma0 :: "u64 \<Rightarrow> u64" where
  "sha512_Sigma0 x = (drop_bit 28 x OR push_bit 36 x) XOR (drop_bit 34 x OR push_bit 30 x) XOR
     (drop_bit 39 x OR push_bit 25 x)"

definition sha512_Sigma1 :: "u64 \<Rightarrow> u64" where
  "sha512_Sigma1 x = (drop_bit 14 x OR push_bit 50 x) XOR (drop_bit 18 x OR push_bit 46 x) XOR
     (drop_bit 41 x OR push_bit 23 x)"

definition sha512_sigma0 :: "u64 \<Rightarrow> u64" where
  "sha512_sigma0 x = (drop_bit 1 x OR push_bit 63 x) XOR (drop_bit 8 x OR push_bit 56 x) XOR
     drop_bit 7 x"

definition sha512_sigma1 :: "u64 \<Rightarrow> u64" where
  "sha512_sigma1 x = (drop_bit 19 x OR push_bit 45 x) XOR (drop_bit 61 x OR push_bit 3 x) XOR
     drop_bit 6 x"

definition sha512_Round :: "u64 list \<Rightarrow> nat list \<Rightarrow> u64 \<Rightarrow> u64 \<Rightarrow> u64 list" where
  "sha512_Round regs args k w =
     (let a = regs ! (args ! 0); b = regs ! (args ! 1); c = regs ! (args ! 2);
          e = regs ! (args ! 4); f = regs ! (args ! 5); g = regs ! (args ! 6);
          t1 = regs ! (args ! 7) + sha512_Sigma1 e + sha512_Ch e f g + k + w;
          t2 = sha512_Sigma0 a + sha512_Maj a b c
      in regs[args ! 3 := regs ! (args ! 3) + t1, args ! 7 := t1 + t2])"

definition sha512_Initialize :: "u64 list" where
  "sha512_Initialize = [0x6a09e667f3bcc908, 0xbb67ae8584caa73b, 0x3c6ef372fe94f82b, 0xa54ff53a5f1d36f1,
     0x510e527fade682d1, 0x9b05688c2b3e6c1f, 0x1f83d9abfb41bd6b, 0x5be0cd19137e2179]"

definition sha512_program :: "u64 sha2_line list" where
  "sha512_program =
  [([0, 1, 2, 3, 4, 5, 6, 7], 0x428a2f98d728ae22, WRead 0 0),
   ([7, 0, 1, 2, 3, 4, 5, 6], 0x7137449123ef65cd, WRead 1 8),
   ([6, 7, 0, 1, 2, 3, 4, 5], 0xb5c0fbcfec4d3b2f, WRead 2 16),
   ([5, 6, 7, 0, 1, 2, 3, 4], 0xe9b5dba58189dbbc, WRead 3 24),
   ([4, 5, 6, 7, 0, 1, 2, 3], 0x3956c25bf348b538, WRead 4 32),
   ([3, 4, 5, 6, 7, 0, 1, 2], 0x59f111f1b605d019, WRead 5 40),
   ([2, 3, 4, 5, 6, 7, 0, 1], 0x923f82a4af194f9b, WRead 6 48),
   ([1, 2, 3, 4, 5, 6, 7, 0], 0xab1c5ed5da6d8118, WRead 7 56),
   ([0, 1, 2, 3, 4, 5, 6, 7], 0xd807aa98a3030242, WRead 8 64),
   ([7, 0, 1, 2, 3, 4, 5, 6], 0x12835b0145706fbe, WRead 9 72),
   ([6, 7, 0, 1, 2, 3, 4, 5], 0x243185be4ee4b28c, WRead 10 80),
   ([5, 6, 7, 0, 1, 2, 3, 4], 0x550c7dc3d5ffb4e2, WRead 11 88),
   ([4, 5, 6, 7, 0, 1, 2, 3], 0x72be5d74f27b896f, WRead 12 96),
   ([3, 4, 5, 6, 7, 0, 1, 2], 0x80deb1fe3b1696b1, WRead 13 104),
   ([2, 3, 4, 5, 6, 7, 0, 1], 0x9bdc06a725c71235, WRead 14 112),
   ([1, 2, 3, 4, 5, 6, 7, 0], 0xc19bf174cf692694, WRead 15 120),
   ([0, 1, 2, 3, 4, 5, 6, 7], 0xe49b69c19ef14ad2, WUpdate 0 14 9 1),
   ([7, 0, 1, 2, 3, 4, 5, 6], 0xefbe4786384f25e3, WUpdate 1 15 10 2),
   ([6, 7, 0, 1, 2, 3, 4, 5], 0x0fc19dc68b8cd5b5, WUpdate 2 0 11 3),
   ([5, 6, 7, 0, 1, 2, 3, 4], 0x240ca1cc77ac9c65, WUpdate 3 1 12 4),
   ([4, 5, 6, 7, 0, 1, 2, 3], 0x2de92c6f592b0275, WUpdate 4 2 13 5),
   ([3, 4, 5, 6, 7, 0, 1, 2], 0x4a7484aa6ea6e483, WUpdate 5 3 14 6),
   ([2, 3, 4, 5, 6, 7, 0, 1], 0x5cb0a9dcbd41fbd4, WUpdate 6 4 15 7),
   ([1, 2, 3, 4, 5, 6, 7, 0], 0x76f988da831153b5, WUpdate 7 5 0 8),
   ([0, 1, 2, 3, 4, 5, 6, 7], 0x983e5152ee66dfab, WUpdate 8 6 1 9),
   ([7, 0, 1, 2, 3, 4, 5, 6], 0xa831c66d2db43210, WUpdate 9 7 2 10),
   ([6, 7, 0, 1, 2, 3, 4, 5], 0xb00327c898fb213f, WUpdate 10 8 3 11),
   ([5, 6, 7, 0, 1, 2, 3, 4], 0xbf597fc7beef0ee4, WUpdate 11 9 4 12),
   ([4, 5, 6, 7, 0, 1, 2, 3], 0xc6e00bf33da88fc2, WUpdate 12 10 5 13),
   ([3, 4, 5, 6, 7, 0, 1, 2], 0xd5a79147930aa725, WUpdate 13 11 6 14),
   ([2, 3, 4, 5, 6, 7, 0, 1], 0x06ca6351e003826f, WUpdate 14 12 7 15),
   ([1, 2, 3, 4, 5, 6, 7, 0], 0x142929670a0e6e70, WUpdate 15 13 8 0),
   ([0, 1, 2, 3, 4, 5, 6, 7], 0x27b70a8546d22ffc, WUpdate 0 14 9 1),
   ([7, 0, 1, 2, 3, 4, 5, 6], 0x2e1b21385c26c926, WUpdate 1 15 10 2),
   ([6, 7, 0, 1, 2, 3, 4, 5], 0x4d2c6dfc5ac42aed, WUpdate 2 0 11 3),
   ([5, 6, 7, 0, 1, 2, 3, 4], 0x53380d139d95b3df, WUpdate 3 1 12 4),
   ([4, 5, 6, 7, 0, 1, 2, 3], 0x650a73548baf63de, WUpdate 4 2 13 5),
   ([3, 4, 5, 6, 7, 0, 1, 2], 0x766a0abb3c77b2a8, WUpdate 5 3 14 6),
   ([2, 3, 4, 5, 6, 7, 0, 1], 0x81c2c92e47edaee6, WUpdate 6 4 15 7),
   ([1, 2, 3, 4, 5, 6, 7, 0], 0x92722c851482353b, WUpdate 7 5 0 8),
   ([0, 1, 2, 3, 4, 5, 6, 7], 0xa2bfe8a14cf10364, WUpdate 8 6 1 9),
   ([7, 0, 1, 2, 3, 4, 5, 6], 0xa81a664bbc423001, WUpdate 9 7 2 10),
   ([6, 7, 0, 1, 2, 3, 4, 5], 0xc24b8b70d0f89791, WUpdate 10 8 3 11),
   ([5, 6, 7, 0, 1, 2, 3, 4], 0xc76c51a30654be30, WUpdate 11 9 4 12),
   ([4, 5, 6, 7, 0, 1, 2, 3], 0xd192e819d6ef5218, WUpdate 12 10 5 13),
   ([3, 4, 5, 6, 7, 0, 1, 2], 0xd69906245565a910, WUpdate 13 11 6 14),
   ([2, 3, 4, 5, 6, 7, 0, 1], 0xf40e35855771202a, WUpdate 14 12 7 15),
   ([1, 2, 3, 4, 5, 6, 7, 0], 0x106aa07032bbd1b8, WUpdate 15 13 8 0),
   ([0, 1, 2, 3, 4, 5, 6, 7], 0x19a4c116b8d2d0c8, WUpdate 0 14 9 1),
   ([7, 0, 1, 2, 3, 4, 5, 6], 0x1e376c085141ab53, WUpdate 1 15 10 2),
   ([6, 7, 0, 1, 2, 3, 4, 5], 0x2748774cdf8eeb99, WUpdate 2 0 11 3),
   ([5, 6, 7, 0, 1, 2, 3, 4], 0x34b0bcb5e19b48a8, WUpdate 3 1 12 4),
   ([4, 5, 6, 7, 0, 1, 2, 3], 0x391c0cb3c5c95a63, WUpdate 4 2 13 5),
   ([3, 4, 5, 6, 7, 0, 1, 2], 0x4ed8aa4ae3418acb, WUpdate 5 3 14 6),
   ([2, 3, 4, 5, 6, 7, 0, 1], 0x5b9cca4f7763e373, WUpdate 6 4 15 7),
   ([1, 2, 3, 4, 5, 6, 7, 0], 0x682e6ff3d6b2b8a3, WUpdate 7 5 0 8),
   ([0, 1, 2, 3, 4, 5, 6, 7], 0x748f82ee5defb2fc, WUpdate 8 6 1 9),
   ([7, 0, 1, 2, 3, 4, 5, 6], 0x78a5636f43172f60, WUpdate 9 7 2 10),
   ([6, 7, 0, 1, 2, 3, 4, 5], 0x84c87814a1f0ab72, WUpdate 10 8 3 11),
   ([5, 6, 7, 0, 1, 2, 3, 4], 0x8cc702081a6439ec, WUpdate 11 9 4 12),
   ([4, 5, 6, 7, 0, 1, 2, 3], 0x90befffa23631e28, WUpdate 12 10 5 13),
   ([3, 4, 5, 6, 7, 0, 1, 2], 0xa4506cebde82bde9, WUpdate 13 11 6 14),
   ([2, 3, 4, 5, 6, 7, 0, 1], 0xbef9a3f7b2c67915, WUpdate 14 12 7 15),
   ([1, 2, 3, 4, 5, 6, 7, 0], 0xc67178f2e372532b, WUpdate 15 13 8 0),
   ([0, 1, 2, 3, 4, 5, 6, 7], 0xca273eceea26619c, WUpdate 0 14 9 1),
   ([7, 0, 1, 2, 3, 4, 5, 6], 0xd186b8c721c0c207, WUpdate 1 15 10 2),
   ([6, 7, 0, 1, 2, 3, 4, 5], 0xeada7dd6cde0eb1e, WUpdate 2 0 11 3),
   ([5, 6, 7, 0, 1, 2, 3, 4], 0xf57d4f7fee6ed178, WUpdate 3 1 12 4),
   ([4, 5, 6, 7, 0, 1, 2, 3], 0x06f067aa72176fba, WUpdate 4 2 13 5),
   ([3, 4, 5, 6, 7, 0, 1, 2], 0x0a637dc5a2c898a6, WUpdate 5 3 14 6),
   ([2, 3, 4, 5, 6, 7, 0, 1], 0x113f9804bef90dae, WUpdate 6 4 15 7),
   ([1, 2, 3, 4, 5, 6, 7, 0], 0x1b710b35131c471b, WUpdate 7 5 0 8),
   ([0, 1, 2, 3, 4, 5, 6, 7], 0x28db77f523047d84, WUpdate 8 6 1 9),
   ([7, 0, 1, 2, 3, 4, 5, 6], 0x32caab7b40c72493, WUpdate 9 7 2 10),
   ([6, 7, 0, 1, 2, 3, 4, 5], 0x3c9ebe0a15c9bebc, WUpdate 10 8 3 11),
   ([5, 6, 7, 0, 1, 2, 3, 4], 0x431d67c49c100d4c, WUpdate 11 9 4 12),
   ([4, 5, 6, 7, 0, 1, 2, 3], 0x4cc5d4becb3e42b6, WUpdate 12 10 5 13),
   ([3, 4, 5, 6, 7, 0, 1, 2], 0x597f299cfc657e2a, WUpdate 13 11 6 14),
   ([2, 3, 4, 5, 6, 7, 0, 1], 0x5fcb6fab3ad6faec, WSum 14 12 7 15),
   ([1, 2, 3, 4, 5, 6, 7, 0], 0x6c44198c4a475817, WSum 15 13 8 0)]"

definition sha512_step :: "byte list \<Rightarrow> u64 list \<times> u64 list \<Rightarrow> u64 sha2_line \<Rightarrow> u64 list \<times> u64 list" where
  "sha512_step chunk = (\<lambda>(regs, ws) (args, k, e).
     let (v, ws') = sha2_word sha512_sigma0 sha512_sigma1 ReadBE64 chunk ws e
     in (sha512_Round regs args k v, ws'))"

definition sha512_chunk :: "u64 list \<Rightarrow> byte list \<Rightarrow> u64 list" where
  "sha512_chunk s chunk =
     (let (regs, _) = foldl (sha512_step chunk) (s, replicate 16 0) sha512_program
      in map2 (+) s regs)"

subsection \<open>The class \<open>CSHA512\<close>\<close>

type_synonym CSHA512 = "u64 hasher"

definition CSHA512_new :: CSHA512 where
  "CSHA512_new = \<lparr>h_s = sha512_Initialize, h_buf = replicate 128 0, h_bytes = 0\<rparr>"

definition CSHA512_Write :: "CSHA512 \<Rightarrow> byte list \<Rightarrow> CSHA512" where
  "CSHA512_Write = hash_write 128 sha512_chunk"

text \<open>\<open>Finalize\<close> leaves the padded state behind; \<open>Reset\<close> keeps the buffer.\<close>

definition CSHA512_Finalize :: "CSHA512 \<Rightarrow> byte list \<times> CSHA512" where
  "CSHA512_Finalize h =
     (let sizedesc = replicate 8 0 @ WriteBE64 (push_bit 3 (h_bytes h));
          h = CSHA512_Write h (0x80 # replicate ((239 - unat (h_bytes h) mod 128) mod 128) 0);
          h = CSHA512_Write h sizedesc
      in (concat (map WriteBE64 (h_s h)), h))"

definition CSHA512_Reset :: "CSHA512 \<Rightarrow> CSHA512" where
  "CSHA512_Reset h = h\<lparr>h_bytes := 0, h_s := sha512_Initialize\<rparr>"

subsection \<open>The compression function is SHA-512's\<close>

definition sha512_K :: "u64 list" where
  "sha512_K = map (\<lambda>p. word_of_int (cbrt_fraction 64 p)) first_primes"

text \<open>The reference is the text of FIPS 180-4 and shares no function with the code: rotations,
  \<open>Ch\<close> and \<open>Maj\<close> as the standard writes them, constants from the roots of the primes, big-endian
  words.\<close>

definition sha512_compress :: "u64 list \<Rightarrow> byte list \<Rightarrow> u64 list" where
  "sha512_compress s chunk = map2 (+) s
     (std_rounds (fips_Sigma 28 34 39) (fips_Sigma 14 18 41) fips_Ch fips_Maj sha512_K
        (schedule (fips_sigma 1 8 7) (fips_sigma 19 61 6)
          (\<lambda>i. word_of_nat (be_nat (take 8 (drop (8 * i) chunk))))) s 80)"

lemma sha512_Sigmas:
  "sha512_Sigma0 x = fips_Sigma 28 34 39 x" "sha512_Sigma1 x = fips_Sigma 14 18 41 x"
  "sha512_sigma0 x = fips_sigma 1 8 7 x" "sha512_sigma1 x = fips_sigma 19 61 6 x"
  unfolding sha512_Sigma0_def sha512_Sigma1_def sha512_sigma0_def sha512_sigma1_def fips_Sigma_def fips_sigma_def
  by (intro arg_cong2 [where f = "(XOR)"] refl shifts_rotr; simp)+

lemma sha512_functions:
  "sha512_Ch = fips_Ch" "sha512_Maj = fips_Maj"
  "sha512_Sigma0 = fips_Sigma 28 34 39" "sha512_Sigma1 = fips_Sigma 14 18 41"
  "sha512_sigma0 = fips_sigma 1 8 7" "sha512_sigma1 = fips_sigma 19 61 6"
  by (simp_all add: fun_eq_iff sha512_Ch_def Ch_fips sha512_Maj_def Maj_fips sha512_Sigmas)

lemma sha512_initial: "sha512_Initialize = fips_initial 64"
proof (rule initial_words [symmetric])
  show "list_all2 (\<lambda>p k. sqrt_certificate 64 p (uint k)) (take 8 first_primes) sha512_Initialize"
    unfolding sha512_Initialize_def by code_simp
qed

lemma sha512_K_program: "sha512_K = map (\<lambda>(_, k, _). k) sha512_program"
  unfolding sha512_K_def
proof (rule round_constants)
  show "list_all2 (\<lambda>p k. cbrt_certificate 64 p (uint k)) first_primes (map (\<lambda>(_, k, _). k) sha512_program)"
    unfolding sha512_program_def list.map prod.case by code_simp
qed

lemma sha512_regular: "regular 80 8 sha512_K sha512_program"
  unfolding regular_def sha512_K_program by code_simp

lemma sha512_step_generic:
  "sha512_step = sha2_step sha512_Sigma0 sha512_Sigma1 sha512_Ch sha512_Maj sha512_sigma0
     sha512_sigma1 ReadBE64"
  by (simp add: fun_eq_iff sha512_step_def sha2_step_def sha512_Round_def sha2_Round_def Let_def)

lemma rotated_80: "length regs = 8 \<Longrightarrow> rotated 80 regs = regs"
  using rotated_0 roles_mod [of 80] by (simp add: rotated_def)

text \<open>The unrolled \<open>Transform\<close>, with rotating register roles and sixteen schedule
  variables updated in place, is the compression function of the standard.\<close>

lemma sha512_chunk_compress:
  assumes "length s = 8"
  shows "sha512_chunk s chunk = sha512_compress s chunk"
proof -
  obtain regs ws where "foldl (sha512_step chunk) (s, replicate 16 0) (take 80 sha512_program) = (regs, ws)"
    "length regs = 8" "rotated 80 regs = std_rounds sha512_Sigma0 sha512_Sigma1 sha512_Ch sha512_Maj
       sha512_K (schedule sha512_sigma0 sha512_sigma1 (\<lambda>i. ReadBE64 (drop (8 * i) chunk))) s 80"
    using regular_run [OF sha512_regular assms, of "replicate 16 0" _ _ _ _ _ 80] 
    unfolding sha512_step_generic by fastforce
  moreover have "take 80 sha512_program = sha512_program" by (simp add: sha512_program_def)
  ultimately show ?thesis
    by (simp add: sha512_chunk_def sha512_compress_def sha512_functions ReadBE64_def rotated_80)
qed

subsection \<open>Streaming\<close>

interpretation sha512_stream: block_hash 128 sha512_chunk sha512_Initialize
  by unfold_locales (simp_all add: dvd_def exI [of _ "2 ^ 57"])

text \<open>The standard's padding and digest.\<close>

definition sha512_pad :: "byte list \<Rightarrow> byte list" where
  "sha512_pad m = m @ [0x80] @ replicate (nat ((111 - int (length m)) mod 128)) 0 @
     replicate 8 0 @ be_bytes 8 (8 * length m)"

definition sha512_digest :: "byte list \<Rightarrow> byte list" where
  "sha512_digest m = concat (map (\<lambda>x. be_bytes 8 (unat x))
     (chain 128 sha512_compress (fips_initial 64) (sha512_pad m)))"

lemma length_sha512_chunk: "length s = 8 \<Longrightarrow> length (sha512_chunk s c) = 8"
proof -
  assume s: "length s = 8"
  obtain regs ws where "foldl (sha512_step c) (s, replicate 16 0) (take 80 sha512_program) = (regs, ws)"
    "length regs = 8"
    using regular_run [OF sha512_regular s, of "replicate 16 0" _ _ _ _ _ 80]
    unfolding sha512_step_generic by fastforce
  moreover have "take 80 sha512_program = sha512_program" by (simp add: sha512_program_def)
  ultimately show ?thesis using s by (simp add: sha512_chunk_def)
qed

lemma sha512_foldl_compress:
  "length s = 8 \<Longrightarrow> foldl sha512_chunk s bs = foldl sha512_compress s bs"
proof (induction bs arbitrary: s)
  case (Cons b bs)
  then show ?case using length_sha512_chunk [of s b] sha512_chunk_compress [of s b] by simp
qed simp

lemma sha512_chain_compress:
  "chain 128 sha512_chunk sha512_Initialize m = chain 128 sha512_compress sha512_Initialize m"
  unfolding chain_def by (rule sha512_foldl_compress) (simp add: sha512_Initialize_def)

lemma sha512_pad_code:
  "sha512_pad m = m @ (0x80 # replicate ((239 - length m mod 128) mod 128) 0) @ replicate 8 0 @
     WriteBE64 (word_of_nat (8 * length m))"
proof -
  have "nat ((111 - int (length m)) mod 128) = (239 - length m mod 128) mod 128"
    using pad_length [of 128 111 "length m"] by simp
  moreover have "be_bytes 8 (8 * length m) = WriteBE64 (word_of_nat (8 * length m))"
    by (rule WriteBE64_of_nat [symmetric])
  ultimately show ?thesis by (simp add: sha512_pad_def)
qed

lemma CSHA512_Finalize_hasher:
  assumes "hasher_of 128 sha512_chunk sha512_Initialize m h"
  shows "fst (CSHA512_Finalize h) = sha512_digest m"
proof -
  have "h_bytes h = word_of_nat (length m)" using assms by (simp add: hasher_of_def)
  then have "push_bit 3 (h_bytes h) = word_of_nat (8 * length m)"
    by (simp add: push_bit_eq_mult)
  moreover note sha512_stream.bytes_mod [OF assms] sha512_stream.state_after_writes [OF assms]
  ultimately show ?thesis
    by (simp add: CSHA512_Finalize_def CSHA512_Write_def Let_def sha512_digest_def sha512_pad_code
        WriteBE64_def [abs_def] sha512_chain_compress sha512_initial [symmetric])
qed

lemma CSHA512_new_hasher: "hasher_of 128 sha512_chunk sha512_Initialize [] CSHA512_new"
  unfolding CSHA512_new_def by (rule sha512_stream.fresh_hasher) simp

text \<open>However a message is cut into \<open>Write\<close> calls, \<open>Finalize\<close> returns the SHA-512 digest
  of the message as the standard defines it (padding, block chaining, big-endian output).\<close>

theorem CSHA512_streaming:
  "fst (CSHA512_Finalize (foldl CSHA512_Write CSHA512_new chunks)) = sha512_digest (concat chunks)"
  using CSHA512_Finalize_hasher [OF sha512_stream.writes_hasher [OF CSHA512_new_hasher]]
  by (simp add: CSHA512_Write_def)

end
