(* ===== verification/Sha1.thy ===== *)
theory Sha1
  imports Sha2_Core Hash_Stream
begin

text \<open>
  \<open>src/src/crypto/sha1.cpp\<close>: SHA-1 and the class \<open>CSHA1\<close>.  \<open>sha1_program\<close> is the body of
  \<open>sha1::Transform\<close>, one entry per call of \<open>Round\<close> (registers a to e are numbered 0 to 4):
  the arguments, the selector function with its arguments, the constant, the schedule
  expression.
\<close>

subsection \<open>Compression\<close>

definition sha1_Round :: "u32 list \<Rightarrow> nat list \<Rightarrow> u32 \<Rightarrow> u32 \<Rightarrow> u32 \<Rightarrow> u32 list" where
  "sha1_Round regs args f k w =
     (let a = regs ! (args ! 0); b = regs ! (args ! 1); e = regs ! (args ! 4)
      in regs[args ! 4 := e + ((push_bit 5 a OR drop_bit 27 a) + f + k + w),
              args ! 1 := push_bit 30 b OR drop_bit 2 b])"

definition sha1_f1 :: "u32 \<Rightarrow> u32 \<Rightarrow> u32 \<Rightarrow> u32" where "sha1_f1 b c d = d XOR (b AND (c XOR d))"
definition sha1_f2 :: "u32 \<Rightarrow> u32 \<Rightarrow> u32 \<Rightarrow> u32" where "sha1_f2 b c d = b XOR c XOR d"
definition sha1_f3 :: "u32 \<Rightarrow> u32 \<Rightarrow> u32 \<Rightarrow> u32" where "sha1_f3 b c d = (b AND c) OR (d AND (b OR c))"

definition sha1_left :: "u32 \<Rightarrow> u32" where "sha1_left x = push_bit 1 x OR drop_bit 31 x"

definition sha1_Initialize :: "u32 list" where
  "sha1_Initialize = [0x67452301, 0xEFCDAB89, 0x98BADCFE, 0x10325476, 0xC3D2E1F0]"

abbreviation (input) sha1_k1 :: u32 where "sha1_k1 \<equiv> 0x5A827999"
abbreviation (input) sha1_k2 :: u32 where "sha1_k2 \<equiv> 0x6ED9EBA1"
abbreviation (input) sha1_k3 :: u32 where "sha1_k3 \<equiv> 0x8F1BBCDC"
abbreviation (input) sha1_k4 :: u32 where "sha1_k4 \<equiv> 0xCA62C1D6"

type_synonym sha1_line = "nat list \<times> (u32 \<Rightarrow> u32 \<Rightarrow> u32 \<Rightarrow> u32) \<times> nat list \<times> u32 \<times> wexpr"

definition sha1_program :: "sha1_line list" where
  "sha1_program =
  [([0, 1, 2, 3, 4], sha1_f1, [1, 2, 3], sha1_k1, WRead 0 0),
   ([4, 0, 1, 2, 3], sha1_f1, [0, 1, 2], sha1_k1, WRead 1 4),
   ([3, 4, 0, 1, 2], sha1_f1, [4, 0, 1], sha1_k1, WRead 2 8),
   ([2, 3, 4, 0, 1], sha1_f1, [3, 4, 0], sha1_k1, WRead 3 12),
   ([1, 2, 3, 4, 0], sha1_f1, [2, 3, 4], sha1_k1, WRead 4 16),
   ([0, 1, 2, 3, 4], sha1_f1, [1, 2, 3], sha1_k1, WRead 5 20),
   ([4, 0, 1, 2, 3], sha1_f1, [0, 1, 2], sha1_k1, WRead 6 24),
   ([3, 4, 0, 1, 2], sha1_f1, [4, 0, 1], sha1_k1, WRead 7 28),
   ([2, 3, 4, 0, 1], sha1_f1, [3, 4, 0], sha1_k1, WRead 8 32),
   ([1, 2, 3, 4, 0], sha1_f1, [2, 3, 4], sha1_k1, WRead 9 36),
   ([0, 1, 2, 3, 4], sha1_f1, [1, 2, 3], sha1_k1, WRead 10 40),
   ([4, 0, 1, 2, 3], sha1_f1, [0, 1, 2], sha1_k1, WRead 11 44),
   ([3, 4, 0, 1, 2], sha1_f1, [4, 0, 1], sha1_k1, WRead 12 48),
   ([2, 3, 4, 0, 1], sha1_f1, [3, 4, 0], sha1_k1, WRead 13 52),
   ([1, 2, 3, 4, 0], sha1_f1, [2, 3, 4], sha1_k1, WRead 14 56),
   ([0, 1, 2, 3, 4], sha1_f1, [1, 2, 3], sha1_k1, WRead 15 60),
   ([4, 0, 1, 2, 3], sha1_f1, [0, 1, 2], sha1_k1, WUpdate 0 13 8 2),
   ([3, 4, 0, 1, 2], sha1_f1, [4, 0, 1], sha1_k1, WUpdate 1 14 9 3),
   ([2, 3, 4, 0, 1], sha1_f1, [3, 4, 0], sha1_k1, WUpdate 2 15 10 4),
   ([1, 2, 3, 4, 0], sha1_f1, [2, 3, 4], sha1_k1, WUpdate 3 0 11 5),
   ([0, 1, 2, 3, 4], sha1_f2, [1, 2, 3], sha1_k2, WUpdate 4 1 12 6),
   ([4, 0, 1, 2, 3], sha1_f2, [0, 1, 2], sha1_k2, WUpdate 5 2 13 7),
   ([3, 4, 0, 1, 2], sha1_f2, [4, 0, 1], sha1_k2, WUpdate 6 3 14 8),
   ([2, 3, 4, 0, 1], sha1_f2, [3, 4, 0], sha1_k2, WUpdate 7 4 15 9),
   ([1, 2, 3, 4, 0], sha1_f2, [2, 3, 4], sha1_k2, WUpdate 8 5 0 10),
   ([0, 1, 2, 3, 4], sha1_f2, [1, 2, 3], sha1_k2, WUpdate 9 6 1 11),
   ([4, 0, 1, 2, 3], sha1_f2, [0, 1, 2], sha1_k2, WUpdate 10 7 2 12),
   ([3, 4, 0, 1, 2], sha1_f2, [4, 0, 1], sha1_k2, WUpdate 11 8 3 13),
   ([2, 3, 4, 0, 1], sha1_f2, [3, 4, 0], sha1_k2, WUpdate 12 9 4 14),
   ([1, 2, 3, 4, 0], sha1_f2, [2, 3, 4], sha1_k2, WUpdate 13 10 5 15),
   ([0, 1, 2, 3, 4], sha1_f2, [1, 2, 3], sha1_k2, WUpdate 14 11 6 0),
   ([4, 0, 1, 2, 3], sha1_f2, [0, 1, 2], sha1_k2, WUpdate 15 12 7 1),
   ([3, 4, 0, 1, 2], sha1_f2, [4, 0, 1], sha1_k2, WUpdate 0 13 8 2),
   ([2, 3, 4, 0, 1], sha1_f2, [3, 4, 0], sha1_k2, WUpdate 1 14 9 3),
   ([1, 2, 3, 4, 0], sha1_f2, [2, 3, 4], sha1_k2, WUpdate 2 15 10 4),
   ([0, 1, 2, 3, 4], sha1_f2, [1, 2, 3], sha1_k2, WUpdate 3 0 11 5),
   ([4, 0, 1, 2, 3], sha1_f2, [0, 1, 2], sha1_k2, WUpdate 4 1 12 6),
   ([3, 4, 0, 1, 2], sha1_f2, [4, 0, 1], sha1_k2, WUpdate 5 2 13 7),
   ([2, 3, 4, 0, 1], sha1_f2, [3, 4, 0], sha1_k2, WUpdate 6 3 14 8),
   ([1, 2, 3, 4, 0], sha1_f2, [2, 3, 4], sha1_k2, WUpdate 7 4 15 9),
   ([0, 1, 2, 3, 4], sha1_f3, [1, 2, 3], sha1_k3, WUpdate 8 5 0 10),
   ([4, 0, 1, 2, 3], sha1_f3, [0, 1, 2], sha1_k3, WUpdate 9 6 1 11),
   ([3, 4, 0, 1, 2], sha1_f3, [4, 0, 1], sha1_k3, WUpdate 10 7 2 12),
   ([2, 3, 4, 0, 1], sha1_f3, [3, 4, 0], sha1_k3, WUpdate 11 8 3 13),
   ([1, 2, 3, 4, 0], sha1_f3, [2, 3, 4], sha1_k3, WUpdate 12 9 4 14),
   ([0, 1, 2, 3, 4], sha1_f3, [1, 2, 3], sha1_k3, WUpdate 13 10 5 15),
   ([4, 0, 1, 2, 3], sha1_f3, [0, 1, 2], sha1_k3, WUpdate 14 11 6 0),
   ([3, 4, 0, 1, 2], sha1_f3, [4, 0, 1], sha1_k3, WUpdate 15 12 7 1),
   ([2, 3, 4, 0, 1], sha1_f3, [3, 4, 0], sha1_k3, WUpdate 0 13 8 2),
   ([1, 2, 3, 4, 0], sha1_f3, [2, 3, 4], sha1_k3, WUpdate 1 14 9 3),
   ([0, 1, 2, 3, 4], sha1_f3, [1, 2, 3], sha1_k3, WUpdate 2 15 10 4),
   ([4, 0, 1, 2, 3], sha1_f3, [0, 1, 2], sha1_k3, WUpdate 3 0 11 5),
   ([3, 4, 0, 1, 2], sha1_f3, [4, 0, 1], sha1_k3, WUpdate 4 1 12 6),
   ([2, 3, 4, 0, 1], sha1_f3, [3, 4, 0], sha1_k3, WUpdate 5 2 13 7),
   ([1, 2, 3, 4, 0], sha1_f3, [2, 3, 4], sha1_k3, WUpdate 6 3 14 8),
   ([0, 1, 2, 3, 4], sha1_f3, [1, 2, 3], sha1_k3, WUpdate 7 4 15 9),
   ([4, 0, 1, 2, 3], sha1_f3, [0, 1, 2], sha1_k3, WUpdate 8 5 0 10),
   ([3, 4, 0, 1, 2], sha1_f3, [4, 0, 1], sha1_k3, WUpdate 9 6 1 11),
   ([2, 3, 4, 0, 1], sha1_f3, [3, 4, 0], sha1_k3, WUpdate 10 7 2 12),
   ([1, 2, 3, 4, 0], sha1_f3, [2, 3, 4], sha1_k3, WUpdate 11 8 3 13),
   ([0, 1, 2, 3, 4], sha1_f2, [1, 2, 3], sha1_k4, WUpdate 12 9 4 14),
   ([4, 0, 1, 2, 3], sha1_f2, [0, 1, 2], sha1_k4, WUpdate 13 10 5 15),
   ([3, 4, 0, 1, 2], sha1_f2, [4, 0, 1], sha1_k4, WUpdate 14 11 6 0),
   ([2, 3, 4, 0, 1], sha1_f2, [3, 4, 0], sha1_k4, WUpdate 15 12 7 1),
   ([1, 2, 3, 4, 0], sha1_f2, [2, 3, 4], sha1_k4, WUpdate 0 13 8 2),
   ([0, 1, 2, 3, 4], sha1_f2, [1, 2, 3], sha1_k4, WUpdate 1 14 9 3),
   ([4, 0, 1, 2, 3], sha1_f2, [0, 1, 2], sha1_k4, WUpdate 2 15 10 4),
   ([3, 4, 0, 1, 2], sha1_f2, [4, 0, 1], sha1_k4, WUpdate 3 0 11 5),
   ([2, 3, 4, 0, 1], sha1_f2, [3, 4, 0], sha1_k4, WUpdate 4 1 12 6),
   ([1, 2, 3, 4, 0], sha1_f2, [2, 3, 4], sha1_k4, WUpdate 5 2 13 7),
   ([0, 1, 2, 3, 4], sha1_f2, [1, 2, 3], sha1_k4, WUpdate 6 3 14 8),
   ([4, 0, 1, 2, 3], sha1_f2, [0, 1, 2], sha1_k4, WUpdate 7 4 15 9),
   ([3, 4, 0, 1, 2], sha1_f2, [4, 0, 1], sha1_k4, WUpdate 8 5 0 10),
   ([2, 3, 4, 0, 1], sha1_f2, [3, 4, 0], sha1_k4, WUpdate 9 6 1 11),
   ([1, 2, 3, 4, 0], sha1_f2, [2, 3, 4], sha1_k4, WUpdate 10 7 2 12),
   ([0, 1, 2, 3, 4], sha1_f2, [1, 2, 3], sha1_k4, WUpdate 11 8 3 13),
   ([4, 0, 1, 2, 3], sha1_f2, [0, 1, 2], sha1_k4, WUpdate 12 9 4 14),
   ([3, 4, 0, 1, 2], sha1_f2, [4, 0, 1], sha1_k4, WSum 13 10 5 15),
   ([2, 3, 4, 0, 1], sha1_f2, [3, 4, 0], sha1_k4, WSum 14 11 6 0),
   ([1, 2, 3, 4, 0], sha1_f2, [2, 3, 4], sha1_k4, WSum 15 12 7 1)]"

fun sha1_word :: "byte list \<Rightarrow> u32 list \<Rightarrow> wexpr \<Rightarrow> u32 \<times> u32 list" where
  "sha1_word chunk ws (WRead i off) = (let v = ReadBE32 (drop off chunk) in (v, ws[i := v]))"
| "sha1_word chunk ws (WUpdate i a b c) =
     (let v = sha1_left (ws ! i XOR ws ! a XOR ws ! b XOR ws ! c) in (v, ws[i := v]))"
| "sha1_word chunk ws (WSum i a b c) = (sha1_left (ws ! i XOR ws ! a XOR ws ! b XOR ws ! c), ws)"

definition sha1_step :: "byte list \<Rightarrow> u32 list \<times> u32 list \<Rightarrow> sha1_line \<Rightarrow> u32 list \<times> u32 list" where
  "sha1_step chunk = (\<lambda>(regs, ws) (args, f, fargs, k, e).
     let (v, ws') = sha1_word chunk ws e
     in (sha1_Round regs args (f (regs ! (fargs ! 0)) (regs ! (fargs ! 1)) (regs ! (fargs ! 2))) k v, ws'))"

definition sha1_Transform :: "u32 list \<Rightarrow> byte list \<Rightarrow> u32 list" where
  "sha1_Transform s chunk =
     (let (regs, _) = foldl (sha1_step chunk) (s, replicate 16 0) sha1_program
      in map2 (+) s regs)"

subsection \<open>The class \<open>CSHA1\<close>\<close>

type_synonym CSHA1 = "u32 hasher"

definition CSHA1_new :: CSHA1 where
  "CSHA1_new = \<lparr>h_s = sha1_Initialize, h_buf = replicate 64 0, h_bytes = 0\<rparr>"

definition CSHA1_Write :: "CSHA1 \<Rightarrow> byte list \<Rightarrow> CSHA1" where
  "CSHA1_Write = hash_write 64 sha1_Transform"

definition CSHA1_Finalize :: "CSHA1 \<Rightarrow> byte list \<times> CSHA1" where
  "CSHA1_Finalize h =
     (let sizedesc = WriteBE64 (push_bit 3 (h_bytes h));
          h = CSHA1_Write h (0x80 # replicate ((119 - unat (h_bytes h) mod 64) mod 64) 0);
          h = CSHA1_Write h sizedesc
      in (concat (map WriteBE32 (h_s h)), h))"

definition CSHA1_Reset :: "CSHA1 \<Rightarrow> CSHA1" where
  "CSHA1_Reset h = h\<lparr>h_bytes := 0, h_s := sha1_Initialize\<rparr>"

subsection \<open>The compression function is SHA-1's\<close>

function sha1_schedule :: "(nat \<Rightarrow> u32) \<Rightarrow> nat \<Rightarrow> u32" where
  "sha1_schedule m t =
     (if t < 16 then m t
      else sha1_left (sha1_schedule m (t - 3) XOR sha1_schedule m (t - 8) XOR
             sha1_schedule m (t - 14) XOR sha1_schedule m (t - 16)))"
  by pat_completeness auto
termination by (relation "measure (\<lambda>(m, t). t)") auto

declare sha1_schedule.simps [simp del]

definition sha1_f :: "nat \<Rightarrow> u32 \<Rightarrow> u32 \<Rightarrow> u32 \<Rightarrow> u32" where
  "sha1_f t = (if t < 20 then sha1_f1 else if t < 40 then sha1_f2 else if t < 60 then sha1_f3 else sha1_f2)"

definition sha1_K :: "nat \<Rightarrow> u32" where
  "sha1_K t = (if t < 20 then 0x5A827999 else if t < 40 then 0x6ED9EBA1
     else if t < 60 then 0x8F1BBCDC else 0xCA62C1D6)"

primrec sha1_rounds :: "(nat \<Rightarrow> u32) \<Rightarrow> u32 list \<Rightarrow> nat \<Rightarrow> u32 list" where
  "sha1_rounds W v 0 = v"
| "sha1_rounds W v (Suc t) =
     (let u = sha1_rounds W v t; a = u ! 0; b = u ! 1
      in [(push_bit 5 a OR drop_bit 27 a) + sha1_f t b (u ! 2) (u ! 3) + u ! 4 + sha1_K t + W t,
          a, push_bit 30 b OR drop_bit 2 b, u ! 2, u ! 3])"

definition sha1_compress :: "u32 list \<Rightarrow> byte list \<Rightarrow> u32 list" where
  "sha1_compress s chunk =
     map2 (+) s (sha1_rounds (sha1_schedule (\<lambda>i. ReadBE32 (drop (4 * i) chunk))) s 80)"

definition sha1_expr :: "nat \<Rightarrow> wexpr" where
  "sha1_expr t =
     (if t < 16 then WRead t (4 * t)
      else (if t < 77 then WUpdate else WSum)
        (t mod 16) ((t - 3) mod 16) ((t - 8) mod 16) ((t - 14) mod 16))"

lemma sha1_regular:
  "sha1_program = map (\<lambda>t. (roles5 t, sha1_f t, map (\<lambda>i. roles5 t ! i) [1, 2, 3], sha1_K t, sha1_expr t)) [0..<80]"
  by (simp add: sha1_program_def sha1_f_def sha1_K_def sha1_expr_def roles5_def upt_rec)

lemma sha1_Round_rotated:
  assumes "length regs = 5" "r = roles5 t"
  shows "rotated5 (Suc t) (sha1_Round regs r (f (regs ! (r ! 1)) (regs ! (r ! 2)) (regs ! (r ! 3))) k w) =
    (let u = rotated5 t regs; a = u ! 0; b = u ! 1
     in [(push_bit 5 a OR drop_bit 27 a) + f b (u ! 2) (u ! 3) + u ! 4 + k + w,
         a, push_bit 30 b OR drop_bit 2 b, u ! 2, u ! 3])"
proof -
  obtain a b c d e where regs: "regs = [a, b, c, d, e]"
    using length_five [OF assms(1)] by blast
  have "t mod 5 < 5" by simp
  from less_five_cases [OF this] show ?thesis
    unfolding assms(2) rotated5_def Suc_roles5 [of t] roles5_mod [of t] regs
    by (elim disjE) (simp_all add: roles5_def upt_5 sha1_Round_def Let_def)
qed

lemma sha1_word_window:
  assumes w: "window 79 W t ws" and t: "t < 80"
    and W: "W = sha1_schedule (\<lambda>i. ReadBE32 (drop (4 * i) chunk))"
  shows "\<exists>ws'. sha1_word chunk ws (sha1_expr t) = (W t, ws') \<and> window 79 W (Suc t) ws'"
proof (cases "t < 16")
  case True
  then have "W t = ReadBE32 (drop (4 * t) chunk)" by (simp add: W sha1_schedule.simps)
  then show ?thesis
    using True window_store [OF w, of "W t"] by (simp add: sha1_expr_def Let_def)
next
  case False
  have "W t = sha1_left (W (t - 3) XOR W (t - 8) XOR W (t - 14) XOR W (t - 16))"
    using False unfolding W by (subst sha1_schedule.simps) simp
  moreover have "ws ! ((t - 3) mod 16) = W (t - 3)" "ws ! ((t - 8) mod 16) = W (t - 8)"
    "ws ! ((t - 14) mod 16) = W (t - 14)" "ws ! ((t - 16) mod 16) = W (t - 16)"
    using False t by (intro window_nth [OF w]; simp)+
  moreover have "t mod 16 = (t - 16) mod 16" using False by (intro le_mod_geq) simp
  ultimately have v: "sha1_left (ws ! (t mod 16) XOR ws ! ((t - 3) mod 16) XOR ws ! ((t - 8) mod 16) XOR
      ws ! ((t - 14) mod 16)) = W t"
    by (simp only: xor.commute xor.left_commute xor.assoc)
  show ?thesis
  proof (cases "t < 77")
    case True
    then show ?thesis
      using False v window_store [OF w refl] by (simp add: sha1_expr_def Let_def)
  next
    case n: False
    then have "window 79 W (Suc t) ws" by (intro window_skip [OF w]) simp
    then show ?thesis using False v n by (simp add: sha1_expr_def)
  qed
qed

lemma length_sha1_Round [simp]: "length (sha1_Round regs args f k w) = length regs"
  by (simp add: sha1_Round_def Let_def)

lemma sha1_run:
  assumes l: "length s = 5" "length ws = 16"
    and W: "W = sha1_schedule (\<lambda>i. ReadBE32 (drop (4 * i) chunk))" and t: "t \<le> 80"
  shows "\<exists>regs ws'. foldl (sha1_step chunk) (s, ws) (take t sha1_program) = (regs, ws') \<and>
    length regs = 5 \<and> rotated5 t regs = sha1_rounds W s t \<and> window 79 W t ws'"
  using t
proof (induction t)
  case 0
  then show ?case using l by (simp add: rotated5_0 window_def)
next
  case (Suc t)
  then obtain regs ws' where IH: "foldl (sha1_step chunk) (s, ws) (take t sha1_program) = (regs, ws')"
    "length regs = 5" "rotated5 t regs = sha1_rounds W s t" "window 79 W t ws'"
    by auto
  from sha1_word_window [OF IH(4) _ W] Suc.prems obtain ws'' where
    w: "sha1_word chunk ws' (sha1_expr t) = (W t, ws'')" "window 79 W (Suc t) ws''"
    by auto
  have "take (Suc t) sha1_program = take t sha1_program @
      [(roles5 t, sha1_f t, map (\<lambda>i. roles5 t ! i) [1, 2, 3], sha1_K t, sha1_expr t)]"
    using Suc.prems by (simp add: sha1_regular take_Suc_conv_app_nth)
  then show ?case
    using IH w sha1_Round_rotated [OF IH(2) refl, of t "sha1_f t"] by (simp add: sha1_step_def Let_def)
qed

lemma sha1_Transform_compress:
  assumes "length s = 5"
  shows "sha1_Transform s chunk = sha1_compress s chunk" "length (sha1_Transform s chunk) = 5"
proof -
  obtain regs ws where "foldl (sha1_step chunk) (s, replicate 16 0) (take 80 sha1_program) = (regs, ws)"
    "length regs = 5"
    "rotated5 80 regs = sha1_rounds (sha1_schedule (\<lambda>i. ReadBE32 (drop (4 * i) chunk))) s 80"
    using sha1_run [OF assms, of "replicate 16 0" _ chunk 80] by auto
  moreover have "take 80 sha1_program = sha1_program" by (simp add: sha1_regular)
  ultimately show "sha1_Transform s chunk = sha1_compress s chunk" "length (sha1_Transform s chunk) = 5"
    using assms by (simp_all add: sha1_Transform_def sha1_compress_def rotated5_80)
qed

subsection \<open>Streaming\<close>

interpretation sha1_stream: block_hash 64 sha1_Transform sha1_Initialize
  by unfold_locales (simp_all add: dvd_def exI [of _ "2 ^ 58"])

definition sha1_pad :: "byte list \<Rightarrow> byte list" where
  "sha1_pad m = m @ [0x80] @ replicate ((119 - length m mod 64) mod 64) 0 @
     WriteBE64 (word_of_nat (8 * length m))"

definition sha1_digest :: "byte list \<Rightarrow> byte list" where
  "sha1_digest m = concat (map WriteBE32 (chain 64 sha1_compress sha1_Initialize (sha1_pad m)))"

lemma sha1_foldl_compress: "length s = 5 \<Longrightarrow> foldl sha1_Transform s bs = foldl sha1_compress s bs"
proof (induction bs arbitrary: s)
  case (Cons b bs)
  then show ?case using sha1_Transform_compress [of s b] by simp
qed simp

lemma sha1_chain_compress:
  "chain 64 sha1_Transform sha1_Initialize m = chain 64 sha1_compress sha1_Initialize m"
  unfolding chain_def by (rule sha1_foldl_compress) (simp add: sha1_Initialize_def)

lemma CSHA1_Finalize_hasher:
  assumes "hasher_of 64 sha1_Transform sha1_Initialize m h"
  shows "fst (CSHA1_Finalize h) = sha1_digest m"
proof -
  have "h_bytes h = word_of_nat (length m)" using assms by (simp add: hasher_of_def)
  then have "push_bit 3 (h_bytes h) = word_of_nat (8 * length m)"
    by (simp add: push_bit_eq_mult)
  moreover note sha1_stream.bytes_mod [OF assms] sha1_stream.state_after_writes [OF assms]
  ultimately show ?thesis
    by (simp add: CSHA1_Finalize_def CSHA1_Write_def Let_def sha1_digest_def sha1_pad_def
        sha1_chain_compress)
qed

lemma CSHA1_new_hasher: "hasher_of 64 sha1_Transform sha1_Initialize [] CSHA1_new"
  unfolding CSHA1_new_def by (rule sha1_stream.fresh_hasher) simp

text \<open>However a message is cut into \<open>Write\<close> calls, \<open>CSHA1::Finalize\<close> returns its SHA-1
  digest as the standard defines it.\<close>

theorem CSHA1_streaming:
  "fst (CSHA1_Finalize (foldl CSHA1_Write CSHA1_new chunks)) = sha1_digest (concat chunks)"
  using CSHA1_Finalize_hasher [OF sha1_stream.writes_hasher [OF CSHA1_new_hasher]]
  by (simp add: CSHA1_Write_def)

end
