(* ===== verification/Ripemd160.thy ===== *)
theory Ripemd160
  imports Sha2_Core Hash_Stream
begin

text \<open>
  \<open>src/src/crypto/ripemd160.cpp\<close>: RIPEMD-160 and the class \<open>CRIPEMD160\<close>.
  \<open>rmd_program\<close> is the body of \<open>ripemd160::Transform\<close>, one entry per call: whether it works
  on the second line of registers, the round function, its register arguments (a to e are 0
  to 4), the message word and the rotation.  The source interleaves the two lines.
\<close>

subsection \<open>Compression\<close>

definition rmd_f1 :: "u32 \<Rightarrow> u32 \<Rightarrow> u32 \<Rightarrow> u32" where "rmd_f1 x y z = x XOR y XOR z"
definition rmd_f2 :: "u32 \<Rightarrow> u32 \<Rightarrow> u32 \<Rightarrow> u32" where "rmd_f2 x y z = (x AND y) OR (NOT x AND z)"
definition rmd_f3 :: "u32 \<Rightarrow> u32 \<Rightarrow> u32 \<Rightarrow> u32" where "rmd_f3 x y z = (x OR NOT y) XOR z"
definition rmd_f4 :: "u32 \<Rightarrow> u32 \<Rightarrow> u32 \<Rightarrow> u32" where "rmd_f4 x y z = (x AND z) OR (y AND NOT z)"
definition rmd_f5 :: "u32 \<Rightarrow> u32 \<Rightarrow> u32 \<Rightarrow> u32" where "rmd_f5 x y z = x XOR (y OR NOT z)"

definition rmd_Initialize :: "u32 list" where
  "rmd_Initialize = [0x67452301, 0xEFCDAB89, 0x98BADCFE, 0x10325476, 0xC3D2E1F0]"

definition rmd_rol :: "u32 \<Rightarrow> nat \<Rightarrow> u32" where
  "rmd_rol x i = push_bit i x OR drop_bit (32 - i) x"

definition rmd_Round :: "u32 list \<Rightarrow> nat list \<Rightarrow> u32 \<Rightarrow> u32 \<Rightarrow> u32 \<Rightarrow> nat \<Rightarrow> u32 list" where
  "rmd_Round regs args f x k r =
     (let a = regs ! (args ! 0); c = regs ! (args ! 2); e = regs ! (args ! 4)
      in regs[args ! 0 := rmd_rol (a + f + x + k) r + e, args ! 2 := rmd_rol c 10])"

definition rmd_R11 :: "u32 list \<Rightarrow> nat list \<Rightarrow> u32 \<Rightarrow> nat \<Rightarrow> u32 list" where
  "rmd_R11 regs args x r =
     rmd_Round regs args (rmd_f1 (regs ! (args ! 1)) (regs ! (args ! 2)) (regs ! (args ! 3))) x 0 r"

definition rmd_R21 :: "u32 list \<Rightarrow> nat list \<Rightarrow> u32 \<Rightarrow> nat \<Rightarrow> u32 list" where
  "rmd_R21 regs args x r =
     rmd_Round regs args (rmd_f2 (regs ! (args ! 1)) (regs ! (args ! 2)) (regs ! (args ! 3))) x 0x5A827999 r"

definition rmd_R31 :: "u32 list \<Rightarrow> nat list \<Rightarrow> u32 \<Rightarrow> nat \<Rightarrow> u32 list" where
  "rmd_R31 regs args x r =
     rmd_Round regs args (rmd_f3 (regs ! (args ! 1)) (regs ! (args ! 2)) (regs ! (args ! 3))) x 0x6ED9EBA1 r"

definition rmd_R41 :: "u32 list \<Rightarrow> nat list \<Rightarrow> u32 \<Rightarrow> nat \<Rightarrow> u32 list" where
  "rmd_R41 regs args x r =
     rmd_Round regs args (rmd_f4 (regs ! (args ! 1)) (regs ! (args ! 2)) (regs ! (args ! 3))) x 0x8F1BBCDC r"

definition rmd_R51 :: "u32 list \<Rightarrow> nat list \<Rightarrow> u32 \<Rightarrow> nat \<Rightarrow> u32 list" where
  "rmd_R51 regs args x r =
     rmd_Round regs args (rmd_f5 (regs ! (args ! 1)) (regs ! (args ! 2)) (regs ! (args ! 3))) x 0xA953FD4E r"

definition rmd_R12 :: "u32 list \<Rightarrow> nat list \<Rightarrow> u32 \<Rightarrow> nat \<Rightarrow> u32 list" where
  "rmd_R12 regs args x r =
     rmd_Round regs args (rmd_f5 (regs ! (args ! 1)) (regs ! (args ! 2)) (regs ! (args ! 3))) x 0x50A28BE6 r"

definition rmd_R22 :: "u32 list \<Rightarrow> nat list \<Rightarrow> u32 \<Rightarrow> nat \<Rightarrow> u32 list" where
  "rmd_R22 regs args x r =
     rmd_Round regs args (rmd_f4 (regs ! (args ! 1)) (regs ! (args ! 2)) (regs ! (args ! 3))) x 0x5C4DD124 r"

definition rmd_R32 :: "u32 list \<Rightarrow> nat list \<Rightarrow> u32 \<Rightarrow> nat \<Rightarrow> u32 list" where
  "rmd_R32 regs args x r =
     rmd_Round regs args (rmd_f3 (regs ! (args ! 1)) (regs ! (args ! 2)) (regs ! (args ! 3))) x 0x6D703EF3 r"

definition rmd_R42 :: "u32 list \<Rightarrow> nat list \<Rightarrow> u32 \<Rightarrow> nat \<Rightarrow> u32 list" where
  "rmd_R42 regs args x r =
     rmd_Round regs args (rmd_f2 (regs ! (args ! 1)) (regs ! (args ! 2)) (regs ! (args ! 3))) x 0x7A6D76E9 r"

definition rmd_R52 :: "u32 list \<Rightarrow> nat list \<Rightarrow> u32 \<Rightarrow> nat \<Rightarrow> u32 list" where
  "rmd_R52 regs args x r =
     rmd_Round regs args (rmd_f1 (regs ! (args ! 1)) (regs ! (args ! 2)) (regs ! (args ! 3))) x 0 r"

type_synonym rmd_line = "bool \<times> (u32 list \<Rightarrow> nat list \<Rightarrow> u32 \<Rightarrow> nat \<Rightarrow> u32 list) \<times> nat list \<times> nat \<times> nat"

definition rmd_program :: "rmd_line list" where
  "rmd_program =
  [(False, rmd_R11, [0, 1, 2, 3, 4], 0, 11),
   (True, rmd_R12, [0, 1, 2, 3, 4], 5, 8),
   (False, rmd_R11, [4, 0, 1, 2, 3], 1, 14),
   (True, rmd_R12, [4, 0, 1, 2, 3], 14, 9),
   (False, rmd_R11, [3, 4, 0, 1, 2], 2, 15),
   (True, rmd_R12, [3, 4, 0, 1, 2], 7, 9),
   (False, rmd_R11, [2, 3, 4, 0, 1], 3, 12),
   (True, rmd_R12, [2, 3, 4, 0, 1], 0, 11),
   (False, rmd_R11, [1, 2, 3, 4, 0], 4, 5),
   (True, rmd_R12, [1, 2, 3, 4, 0], 9, 13),
   (False, rmd_R11, [0, 1, 2, 3, 4], 5, 8),
   (True, rmd_R12, [0, 1, 2, 3, 4], 2, 15),
   (False, rmd_R11, [4, 0, 1, 2, 3], 6, 7),
   (True, rmd_R12, [4, 0, 1, 2, 3], 11, 15),
   (False, rmd_R11, [3, 4, 0, 1, 2], 7, 9),
   (True, rmd_R12, [3, 4, 0, 1, 2], 4, 5),
   (False, rmd_R11, [2, 3, 4, 0, 1], 8, 11),
   (True, rmd_R12, [2, 3, 4, 0, 1], 13, 7),
   (False, rmd_R11, [1, 2, 3, 4, 0], 9, 13),
   (True, rmd_R12, [1, 2, 3, 4, 0], 6, 7),
   (False, rmd_R11, [0, 1, 2, 3, 4], 10, 14),
   (True, rmd_R12, [0, 1, 2, 3, 4], 15, 8),
   (False, rmd_R11, [4, 0, 1, 2, 3], 11, 15),
   (True, rmd_R12, [4, 0, 1, 2, 3], 8, 11),
   (False, rmd_R11, [3, 4, 0, 1, 2], 12, 6),
   (True, rmd_R12, [3, 4, 0, 1, 2], 1, 14),
   (False, rmd_R11, [2, 3, 4, 0, 1], 13, 7),
   (True, rmd_R12, [2, 3, 4, 0, 1], 10, 14),
   (False, rmd_R11, [1, 2, 3, 4, 0], 14, 9),
   (True, rmd_R12, [1, 2, 3, 4, 0], 3, 12),
   (False, rmd_R11, [0, 1, 2, 3, 4], 15, 8),
   (True, rmd_R12, [0, 1, 2, 3, 4], 12, 6),
   (False, rmd_R21, [4, 0, 1, 2, 3], 7, 7),
   (True, rmd_R22, [4, 0, 1, 2, 3], 6, 9),
   (False, rmd_R21, [3, 4, 0, 1, 2], 4, 6),
   (True, rmd_R22, [3, 4, 0, 1, 2], 11, 13),
   (False, rmd_R21, [2, 3, 4, 0, 1], 13, 8),
   (True, rmd_R22, [2, 3, 4, 0, 1], 3, 15),
   (False, rmd_R21, [1, 2, 3, 4, 0], 1, 13),
   (True, rmd_R22, [1, 2, 3, 4, 0], 7, 7),
   (False, rmd_R21, [0, 1, 2, 3, 4], 10, 11),
   (True, rmd_R22, [0, 1, 2, 3, 4], 0, 12),
   (False, rmd_R21, [4, 0, 1, 2, 3], 6, 9),
   (True, rmd_R22, [4, 0, 1, 2, 3], 13, 8),
   (False, rmd_R21, [3, 4, 0, 1, 2], 15, 7),
   (True, rmd_R22, [3, 4, 0, 1, 2], 5, 9),
   (False, rmd_R21, [2, 3, 4, 0, 1], 3, 15),
   (True, rmd_R22, [2, 3, 4, 0, 1], 10, 11),
   (False, rmd_R21, [1, 2, 3, 4, 0], 12, 7),
   (True, rmd_R22, [1, 2, 3, 4, 0], 14, 7),
   (False, rmd_R21, [0, 1, 2, 3, 4], 0, 12),
   (True, rmd_R22, [0, 1, 2, 3, 4], 15, 7),
   (False, rmd_R21, [4, 0, 1, 2, 3], 9, 15),
   (True, rmd_R22, [4, 0, 1, 2, 3], 8, 12),
   (False, rmd_R21, [3, 4, 0, 1, 2], 5, 9),
   (True, rmd_R22, [3, 4, 0, 1, 2], 12, 7),
   (False, rmd_R21, [2, 3, 4, 0, 1], 2, 11),
   (True, rmd_R22, [2, 3, 4, 0, 1], 4, 6),
   (False, rmd_R21, [1, 2, 3, 4, 0], 14, 7),
   (True, rmd_R22, [1, 2, 3, 4, 0], 9, 15),
   (False, rmd_R21, [0, 1, 2, 3, 4], 11, 13),
   (True, rmd_R22, [0, 1, 2, 3, 4], 1, 13),
   (False, rmd_R21, [4, 0, 1, 2, 3], 8, 12),
   (True, rmd_R22, [4, 0, 1, 2, 3], 2, 11),
   (False, rmd_R31, [3, 4, 0, 1, 2], 3, 11),
   (True, rmd_R32, [3, 4, 0, 1, 2], 15, 9),
   (False, rmd_R31, [2, 3, 4, 0, 1], 10, 13),
   (True, rmd_R32, [2, 3, 4, 0, 1], 5, 7),
   (False, rmd_R31, [1, 2, 3, 4, 0], 14, 6),
   (True, rmd_R32, [1, 2, 3, 4, 0], 1, 15),
   (False, rmd_R31, [0, 1, 2, 3, 4], 4, 7),
   (True, rmd_R32, [0, 1, 2, 3, 4], 3, 11),
   (False, rmd_R31, [4, 0, 1, 2, 3], 9, 14),
   (True, rmd_R32, [4, 0, 1, 2, 3], 7, 8),
   (False, rmd_R31, [3, 4, 0, 1, 2], 15, 9),
   (True, rmd_R32, [3, 4, 0, 1, 2], 14, 6),
   (False, rmd_R31, [2, 3, 4, 0, 1], 8, 13),
   (True, rmd_R32, [2, 3, 4, 0, 1], 6, 6),
   (False, rmd_R31, [1, 2, 3, 4, 0], 1, 15),
   (True, rmd_R32, [1, 2, 3, 4, 0], 9, 14),
   (False, rmd_R31, [0, 1, 2, 3, 4], 2, 14),
   (True, rmd_R32, [0, 1, 2, 3, 4], 11, 12),
   (False, rmd_R31, [4, 0, 1, 2, 3], 7, 8),
   (True, rmd_R32, [4, 0, 1, 2, 3], 8, 13),
   (False, rmd_R31, [3, 4, 0, 1, 2], 0, 13),
   (True, rmd_R32, [3, 4, 0, 1, 2], 12, 5),
   (False, rmd_R31, [2, 3, 4, 0, 1], 6, 6),
   (True, rmd_R32, [2, 3, 4, 0, 1], 2, 14),
   (False, rmd_R31, [1, 2, 3, 4, 0], 13, 5),
   (True, rmd_R32, [1, 2, 3, 4, 0], 10, 13),
   (False, rmd_R31, [0, 1, 2, 3, 4], 11, 12),
   (True, rmd_R32, [0, 1, 2, 3, 4], 0, 13),
   (False, rmd_R31, [4, 0, 1, 2, 3], 5, 7),
   (True, rmd_R32, [4, 0, 1, 2, 3], 4, 7),
   (False, rmd_R31, [3, 4, 0, 1, 2], 12, 5),
   (True, rmd_R32, [3, 4, 0, 1, 2], 13, 5),
   (False, rmd_R41, [2, 3, 4, 0, 1], 1, 11),
   (True, rmd_R42, [2, 3, 4, 0, 1], 8, 15),
   (False, rmd_R41, [1, 2, 3, 4, 0], 9, 12),
   (True, rmd_R42, [1, 2, 3, 4, 0], 6, 5),
   (False, rmd_R41, [0, 1, 2, 3, 4], 11, 14),
   (True, rmd_R42, [0, 1, 2, 3, 4], 4, 8),
   (False, rmd_R41, [4, 0, 1, 2, 3], 10, 15),
   (True, rmd_R42, [4, 0, 1, 2, 3], 1, 11),
   (False, rmd_R41, [3, 4, 0, 1, 2], 0, 14),
   (True, rmd_R42, [3, 4, 0, 1, 2], 3, 14),
   (False, rmd_R41, [2, 3, 4, 0, 1], 8, 15),
   (True, rmd_R42, [2, 3, 4, 0, 1], 11, 14),
   (False, rmd_R41, [1, 2, 3, 4, 0], 12, 9),
   (True, rmd_R42, [1, 2, 3, 4, 0], 15, 6),
   (False, rmd_R41, [0, 1, 2, 3, 4], 4, 8),
   (True, rmd_R42, [0, 1, 2, 3, 4], 0, 14),
   (False, rmd_R41, [4, 0, 1, 2, 3], 13, 9),
   (True, rmd_R42, [4, 0, 1, 2, 3], 5, 6),
   (False, rmd_R41, [3, 4, 0, 1, 2], 3, 14),
   (True, rmd_R42, [3, 4, 0, 1, 2], 12, 9),
   (False, rmd_R41, [2, 3, 4, 0, 1], 7, 5),
   (True, rmd_R42, [2, 3, 4, 0, 1], 2, 12),
   (False, rmd_R41, [1, 2, 3, 4, 0], 15, 6),
   (True, rmd_R42, [1, 2, 3, 4, 0], 13, 9),
   (False, rmd_R41, [0, 1, 2, 3, 4], 14, 8),
   (True, rmd_R42, [0, 1, 2, 3, 4], 9, 12),
   (False, rmd_R41, [4, 0, 1, 2, 3], 5, 6),
   (True, rmd_R42, [4, 0, 1, 2, 3], 7, 5),
   (False, rmd_R41, [3, 4, 0, 1, 2], 6, 5),
   (True, rmd_R42, [3, 4, 0, 1, 2], 10, 15),
   (False, rmd_R41, [2, 3, 4, 0, 1], 2, 12),
   (True, rmd_R42, [2, 3, 4, 0, 1], 14, 8),
   (False, rmd_R51, [1, 2, 3, 4, 0], 4, 9),
   (True, rmd_R52, [1, 2, 3, 4, 0], 12, 8),
   (False, rmd_R51, [0, 1, 2, 3, 4], 0, 15),
   (True, rmd_R52, [0, 1, 2, 3, 4], 15, 5),
   (False, rmd_R51, [4, 0, 1, 2, 3], 5, 5),
   (True, rmd_R52, [4, 0, 1, 2, 3], 10, 12),
   (False, rmd_R51, [3, 4, 0, 1, 2], 9, 11),
   (True, rmd_R52, [3, 4, 0, 1, 2], 4, 9),
   (False, rmd_R51, [2, 3, 4, 0, 1], 7, 6),
   (True, rmd_R52, [2, 3, 4, 0, 1], 1, 12),
   (False, rmd_R51, [1, 2, 3, 4, 0], 12, 8),
   (True, rmd_R52, [1, 2, 3, 4, 0], 5, 5),
   (False, rmd_R51, [0, 1, 2, 3, 4], 2, 13),
   (True, rmd_R52, [0, 1, 2, 3, 4], 8, 14),
   (False, rmd_R51, [4, 0, 1, 2, 3], 10, 12),
   (True, rmd_R52, [4, 0, 1, 2, 3], 7, 6),
   (False, rmd_R51, [3, 4, 0, 1, 2], 14, 5),
   (True, rmd_R52, [3, 4, 0, 1, 2], 6, 8),
   (False, rmd_R51, [2, 3, 4, 0, 1], 1, 12),
   (True, rmd_R52, [2, 3, 4, 0, 1], 2, 13),
   (False, rmd_R51, [1, 2, 3, 4, 0], 3, 13),
   (True, rmd_R52, [1, 2, 3, 4, 0], 13, 6),
   (False, rmd_R51, [0, 1, 2, 3, 4], 8, 14),
   (True, rmd_R52, [0, 1, 2, 3, 4], 14, 5),
   (False, rmd_R51, [4, 0, 1, 2, 3], 11, 11),
   (True, rmd_R52, [4, 0, 1, 2, 3], 0, 15),
   (False, rmd_R51, [3, 4, 0, 1, 2], 6, 8),
   (True, rmd_R52, [3, 4, 0, 1, 2], 3, 13),
   (False, rmd_R51, [2, 3, 4, 0, 1], 15, 5),
   (True, rmd_R52, [2, 3, 4, 0, 1], 9, 11),
   (False, rmd_R51, [1, 2, 3, 4, 0], 13, 6),
   (True, rmd_R52, [1, 2, 3, 4, 0], 11, 11)]"

definition rmd_step :: "u32 list \<Rightarrow> u32 list \<times> u32 list \<Rightarrow> rmd_line \<Rightarrow> u32 list \<times> u32 list" where
  "rmd_step w = (\<lambda>(regs1, regs2) (second, R, args, x, r).
     if second then (regs1, R regs2 args (w ! x) r) else (R regs1 args (w ! x) r, regs2))"

definition rmd_Transform :: "u32 list \<Rightarrow> byte list \<Rightarrow> u32 list" where
  "rmd_Transform s chunk =
     (let w = map (\<lambda>i. ReadLE32 (drop (4 * i) chunk)) [0..<16];
          (v1, v2) = foldl (rmd_step w) (s, s) rmd_program
      in [s ! 1 + v1 ! 2 + v2 ! 3, s ! 2 + v1 ! 3 + v2 ! 4, s ! 3 + v1 ! 4 + v2 ! 0,
          s ! 4 + v1 ! 0 + v2 ! 1, s ! 0 + v1 ! 1 + v2 ! 2])"

subsection \<open>The class \<open>CRIPEMD160\<close>\<close>

type_synonym CRIPEMD160 = "u32 hasher"

definition CRIPEMD160_new :: CRIPEMD160 where
  "CRIPEMD160_new = \<lparr>h_s = rmd_Initialize, h_buf = replicate 64 0, h_bytes = 0\<rparr>"

definition CRIPEMD160_Write :: "CRIPEMD160 \<Rightarrow> byte list \<Rightarrow> CRIPEMD160" where
  "CRIPEMD160_Write = hash_write 64 rmd_Transform"

definition CRIPEMD160_Finalize :: "CRIPEMD160 \<Rightarrow> byte list \<times> CRIPEMD160" where
  "CRIPEMD160_Finalize h =
     (let sizedesc = WriteLE64 (push_bit 3 (h_bytes h));
          h = CRIPEMD160_Write h (0x80 # replicate ((119 - unat (h_bytes h) mod 64) mod 64) 0);
          h = CRIPEMD160_Write h sizedesc
      in (concat (map WriteLE32 (h_s h)), h))"

definition CRIPEMD160_Reset :: "CRIPEMD160 \<Rightarrow> CRIPEMD160" where
  "CRIPEMD160_Reset h = h\<lparr>h_bytes := 0, h_s := rmd_Initialize\<rparr>"

subsection \<open>The compression function is RIPEMD-160's\<close>

text \<open>The tables of the standard: message words and rotations of the two lines.\<close>

definition rmd_r1 :: "nat list" where
  "rmd_r1 =
  [0, 1, 2, 3, 4, 5, 6, 7, 8, 9, 10, 11, 12, 13, 14, 15,
   7, 4, 13, 1, 10, 6, 15, 3, 12, 0, 9, 5, 2, 14, 11, 8,
   3, 10, 14, 4, 9, 15, 8, 1, 2, 7, 0, 6, 13, 11, 5, 12,
   1, 9, 11, 10, 0, 8, 12, 4, 13, 3, 7, 15, 14, 5, 6, 2,
   4, 0, 5, 9, 7, 12, 2, 10, 14, 1, 3, 8, 11, 6, 15, 13]"

definition rmd_r2 :: "nat list" where
  "rmd_r2 =
  [5, 14, 7, 0, 9, 2, 11, 4, 13, 6, 15, 8, 1, 10, 3, 12,
   6, 11, 3, 7, 0, 13, 5, 10, 14, 15, 8, 12, 4, 9, 1, 2,
   15, 5, 1, 3, 7, 14, 6, 9, 11, 8, 12, 2, 10, 0, 4, 13,
   8, 6, 4, 1, 3, 11, 15, 0, 5, 12, 2, 13, 9, 7, 10, 14,
   12, 15, 10, 4, 1, 5, 8, 7, 6, 2, 13, 14, 0, 3, 9, 11]"

definition rmd_s1 :: "nat list" where
  "rmd_s1 =
  [11, 14, 15, 12, 5, 8, 7, 9, 11, 13, 14, 15, 6, 7, 9, 8,
   7, 6, 8, 13, 11, 9, 7, 15, 7, 12, 15, 9, 11, 7, 13, 12,
   11, 13, 6, 7, 14, 9, 13, 15, 14, 8, 13, 6, 5, 12, 7, 5,
   11, 12, 14, 15, 14, 15, 9, 8, 9, 14, 5, 6, 8, 6, 5, 12,
   9, 15, 5, 11, 6, 8, 13, 12, 5, 12, 13, 14, 11, 8, 5, 6]"

definition rmd_s2 :: "nat list" where
  "rmd_s2 =
  [8, 9, 9, 11, 13, 15, 15, 5, 7, 7, 8, 11, 14, 14, 12, 6,
   9, 13, 15, 7, 12, 8, 9, 11, 7, 7, 12, 7, 6, 15, 13, 11,
   9, 7, 15, 11, 8, 6, 6, 14, 12, 13, 5, 14, 13, 13, 7, 5,
   15, 5, 8, 11, 14, 14, 6, 14, 6, 9, 12, 9, 12, 5, 15, 8,
   8, 5, 12, 9, 12, 5, 14, 6, 8, 13, 6, 5, 15, 13, 11, 11]"

definition rmd_f :: "nat \<Rightarrow> u32 \<Rightarrow> u32 \<Rightarrow> u32 \<Rightarrow> u32" where
  "rmd_f t = (if t < 16 then rmd_f1 else if t < 32 then rmd_f2 else if t < 48 then rmd_f3
     else if t < 64 then rmd_f4 else rmd_f5)"

definition rmd_K1 :: "nat \<Rightarrow> u32" where
  "rmd_K1 t = (if t < 16 then 0 else if t < 32 then 0x5A827999 else if t < 48 then 0x6ED9EBA1
     else if t < 64 then 0x8F1BBCDC else 0xA953FD4E)"

definition rmd_K2 :: "nat \<Rightarrow> u32" where
  "rmd_K2 t = (if t < 16 then 0x50A28BE6 else if t < 32 then 0x5C4DD124 else if t < 48 then 0x6D703EF3
     else if t < 64 then 0x7A6D76E9 else 0)"

primrec rmd_rounds ::
  "(nat \<Rightarrow> u32 \<Rightarrow> u32 \<Rightarrow> u32 \<Rightarrow> u32) \<Rightarrow> (nat \<Rightarrow> u32) \<Rightarrow> (nat \<Rightarrow> u32) \<Rightarrow> nat list \<Rightarrow> u32 list \<Rightarrow> nat \<Rightarrow> u32 list" where
  "rmd_rounds f X K S v 0 = v"
| "rmd_rounds f X K S v (Suc t) =
     (let u = rmd_rounds f X K S v t
      in [u ! 4, rmd_rol (u ! 0 + f t (u ! 1) (u ! 2) (u ! 3) + X t + K t) (S ! t) + u ! 4,
          u ! 1, rmd_rol (u ! 2) 10, u ! 3])"

definition rmd_compress :: "u32 list \<Rightarrow> byte list \<Rightarrow> u32 list" where
  "rmd_compress s chunk =
     (let X = (\<lambda>i. ReadLE32 (drop (4 * i) chunk));
          v1 = rmd_rounds rmd_f (\<lambda>t. X (rmd_r1 ! t)) rmd_K1 rmd_s1 s 80;
          v2 = rmd_rounds (\<lambda>t. rmd_f (79 - t)) (\<lambda>t. X (rmd_r2 ! t)) rmd_K2 rmd_s2 s 80
      in [s ! 1 + v1 ! 2 + v2 ! 3, s ! 2 + v1 ! 3 + v2 ! 4, s ! 3 + v1 ! 4 + v2 ! 0,
          s ! 4 + v1 ! 0 + v2 ! 1, s ! 0 + v1 ! 1 + v2 ! 2])"

definition rmd_R1 :: "nat \<Rightarrow> u32 list \<Rightarrow> nat list \<Rightarrow> u32 \<Rightarrow> nat \<Rightarrow> u32 list" where
  "rmd_R1 t = (if t < 16 then rmd_R11 else if t < 32 then rmd_R21 else if t < 48 then rmd_R31
     else if t < 64 then rmd_R41 else rmd_R51)"

definition rmd_R2 :: "nat \<Rightarrow> u32 list \<Rightarrow> nat list \<Rightarrow> u32 \<Rightarrow> nat \<Rightarrow> u32 list" where
  "rmd_R2 t = (if t < 16 then rmd_R12 else if t < 32 then rmd_R22 else if t < 48 then rmd_R32
     else if t < 64 then rmd_R42 else rmd_R52)"

definition rmd_pair :: "nat \<Rightarrow> rmd_line list" where
  "rmd_pair t = [(False, rmd_R1 t, roles5 t, rmd_r1 ! t, rmd_s1 ! t),
     (True, rmd_R2 t, roles5 t, rmd_r2 ! t, rmd_s2 ! t)]"

lemma rmd_regular: "rmd_program = concat (map rmd_pair [0..<80])"
  by (simp add: rmd_program_def rmd_pair_def rmd_R1_def rmd_R2_def roles5_def upt_rec
      rmd_r1_def rmd_r2_def rmd_s1_def rmd_s2_def)

lemma rmd_R1_Round:
  "rmd_R1 t regs args x r =
     rmd_Round regs args (rmd_f t (regs ! (args ! 1)) (regs ! (args ! 2)) (regs ! (args ! 3))) x (rmd_K1 t) r"
  by (simp add: rmd_R1_def rmd_f_def rmd_K1_def rmd_R11_def rmd_R21_def rmd_R31_def rmd_R41_def rmd_R51_def)

lemma rmd_R2_Round:
  "t < 80 \<Longrightarrow> rmd_R2 t regs args x r =
     rmd_Round regs args (rmd_f (79 - t) (regs ! (args ! 1)) (regs ! (args ! 2)) (regs ! (args ! 3))) x (rmd_K2 t) r"
  by (auto simp: rmd_R2_def rmd_f_def rmd_K2_def rmd_R12_def rmd_R22_def rmd_R32_def rmd_R42_def rmd_R52_def)

lemma rmd_Round_rotated:
  assumes "length regs = 5" "a = roles5 t"
  shows "rotated5 (Suc t) (rmd_Round regs a (f (regs ! (a ! 1)) (regs ! (a ! 2)) (regs ! (a ! 3))) x k r) =
    (let u = rotated5 t regs
     in [u ! 4, rmd_rol (u ! 0 + f (u ! 1) (u ! 2) (u ! 3) + x + k) r + u ! 4,
         u ! 1, rmd_rol (u ! 2) 10, u ! 3])"
proof -
  obtain a b c d e where regs: "regs = [a, b, c, d, e]"
    using length_five [OF assms(1)] by blast
  have "t mod 5 < 5" by simp
  from less_five_cases [OF this] show ?thesis
    unfolding assms(2) rotated5_def Suc_roles5 [of t] roles5_mod [of t] regs
    by (elim disjE) (simp_all add: roles5_def upt_5 rmd_Round_def Let_def)
qed

lemma length_rmd_Round [simp]: "length (rmd_Round regs args f x k r) = length regs"
  by (simp add: rmd_Round_def Let_def)

lemma rmd_tables: "list_all (\<lambda>i. i < 16) rmd_r1" "list_all (\<lambda>i. i < 16) rmd_r2"
  "length rmd_r1 = 80" "length rmd_r2 = 80"
  by (simp_all add: rmd_r1_def rmd_r2_def)

lemma rmd_word_index: "t < 80 \<Longrightarrow> rmd_r1 ! t < 16" "t < 80 \<Longrightarrow> rmd_r2 ! t < 16"
  using rmd_tables by (simp_all add: list_all_length)

lemma rmd_step_apply:
  "rmd_step w (regs1, regs2) (False, R, args, x, r) = (R regs1 args (w ! x) r, regs2)"
  "rmd_step w (regs1, regs2) (True, R, args, x, r) = (regs1, R regs2 args (w ! x) r)"
  by (simp_all add: rmd_step_def)

lemma rmd_run:
  assumes l: "length s = 5" and X: "X = (\<lambda>i. ReadLE32 (drop (4 * i) chunk))" and t: "t \<le> 80"
  shows "\<exists>v1 v2. foldl (rmd_step (map X [0..<16])) (s, s) (concat (map rmd_pair [0..<t])) = (v1, v2) \<and>
    length v1 = 5 \<and> length v2 = 5 \<and>
    rotated5 t v1 = rmd_rounds rmd_f (\<lambda>t. X (rmd_r1 ! t)) rmd_K1 rmd_s1 s t \<and>
    rotated5 t v2 = rmd_rounds (\<lambda>t. rmd_f (79 - t)) (\<lambda>t. X (rmd_r2 ! t)) rmd_K2 rmd_s2 s t"
  using t
proof (induction t)
  case 0
  then show ?case using l by (simp add: rotated5_0)
next
  case (Suc t)
  then obtain v1 v2 where IH:
    "foldl (rmd_step (map X [0..<16])) (s, s) (concat (map rmd_pair [0..<t])) = (v1, v2)"
    "length v1 = 5" "length v2 = 5"
    "rotated5 t v1 = rmd_rounds rmd_f (\<lambda>t. X (rmd_r1 ! t)) rmd_K1 rmd_s1 s t"
    "rotated5 t v2 = rmd_rounds (\<lambda>t. rmd_f (79 - t)) (\<lambda>t. X (rmd_r2 ! t)) rmd_K2 rmd_s2 s t"
    by auto
  let ?a = "roles5 t"
  let ?v1 = "rmd_Round v1 ?a (rmd_f t (v1 ! (?a ! 1)) (v1 ! (?a ! 2)) (v1 ! (?a ! 3))) (X (rmd_r1 ! t))
    (rmd_K1 t) (rmd_s1 ! t)"
  let ?v2 = "rmd_Round v2 ?a (rmd_f (79 - t) (v2 ! (?a ! 1)) (v2 ! (?a ! 2)) (v2 ! (?a ! 3)))
    (X (rmd_r2 ! t)) (rmd_K2 t) (rmd_s2 ! t)"
  have t: "t < 80" using Suc.prems by simp
  have "map X [0..<16] ! (rmd_r1 ! t) = X (rmd_r1 ! t)" "map X [0..<16] ! (rmd_r2 ! t) = X (rmd_r2 ! t)"
    using rmd_word_index [OF t] by (simp_all del: upt_rec_numeral)
  then have "foldl (rmd_step (map X [0..<16])) (s, s) (concat (map rmd_pair [0..<Suc t])) = (?v1, ?v2)"
    using IH(1) by (simp add: rmd_pair_def rmd_step_apply rmd_R1_Round rmd_R2_Round t del: upt_rec_numeral)
  then show ?case
    using IH(2-5) rmd_Round_rotated [OF IH(2) refl, of t "rmd_f t"]
      rmd_Round_rotated [OF IH(3) refl, of t "rmd_f (79 - t)"]
    by (simp add: Let_def)
qed

lemma rmd_Transform_compress:
  assumes "length s = 5"
  shows "rmd_Transform s chunk = rmd_compress s chunk" "length (rmd_Transform s chunk) = 5"
proof -
  let ?X = "\<lambda>i. ReadLE32 (drop (4 * i) chunk)"
  obtain v1 v2 where "foldl (rmd_step (map ?X [0..<16])) (s, s) rmd_program = (v1, v2)"
    "length v1 = 5" "length v2 = 5"
    "rotated5 80 v1 = rmd_rounds rmd_f (\<lambda>t. ?X (rmd_r1 ! t)) rmd_K1 rmd_s1 s 80"
    "rotated5 80 v2 = rmd_rounds (\<lambda>t. rmd_f (79 - t)) (\<lambda>t. ?X (rmd_r2 ! t)) rmd_K2 rmd_s2 s 80"
    using rmd_run [OF assms refl, of 80 chunk] unfolding rmd_regular by auto
  then show "rmd_Transform s chunk = rmd_compress s chunk" "length (rmd_Transform s chunk) = 5"
    by (simp_all add: rmd_Transform_def rmd_compress_def rotated5_80 Let_def)
qed

subsection \<open>Streaming\<close>

interpretation rmd_stream: block_hash 64 rmd_Transform rmd_Initialize
  by unfold_locales (simp_all add: dvd_def exI [of _ "2 ^ 58"])

definition rmd_pad :: "byte list \<Rightarrow> byte list" where
  "rmd_pad m = m @ [0x80] @ replicate ((119 - length m mod 64) mod 64) 0 @
     WriteLE64 (word_of_nat (8 * length m))"

definition rmd_digest :: "byte list \<Rightarrow> byte list" where
  "rmd_digest m = concat (map WriteLE32 (chain 64 rmd_compress rmd_Initialize (rmd_pad m)))"

lemma rmd_foldl_compress: "length s = 5 \<Longrightarrow> foldl rmd_Transform s bs = foldl rmd_compress s bs"
proof (induction bs arbitrary: s)
  case (Cons b bs)
  then show ?case using rmd_Transform_compress [of s b] by simp
qed simp

lemma rmd_chain_compress:
  "chain 64 rmd_Transform rmd_Initialize m = chain 64 rmd_compress rmd_Initialize m"
  unfolding chain_def by (rule rmd_foldl_compress) (simp add: rmd_Initialize_def)

lemma CRIPEMD160_Finalize_hasher:
  assumes "hasher_of 64 rmd_Transform rmd_Initialize m h"
  shows "fst (CRIPEMD160_Finalize h) = rmd_digest m"
proof -
  have "h_bytes h = word_of_nat (length m)" using assms by (simp add: hasher_of_def)
  then have "push_bit 3 (h_bytes h) = word_of_nat (8 * length m)"
    by (simp add: push_bit_eq_mult)
  moreover note rmd_stream.bytes_mod [OF assms] rmd_stream.state_after_writes [OF assms]
  ultimately show ?thesis
    by (simp add: CRIPEMD160_Finalize_def CRIPEMD160_Write_def Let_def rmd_digest_def rmd_pad_def
        rmd_chain_compress)
qed

lemma CRIPEMD160_new_hasher: "hasher_of 64 rmd_Transform rmd_Initialize [] CRIPEMD160_new"
  unfolding CRIPEMD160_new_def by (rule rmd_stream.fresh_hasher) simp

text \<open>However a message is cut into \<open>Write\<close> calls, \<open>CRIPEMD160::Finalize\<close> returns its RIPEMD-160
  digest as the standard defines it.\<close>

theorem CRIPEMD160_streaming:
  "fst (CRIPEMD160_Finalize (foldl CRIPEMD160_Write CRIPEMD160_new chunks)) = rmd_digest (concat chunks)"
  using CRIPEMD160_Finalize_hasher [OF rmd_stream.writes_hasher [OF CRIPEMD160_new_hasher]]
  by (simp add: CRIPEMD160_Write_def)

end
