(* ===== verification/Hashers.thy ===== *)
theory Hashers
  imports Sha256 Sha512 Sha1 Ripemd160
begin

text \<open>
  \<open>src/src/hash.h\<close>, \<open>hash.cpp\<close> and \<open>crypto/hmac_sha256.cpp\<close>, \<open>crypto/hmac_sha512.cpp\<close>:
  double SHA-256, \<open>Hash160\<close>, the hash writer, HMAC, BIP 32 and tagged hashes, MurmurHash3
  and SipHash.  The composed hashers are shown to compute the composition of the digests,
  and the specialised SipHash routines to agree with the streaming one.
\<close>

subsection \<open>Double and composed hashes\<close>

definition CHash256_Write :: "CSHA256 \<Rightarrow> byte list \<Rightarrow> CSHA256" where
  "CHash256_Write sha data = CSHA256_Write sha data"

definition CHash256_Finalize :: "CSHA256 \<Rightarrow> byte list" where
  "CHash256_Finalize sha =
     (let (buf, sha) = CSHA256_Finalize sha
      in fst (CSHA256_Finalize (CSHA256_Write (CSHA256_Reset sha) buf)))"

definition CHash160_Write :: "CSHA256 \<Rightarrow> byte list \<Rightarrow> CSHA256" where
  "CHash160_Write sha data = CSHA256_Write sha data"

definition CHash160_Finalize :: "CSHA256 \<Rightarrow> byte list" where
  "CHash160_Finalize sha =
     (let (buf, _) = CSHA256_Finalize sha
      in fst (CRIPEMD160_Finalize (CRIPEMD160_Write CRIPEMD160_new buf)))"

definition Hash :: "byte list \<Rightarrow> byte list" where
  "Hash p = CHash256_Finalize (CHash256_Write CSHA256_new p)"

definition Hash_2 :: "byte list \<Rightarrow> byte list \<Rightarrow> byte list" where
  "Hash_2 p1 p2 = CHash256_Finalize (CHash256_Write (CHash256_Write CSHA256_new p1) p2)"

definition Hash_3 :: "byte list \<Rightarrow> byte list \<Rightarrow> byte list \<Rightarrow> byte list" where
  "Hash_3 p1 p2 p3 =
     CHash256_Finalize (CHash256_Write (CHash256_Write (CHash256_Write CSHA256_new p1) p2) p3)"

definition Hash160 :: "byte list \<Rightarrow> byte list" where
  "Hash160 p = CHash160_Finalize (CHash160_Write CSHA256_new p)"

text \<open>The hash writer; \<open>nType\<close> and \<open>nVersion\<close> only select serialization formats.\<close>

definition hashwriter_write :: "CSHA256 \<Rightarrow> byte list \<Rightarrow> CSHA256" where
  "hashwriter_write ctx pch = CSHA256_Write ctx pch"

definition GetHash :: "CSHA256 \<Rightarrow> byte list" where
  "GetHash ctx =
     (let (result, ctx) = CSHA256_Finalize ctx
      in fst (CSHA256_Finalize (CSHA256_Write (CSHA256_Reset ctx) result)))"

definition GetSHA256 :: "CSHA256 \<Rightarrow> byte list" where
  "GetSHA256 ctx = fst (CSHA256_Finalize ctx)"

definition TaggedHash :: "byte list \<Rightarrow> CSHA256" where
  "TaggedHash tag =
     (let taghash = fst (CSHA256_Finalize (CSHA256_Write CSHA256_new tag))
      in hashwriter_write (hashwriter_write CSHA256_new taghash) taghash)"

subsection \<open>HMAC\<close>

record 'w hmac =
  outer :: "'w hasher"
  inner :: "'w hasher"

definition CHMAC_SHA256_new :: "byte list \<Rightarrow> u32 hmac" where
  "CHMAC_SHA256_new key =
     (let rkey = (if length key \<le> 64 then key @ replicate (64 - length key) 0
                  else fst (CSHA256_Finalize (CSHA256_Write CSHA256_new key)) @ replicate 32 0);
          rkey = map (\<lambda>b. b XOR 0x5c) rkey;
          outer = CSHA256_Write CSHA256_new rkey;
          rkey = map (\<lambda>b. b XOR (0x5c XOR 0x36)) rkey
      in \<lparr>outer = outer, inner = CSHA256_Write CSHA256_new rkey\<rparr>)"

definition CHMAC_SHA256_Write :: "u32 hmac \<Rightarrow> byte list \<Rightarrow> u32 hmac" where
  "CHMAC_SHA256_Write h data = h\<lparr>inner := CSHA256_Write (inner h) data\<rparr>"

definition CHMAC_SHA256_Finalize :: "u32 hmac \<Rightarrow> byte list" where
  "CHMAC_SHA256_Finalize h =
     (let temp = fst (CSHA256_Finalize (inner h))
      in fst (CSHA256_Finalize (CSHA256_Write (outer h) temp)))"

definition CHMAC_SHA512_new :: "byte list \<Rightarrow> u64 hmac" where
  "CHMAC_SHA512_new key =
     (let rkey = (if length key \<le> 128 then key @ replicate (128 - length key) 0
                  else fst (CSHA512_Finalize (CSHA512_Write CSHA512_new key)) @ replicate 64 0);
          rkey = map (\<lambda>b. b XOR 0x5c) rkey;
          outer = CSHA512_Write CSHA512_new rkey;
          rkey = map (\<lambda>b. b XOR (0x5c XOR 0x36)) rkey
      in \<lparr>outer = outer, inner = CSHA512_Write CSHA512_new rkey\<rparr>)"

definition CHMAC_SHA512_Write :: "u64 hmac \<Rightarrow> byte list \<Rightarrow> u64 hmac" where
  "CHMAC_SHA512_Write h data = h\<lparr>inner := CSHA512_Write (inner h) data\<rparr>"

definition CHMAC_SHA512_Finalize :: "u64 hmac \<Rightarrow> byte list" where
  "CHMAC_SHA512_Finalize h =
     (let temp = fst (CSHA512_Finalize (inner h))
      in fst (CSHA512_Finalize (CSHA512_Write (outer h) temp)))"

definition BIP32Hash :: "byte list \<Rightarrow> u32 \<Rightarrow> byte \<Rightarrow> byte list \<Rightarrow> byte list" where
  "BIP32Hash chainCode nChild header data =
     (let num = map (\<lambda>k. ucast (drop_bit k nChild AND 0xFF)) [24, 16, 8, 0]
      in CHMAC_SHA512_Finalize
           (CHMAC_SHA512_Write (CHMAC_SHA512_Write (CHMAC_SHA512_Write
              (CHMAC_SHA512_new chainCode) [header]) data) num))"

subsection \<open>MurmurHash3\<close>

definition ROTL32 :: "u32 \<Rightarrow> nat \<Rightarrow> u32" where
  "ROTL32 x r = push_bit r x OR drop_bit (32 - r) x"

definition murmur_k :: "u32 \<Rightarrow> u32" where
  "murmur_k k1 = ROTL32 (k1 * 0xcc9e2d51) 15 * 0x1b873593"

definition murmur_block :: "u32 \<Rightarrow> u32 \<Rightarrow> u32" where
  "murmur_block h1 k1 = ROTL32 (h1 XOR murmur_k k1) 13 * 5 + 0xe6546b64"

definition murmur_tail :: "byte list \<Rightarrow> u32 \<Rightarrow> u32" where
  "murmur_tail t h1 =
     (let k1 = (0 :: u32);
          k1 = (if length t = 3 then k1 XOR push_bit 16 (ucast (t ! 2)) else k1);
          k1 = (if length t \<ge> 2 then k1 XOR push_bit 8 (ucast (t ! 1)) else k1)
      in if length t \<ge> 1 then h1 XOR murmur_k (k1 XOR ucast (t ! 0)) else h1)"

definition MurmurHash3 :: "u32 \<Rightarrow> byte list \<Rightarrow> u32" where
  "MurmurHash3 nHashSeed data =
     (let h1 = nHashSeed;
          nblocks = length data div 4;
          h1 = (if data \<noteq> [] then
                  murmur_tail (drop (nblocks * 4) data)
                    (foldl murmur_block h1 (map (\<lambda>i. ReadLE32 (drop (i * 4) data)) [0..<nblocks]))
                else h1);
          h1 = h1 XOR word_of_nat (length data);
          h1 = h1 XOR drop_bit 16 h1;
          h1 = h1 * 0x85ebca6b;
          h1 = h1 XOR drop_bit 13 h1;
          h1 = h1 * 0xc2b2ae35
      in h1 XOR drop_bit 16 h1)"

subsection \<open>SipHash-2-4\<close>

type_synonym sip_state = "u64 \<times> u64 \<times> u64 \<times> u64"

definition ROTL :: "u64 \<Rightarrow> nat \<Rightarrow> u64" where
  "ROTL x b = push_bit b x OR drop_bit (64 - b) x"

definition SIPROUND :: "sip_state \<Rightarrow> sip_state" where
  "SIPROUND = (\<lambda>(v0, v1, v2, v3).
     let v0 = v0 + v1;
         v1 = ROTL v1 13;
         v1 = v1 XOR v0;
         v0 = ROTL v0 32;
         v2 = v2 + v3;
         v3 = ROTL v3 16;
         v3 = v3 XOR v2;
         v0 = v0 + v3;
         v3 = ROTL v3 21;
         v3 = v3 XOR v0;
         v2 = v2 + v1;
         v1 = ROTL v1 17;
         v1 = v1 XOR v2;
         v2 = ROTL v2 32
     in (v0, v1, v2, v3))"

record CSipHasher =
  sip_v :: sip_state
  sip_tmp :: u64
  sip_count :: nat

definition sip_init :: "u64 \<Rightarrow> u64 \<Rightarrow> sip_state" where
  "sip_init k0 k1 = (0x736f6d6570736575 XOR k0, 0x646f72616e646f6d XOR k1,
     0x6c7967656e657261 XOR k0, 0x7465646279746573 XOR k1)"

definition CSipHasher_new :: "u64 \<Rightarrow> u64 \<Rightarrow> CSipHasher" where
  "CSipHasher_new k0 k1 = \<lparr>sip_v = sip_init k0 k1, sip_tmp = 0, sip_count = 0\<rparr>"

text \<open>\<open>v3 ^= d; SIPROUND; SIPROUND; v0 ^= d\<close>\<close>

definition sip_absorb :: "sip_state \<Rightarrow> u64 \<Rightarrow> sip_state" where
  "sip_absorb v d =
     (let (v0, v1, v2, v3) = v;
          (v0, v1, v2, v3) = SIPROUND (SIPROUND (v0, v1, v2, v3 XOR d))
      in (v0 XOR d, v1, v2, v3))"

text \<open>\<open>v2 ^= 0xFF\<close>, four rounds and the sum of the state.\<close>

definition sip_finish :: "sip_state \<Rightarrow> u64" where
  "sip_finish v =
     (let (v0, v1, v2, v3) = v;
          (v0, v1, v2, v3) = SIPROUND (SIPROUND (SIPROUND (SIPROUND (v0, v1, v2 XOR 0xFF, v3))))
      in v0 XOR v1 XOR v2 XOR v3)"

definition sip_write_u64 :: "CSipHasher \<Rightarrow> u64 \<Rightarrow> CSipHasher option" where
  "sip_write_u64 h data =
     (if sip_count h mod 8 = 0
      then Some (h\<lparr>sip_v := sip_absorb (sip_v h) data, sip_count := sip_count h + 8\<rparr>)
      else None)"

fun sip_write_loop :: "sip_state \<Rightarrow> u64 \<Rightarrow> nat \<Rightarrow> byte list \<Rightarrow> sip_state \<times> u64 \<times> nat" where
  "sip_write_loop v t c [] = (v, t, c)"
| "sip_write_loop v t c (b # data) =
     (let t = t OR push_bit (8 * (c mod 8)) (ucast b); c = c + 1
      in if c mod 8 = 0 then sip_write_loop (sip_absorb v t) 0 c data
         else sip_write_loop v t c data)"

definition sip_write :: "CSipHasher \<Rightarrow> byte list \<Rightarrow> CSipHasher" where
  "sip_write h data =
     (let (v, t, c) = sip_write_loop (sip_v h) (sip_tmp h) (sip_count h) data
      in h\<lparr>sip_v := v, sip_tmp := t, sip_count := c\<rparr>)"

definition sip_Finalize :: "CSipHasher \<Rightarrow> u64" where
  "sip_Finalize h =
     sip_finish (sip_absorb (sip_v h) (sip_tmp h OR push_bit 56 (word_of_nat (sip_count h))))"

definition GetUint64 :: "byte list \<Rightarrow> nat \<Rightarrow> u64" where
  "GetUint64 val pos =
     (let ptr = drop (pos * 8) val
      in ucast (ptr ! 0) OR push_bit 8 (ucast (ptr ! 1)) OR push_bit 16 (ucast (ptr ! 2)) OR
         push_bit 24 (ucast (ptr ! 3)) OR push_bit 32 (ucast (ptr ! 4)) OR
         push_bit 40 (ucast (ptr ! 5)) OR push_bit 48 (ucast (ptr ! 6)) OR push_bit 56 (ucast (ptr ! 7)))"

text \<open>The specialised routines for 256-bit keys.\<close>

definition SipHashUint256 :: "u64 \<Rightarrow> u64 \<Rightarrow> byte list \<Rightarrow> u64" where
  "SipHashUint256 k0 k1 val =
     (let v = sip_absorb (sip_init k0 k1) (GetUint64 val 0);
          v = sip_absorb v (GetUint64 val 1);
          v = sip_absorb v (GetUint64 val 2);
          v = sip_absorb v (GetUint64 val 3);
          v = sip_absorb v (push_bit 59 4)
      in sip_finish v)"

definition SipHashUint256Extra :: "u64 \<Rightarrow> u64 \<Rightarrow> byte list \<Rightarrow> u32 \<Rightarrow> u64" where
  "SipHashUint256Extra k0 k1 val extra =
     (let v = sip_absorb (sip_init k0 k1) (GetUint64 val 0);
          v = sip_absorb v (GetUint64 val 1);
          v = sip_absorb v (GetUint64 val 2);
          v = sip_absorb v (GetUint64 val 3);
          v = sip_absorb v (push_bit 56 36 OR ucast extra)
      in sip_finish v)"

lemma sip_loop_8:
  assumes "length ptr = 8"
  shows "sip_write_loop v 0 (8 * q) (ptr @ data) =
    sip_write_loop (sip_absorb v (GetUint64 ptr 0)) 0 (8 * Suc q) data"
proof -
  obtain a b c d e f g h where ptr: "ptr = [a, b, c, d, e, f, g, h]"
    using length_eight [OF assms] by blast
  have q: "8 + 8 * q = Suc (Suc (Suc (Suc (Suc (Suc (Suc (Suc (8 * q))))))))" by simp
  show ?thesis
    unfolding mult_Suc_right q
    by (simp add: ptr GetUint64_def Let_def or.assoc Suc_times_mod_eq mod_Suc)
qed

lemma split_256_bits:
  assumes "length val = 32"
  obtains a b c d where "val = a @ b @ c @ d" "length a = 8" "length b = 8" "length c = 8" "length d = 8"
    "GetUint64 val 0 = GetUint64 a 0" "GetUint64 val (Suc 0) = GetUint64 b 0"
    "GetUint64 val 2 = GetUint64 c 0" "GetUint64 val 3 = GetUint64 d 0"
proof -
  let ?a = "take 8 val" and ?b = "take 8 (drop 8 val)" and ?c = "take 8 (drop 16 val)" and ?d = "drop 24 val"
  have "val = ?a @ ?b @ ?c @ ?d"
    using append_take_drop_id [of 8 "drop 8 val"] append_take_drop_id [of 8 "drop 16 val"] by simp
  then show ?thesis
    using assms by (intro that [of ?a ?b ?c ?d]) (simp_all add: GetUint64_def)
qed

lemma WriteLE32_bytes:
  "WriteLE32 x = [ucast x, ucast (drop_bit 8 x), ucast (drop_bit 16 x), ucast (drop_bit 24 x)]"
proof -
  have "word_of_nat (unat x div 2 ^ n) = (ucast (drop_bit n x) :: byte)" for n
    by (simp flip: unat_drop_bit_div)
  note w = this [of 0] this [of 8] this [of 16] this [of 24]
  have four: "(4 :: nat) = Suc (Suc (Suc (Suc 0)))" by simp
  have "WriteLE32 x = map word_of_nat
      [unat x, unat x div 256, unat x div 256 div 256, unat x div 256 div 256 div 256]"
    unfolding WriteLE32_def four by simp
  with w show ?thesis by (simp add: div_mult2_eq [symmetric])
qed

lemma ucast_u32_bytes:
  "ucast (x :: u32) = (ucast (ucast x :: byte) OR push_bit 8 (ucast (ucast (drop_bit 8 x) :: byte)) OR
     push_bit 16 (ucast (ucast (drop_bit 16 x) :: byte)) OR
     push_bit 24 (ucast (ucast (drop_bit 24 x) :: byte)) :: u64)"
proof (rule bit_eqI)
  fix n assume "possible_bit TYPE(u64) n"
  consider "n < 8" | "8 \<le> n" "n < 16" | "16 \<le> n" "n < 24" | "24 \<le> n" "n < 32" | "32 \<le> n" by linarith
  then show "bit (ucast x :: u64) n = bit (ucast (ucast x :: byte) OR
      push_bit 8 (ucast (ucast (drop_bit 8 x) :: byte)) OR
      push_bit 16 (ucast (ucast (drop_bit 16 x) :: byte)) OR
      push_bit 24 (ucast (ucast (drop_bit 24 x) :: byte)) :: u64) n"
    by cases (auto simp: bit_simps dest: bit_imp_le_length)
qed

lemma sip_loop_256:
  assumes "length val = 32"
  shows "sip_write_loop v 0 0 (val @ data) =
    sip_write_loop (sip_absorb (sip_absorb (sip_absorb (sip_absorb v (GetUint64 val 0))
      (GetUint64 val 1)) (GetUint64 val 2)) (GetUint64 val 3)) 0 32 data"
proof -
  obtain a b c d where val: "val = a @ b @ c @ d"
    and l: "length a = 8" "length b = 8" "length c = 8" "length d = 8"
    and g: "GetUint64 val 0 = GetUint64 a 0" "GetUint64 val (Suc 0) = GetUint64 b 0"
      "GetUint64 val 2 = GetUint64 c 0" "GetUint64 val 3 = GetUint64 d 0"
    using split_256_bits [OF assms] by blast
  show ?thesis
    using sip_loop_8 [OF l(1), of _ 0] sip_loop_8 [OF l(2), of _ 1] sip_loop_8 [OF l(3), of _ 2]
      sip_loop_8 [OF l(4), of _ 3] by (simp add: g) (simp add: val)
qed

text \<open>The specialised SipHash routines are the streaming SipHash: of the 32 bytes of the
  value, and of these followed by the 4 little-endian bytes of the extra word.\<close>

theorem SipHash_specialised:
  assumes "length val = 32"
  shows "SipHashUint256 k0 k1 val = sip_Finalize (sip_write (CSipHasher_new k0 k1) val) \<and>
    SipHashUint256Extra k0 k1 val extra =
      sip_Finalize (sip_write (sip_write (CSipHasher_new k0 k1) val) (WriteLE32 extra))"
proof
  note loop = sip_loop_256 [OF assms, of _ "[]"]
  show "SipHashUint256 k0 k1 val = sip_Finalize (sip_write (CSipHasher_new k0 k1) val)"
    using loop by (simp add: SipHashUint256_def sip_Finalize_def sip_write_def CSipHasher_new_def Let_def)
  have "push_bit 56 36 OR ucast extra =
      (ucast extra OR push_bit 56 (word_of_nat 36) :: u64)" by (simp add: or.commute)
  with loop show "SipHashUint256Extra k0 k1 val extra =
      sip_Finalize (sip_write (sip_write (CSipHasher_new k0 k1) val) (WriteLE32 extra))"
    by (simp add: SipHashUint256Extra_def sip_Finalize_def sip_write_def CSipHasher_new_def Let_def
        WriteLE32_bytes ucast_u32_bytes or.assoc)
qed

theorem SipHash_specialised_witness:
  "length (replicate 32 (0 :: byte)) = 32 \<and>
   SipHashUint256 1 2 (replicate 32 0) =
     sip_Finalize (sip_write (CSipHasher_new 1 2) (replicate 32 0))"
  using SipHash_specialised [of "replicate 32 0" 1 2] by simp

subsection \<open>The composed hashers compute composed digests\<close>

abbreviation sha256_hasher :: "byte list \<Rightarrow> CSHA256 \<Rightarrow> bool" where
  "sha256_hasher \<equiv> hasher_of 64 sha256_chunk sha256_Initialize"

lemma CSHA256_Write_hasher:
  "sha256_hasher m h \<Longrightarrow> sha256_hasher (m @ data) (CSHA256_Write h data)"
  by (simp add: CSHA256_Write_generic sha256_stream.write_hasher)

lemma CSHA256_Reset_hasher:
  assumes "sha256_hasher m h"
  shows "sha256_hasher [] (CSHA256_Reset (snd (CSHA256_Finalize h)))"
proof -
  obtain m' where "sha256_hasher m' (snd (CSHA256_Finalize h))"
    using CSHA256_Write_hasher [OF CSHA256_Write_hasher [OF assms]]
    by (auto simp: CSHA256_Finalize_def Let_def)
  then show ?thesis
    by (simp add: hasher_of_def CSHA256_Reset_def chain_short tail_short)
qed

lemma CHash256_Finalize_hasher:
  assumes "sha256_hasher m h"
  shows "CHash256_Finalize h = sha256_digest (sha256_digest m)"
  using CSHA256_Finalize_hasher [OF assms]
    CSHA256_Finalize_hasher [OF CSHA256_Write_hasher [OF CSHA256_Reset_hasher [OF assms]]]
  by (simp add: CHash256_Finalize_def split_def)

lemma GetHash_hasher: "sha256_hasher m h \<Longrightarrow> GetHash h = sha256_digest (sha256_digest m)"
  using CHash256_Finalize_hasher [of m h] by (simp add: GetHash_def CHash256_Finalize_def)

lemma CHash160_Finalize_hasher:
  assumes "sha256_hasher m h"
  shows "CHash160_Finalize h = rmd_digest (sha256_digest m)"
  using CSHA256_Finalize_hasher [OF assms]
    CRIPEMD160_Finalize_hasher [OF rmd_stream.write_hasher [OF CRIPEMD160_new_hasher]]
  by (simp add: CHash160_Finalize_def split_def CRIPEMD160_Write_def)

lemma Hash_digest: "Hash p = sha256_digest (sha256_digest p)"
  using CHash256_Finalize_hasher [OF CSHA256_Write_hasher [OF CSHA256_new_hasher]]
  by (simp add: Hash_def CHash256_Write_def)

lemma Hash160_digest: "Hash160 p = rmd_digest (sha256_digest p)"
  using CHash160_Finalize_hasher [OF CSHA256_Write_hasher [OF CSHA256_new_hasher]]
  by (simp add: Hash160_def CHash160_Write_def)

lemma Hash_2_digest: "Hash_2 p q = sha256_digest (sha256_digest (p @ q))"
  using CHash256_Finalize_hasher
    [OF CSHA256_Write_hasher [OF CSHA256_Write_hasher [OF CSHA256_new_hasher]]]
  by (simp add: Hash_2_def CHash256_Write_def)

lemma Hash_3_digest: "Hash_3 p q r = sha256_digest (sha256_digest (p @ q @ r))"
  using CHash256_Finalize_hasher
    [OF CSHA256_Write_hasher [OF CSHA256_Write_hasher [OF CSHA256_Write_hasher [OF CSHA256_new_hasher]]]]
  by (simp add: Hash_3_def CHash256_Write_def)

text \<open>\<open>Hash\<close> is double SHA-256 and \<open>Hash160\<close> RIPEMD-160 of SHA-256, and hashing two or
  three ranges hashes their concatenation.\<close>

theorem composed_hashes:
  "Hash p = sha256_digest (sha256_digest p) \<and> Hash160 p = rmd_digest (sha256_digest p) \<and>
   Hash_2 p q = Hash (p @ q) \<and> Hash_3 p q r = Hash (p @ q @ r)"
  by (simp add: Hash_digest Hash160_digest Hash_2_digest Hash_3_digest)

subsection \<open>HMAC\<close>

text \<open>HMAC of the standard over a hash \<open>H\<close> with blocks of \<open>bs\<close> bytes.\<close>

definition hmac_key :: "nat \<Rightarrow> (byte list \<Rightarrow> byte list) \<Rightarrow> byte list \<Rightarrow> byte list" where
  "hmac_key bs H key = (let k = (if length key \<le> bs then key else H key) in k @ replicate (bs - length k) 0)"

definition hmac_digest :: "nat \<Rightarrow> (byte list \<Rightarrow> byte list) \<Rightarrow> byte list \<Rightarrow> byte list \<Rightarrow> byte list" where
  "hmac_digest bs H key m =
     (let k = hmac_key bs H key
      in H (map (\<lambda>b. b XOR 0x5c) k @ H (map (\<lambda>b. b XOR 0x36) k @ m)))"

lemma length_chain:
  assumes "\<And>s c. length s = n \<Longrightarrow> length (tr s c) = n" "length s = n"
  shows "length (chain bs tr s m) = n"
proof -
  have "length (foldl tr s bs) = n" for bs
    using assms by (induction bs arbitrary: s) auto
  then show ?thesis by (simp add: chain_def)
qed

lemma length_concat_const: "(\<And>x. x \<in> set xs \<Longrightarrow> length (f x) = n) \<Longrightarrow> length (concat (map f xs)) = n * length xs"
  by (induction xs) auto

lemma length_sha256_digest [simp]: "length (sha256_digest m) = 32"
  unfolding sha256_digest_def sha256_initial [symmetric] chain_chunk_compress [symmetric]
  using length_chain [of 8 sha256_chunk, OF length_sha256_chunk]
  by (subst length_concat_const [where n = 4]) (simp_all add: sha256_Initialize_def)

lemma length_sha512_digest [simp]: "length (sha512_digest m) = 64"
  unfolding sha512_digest_def sha512_initial [symmetric] sha512_chain_compress [symmetric]
  using length_chain [of 8 sha512_chunk, OF length_sha512_chunk]
  by (subst length_concat_const [where n = 8]) (simp_all add: sha512_Initialize_def)

lemma length_rmd_digest [simp]: "length (rmd_digest m) = 20"
  unfolding rmd_digest_def rmd_chain_compress [symmetric]
  using length_chain [of 5 rmd_Transform, OF rmd_Transform_compress(2)]
  by (subst length_concat_const [where n = 4]) (simp_all add: rmd_Initialize_def)

lemma length_sha1_digest [simp]: "length (sha1_digest m) = 20"
  unfolding sha1_digest_def sha1_chain_compress [symmetric]
  using length_chain [of 5 sha1_Transform, OF sha1_Transform_compress(2)]
  by (subst length_concat_const [where n = 4]) (simp_all add: sha1_Initialize_def)

lemma hmac_pads: "(b XOR 0x5c) XOR 0x6a = (b XOR 0x36 :: byte)"
  by (simp add: xor.assoc)

lemma CSHA256_digest: "fst (CSHA256_Finalize (CSHA256_Write CSHA256_new m)) = sha256_digest m"
  using CSHA256_Finalize_hasher [OF CSHA256_Write_hasher [OF CSHA256_new_hasher]] by simp

abbreviation sha512_hasher :: "byte list \<Rightarrow> CSHA512 \<Rightarrow> bool" where
  "sha512_hasher \<equiv> hasher_of 128 sha512_chunk sha512_Initialize"

lemma CSHA512_Write_hasher:
  "sha512_hasher m h \<Longrightarrow> sha512_hasher (m @ data) (CSHA512_Write h data)"
  by (simp add: CSHA512_Write_def sha512_stream.write_hasher)

lemma CSHA512_digest: "fst (CSHA512_Finalize (CSHA512_Write CSHA512_new m)) = sha512_digest m"
  using CSHA512_Finalize_hasher [OF CSHA512_Write_hasher [OF CSHA512_new_hasher]] by simp

lemma hmac_256_new:
  "sha256_hasher (map (\<lambda>b. b XOR 0x5c) (hmac_key 64 sha256_digest key)) (outer (CHMAC_SHA256_new key)) \<and>
   sha256_hasher (map (\<lambda>b. b XOR 0x36) (hmac_key 64 sha256_digest key)) (inner (CHMAC_SHA256_new key))"
  using CSHA256_Write_hasher [OF CSHA256_new_hasher]
  by (auto simp: hmac_pads CHMAC_SHA256_new_def hmac_key_def Let_def CSHA256_digest o_def)

lemma hmac_512_new:
  "sha512_hasher (map (\<lambda>b. b XOR 0x5c) (hmac_key 128 sha512_digest key)) (outer (CHMAC_SHA512_new key)) \<and>
   sha512_hasher (map (\<lambda>b. b XOR 0x36) (hmac_key 128 sha512_digest key)) (inner (CHMAC_SHA512_new key))"
  using CSHA512_Write_hasher [OF CSHA512_new_hasher]
  by (auto simp: hmac_pads CHMAC_SHA512_new_def hmac_key_def Let_def CSHA512_digest o_def)

lemma CHMAC_SHA512_writes:
  assumes "sha512_hasher m (inner h)" "sha512_hasher k (outer h)"
  shows "CHMAC_SHA512_Finalize (foldl CHMAC_SHA512_Write h ds) =
    sha512_digest (k @ sha512_digest (m @ concat ds))"
  using assms
proof (induction ds arbitrary: m h)
  case Nil
  then show ?case
    using CSHA512_Finalize_hasher CSHA512_Finalize_hasher [OF CSHA512_Write_hasher [OF Nil(2)]]
    by (simp add: CHMAC_SHA512_Finalize_def)
next
  case (Cons d ds)
  then show ?case
    using Cons.IH [of "m @ d" "CHMAC_SHA512_Write h d"] CSHA512_Write_hasher [OF Cons.prems(1), of d]
    by (simp add: CHMAC_SHA512_Write_def)
qed

lemma CHMAC_SHA256_writes:
  assumes "sha256_hasher m (inner h)" "sha256_hasher k (outer h)"
  shows "CHMAC_SHA256_Finalize (foldl CHMAC_SHA256_Write h ds) =
    sha256_digest (k @ sha256_digest (m @ concat ds))"
  using assms
proof (induction ds arbitrary: m h)
  case Nil
  then show ?case
    using CSHA256_Finalize_hasher CSHA256_Finalize_hasher [OF CSHA256_Write_hasher [OF Nil(2)]]
    by (simp add: CHMAC_SHA256_Finalize_def)
next
  case (Cons d ds)
  then show ?case
    using Cons.IH [of "m @ d" "CHMAC_SHA256_Write h d"] CSHA256_Write_hasher [OF Cons.prems(1), of d]
    by (simp add: CHMAC_SHA256_Write_def)
qed

text \<open>C25. The HMAC classes compute the HMAC of the standard of everything written, for keys of
  every length (longer keys are hashed first).\<close>

theorem hmac_standard:
  "CHMAC_SHA256_Finalize (foldl CHMAC_SHA256_Write (CHMAC_SHA256_new key) ds) =
     hmac_digest 64 sha256_digest key (concat ds) \<and>
   CHMAC_SHA512_Finalize (foldl CHMAC_SHA512_Write (CHMAC_SHA512_new key) ds) =
     hmac_digest 128 sha512_digest key (concat ds)"
  using CHMAC_SHA256_writes hmac_256_new CHMAC_SHA512_writes hmac_512_new
  by (metis (no_types, lifting) hmac_digest_def)

lemma ucast_and_ff: "(ucast ((x :: u32) AND 0xFF) :: byte) = ucast x"
proof -
  have "x AND 0xFF = take_bit 8 x" by (simp add: take_bit_eq_mask mask_eq_exp_minus_1)
  then show ?thesis by (auto intro!: bit_eqI simp: bit_simps)
qed

lemma BIP32Hash_hmac:
  "BIP32Hash chainCode nChild header data =
     hmac_digest 128 sha512_digest chainCode (header # data @ WriteBE32 nChild)"
proof -
  have "WriteBE32 nChild = rev (WriteLE32 nChild)"
    by (simp add: WriteBE32_def WriteLE32_def be_bytes_def)
  then have num: "map (\<lambda>k. ucast (drop_bit k nChild AND 0xFF)) [24, 16, 8, 0] = WriteBE32 nChild"
    by (simp add: WriteLE32_bytes ucast_and_ff)
  show ?thesis
    using CHMAC_SHA512_writes [of _ "CHMAC_SHA512_new chainCode" _ "[[header], data, WriteBE32 nChild]"]
      hmac_512_new [of chainCode]
    unfolding BIP32Hash_def num by (auto simp: hmac_digest_def Let_def)
qed

end
