(* ===== verification/Interpreter.thy ===== *)
theory Interpreter
  imports Script_Checks Limited_Stack Hashers
begin

text \<open>
  \<open>EvalScript\<close> and \<open>VerifyScript\<close> of \<open>src/src/script/interpreter.cpp\<close>.  The call's constant
  arguments (limits, flags, signature checker, cancellation token) are a record
  \<open>eval_env\<close>; its variables and reference arguments are a record \<open>eval_state\<close>, whose heap
  holds the main and the alt stack.  An opcode's case of the \<open>switch\<close> is one definition, from
  a state to the next state or to the way the function is left early: an error code, success,
  cancellation or an exception, each with the state at that moment, because callers see the
  stack afterwards.  The answers of \<open>token.IsCanceled()\<close> are a function of the number of
  polls so far.
\<close>

subsection \<open>Environment, state, exits\<close>

record CScriptConfig =
  GetMaxOpsPerScript :: "bool \<Rightarrow> nat"
  GetMaxScriptNumLength :: "bool \<Rightarrow> nat"
  GetMaxScriptSize :: "bool \<Rightarrow> nat"
  GetMaxPubKeysPerMultiSig :: "bool \<Rightarrow> nat"
  GetMaxStackMemoryUsage :: "bool \<Rightarrow> nat"

record 'b eval_env =
  config :: CScriptConfig
  consensus :: bool
  verify_flags :: u32
  CheckSig :: "valtype \<Rightarrow> valtype \<Rightarrow> CScript \<Rightarrow> bool"
  CheckLowS :: "valtype \<Rightarrow> bool"
  IsCanceled :: "nat \<Rightarrow> bool"
  bignum :: "'b openssl"

record eval_state =
  heap :: stack_store
  ipc :: nat
  pbegincodehash :: nat
  vfExec :: "bool list"
  vfElse :: "bool list"
  nOpCount :: nat
  nonTopLevelReturn :: bool
  polls :: nat

datatype early_exit =
  ExitFail eval_state ScriptError
| ExitSuccess eval_state
| ExitCanceled eval_state
| ExitThrow eval_state cxx_exn
| ExitOutOfFuel eval_state

definition fail :: "eval_state \<Rightarrow> ScriptError \<Rightarrow> early_exit + 'a" where
  "fail s e = Inl (ExitFail s e)"

definition throws :: "eval_state \<Rightarrow> cxx_exn + 'a \<Rightarrow> early_exit + 'a" where
  "throws s m = (case m of Inl x \<Rightarrow> Inl (ExitThrow s x) | Inr a \<Rightarrow> Inr a)"

definition checks :: "eval_state \<Rightarrow> ScriptError + 'a \<Rightarrow> early_exit + 'a" where
  "checks s m = (case m of Inl e \<Rightarrow> fail s e | Inr a \<Rightarrow> Inr a)"

definition poll :: "'b eval_env \<Rightarrow> eval_state \<Rightarrow> early_exit + eval_state" where
  "poll E s =
     (let s' = s\<lparr>polls := polls s + 1\<rparr>
      in if IsCanceled E (polls s) then Inl (ExitCanceled s') else Inr s')"

subsection \<open>Calls on the main stack\<close>

definition depth :: "eval_state \<Rightarrow> nat" where
  "depth s = stack_size (heap s) main_stack"

definition need :: "eval_state \<Rightarrow> nat \<Rightarrow> early_exit + unit" where
  "need s n = (if depth s < n then fail s SCRIPT_ERR_INVALID_STACK_OPERATION else Inr ())"

definition on_heap ::
  "eval_state \<Rightarrow> (stack_store \<Rightarrow> cxx_exn + stack_store) \<Rightarrow> early_exit + eval_state" where
  "on_heap s f = bindE (throws s (f (heap s))) (\<lambda>h. Inr (s\<lparr>heap := h\<rparr>))"

definition push :: "eval_state \<Rightarrow> valtype \<Rightarrow> early_exit + eval_state" where
  "push s v = on_heap s (\<lambda>h. stack_push_back h main_stack v)"

definition push_copy :: "eval_state \<Rightarrow> LimitedVector \<Rightarrow> early_exit + eval_state" where
  "push_copy s v = on_heap s (\<lambda>h. stack_push_vector h main_stack v)"

definition pop :: "eval_state \<Rightarrow> early_exit + eval_state" where
  "pop s = on_heap s (\<lambda>h. stack_pop_back h main_stack)"

definition top_index :: "eval_state \<Rightarrow> int \<Rightarrow> early_exit + nat" where
  "top_index s k = throws s (stacktop (heap s) main_stack k)"

definition top_vector :: "eval_state \<Rightarrow> int \<Rightarrow> early_exit + LimitedVector" where
  "top_vector s k = bindE (top_index s k) (\<lambda>i. Inr (elems (heap s main_stack) ! i))"

definition top_bytes :: "eval_state \<Rightarrow> int \<Rightarrow> early_exit + valtype" where
  "top_bytes s k = bindE (top_vector s k) (\<lambda>v. Inr (stackElement v))"

abbreviation (input) vchFalse :: valtype where "vchFalse \<equiv> []"
abbreviation (input) vchTrue :: valtype where "vchTrue \<equiv> [1]"

abbreviation (input) fRequireMinimal :: "'b eval_env \<Rightarrow> bool" where
  "fRequireMinimal E \<equiv> has_flag (verify_flags E) SCRIPT_VERIFY_MINIMALDATA"

abbreviation (input) maxScriptNumLength :: "'b eval_env \<Rightarrow> nat" where
  "maxScriptNumLength E \<equiv> GetMaxScriptNumLength (config E) (consensus E)"

definition read_num :: "'b eval_env \<Rightarrow> eval_state \<Rightarrow> valtype \<Rightarrow> early_exit + 'b CScriptNum" where
  "read_num E s v =
     throws s (num_of_bytes (bignum E) v (fRequireMinimal E) (maxScriptNumLength E) True)"

text \<open>The conversion of an unsigned 64-bit index to the parameter type \<open>int\<close>.\<close>

definition int_of_index :: "int \<Rightarrow> int" where
  "int_of_index k = sint (word_of_int k :: 32 word)"

definition IsValidMaxOpsPerScript :: "nat \<Rightarrow> CScriptConfig \<Rightarrow> bool \<Rightarrow> bool" where
  "IsValidMaxOpsPerScript n cfg cons \<longleftrightarrow> n \<le> GetMaxOpsPerScript cfg cons"

subsection \<open>Push value and control\<close>

definition op_push_number :: "'b eval_env \<Rightarrow> nat \<Rightarrow> eval_state \<Rightarrow> early_exit + eval_state" where
  "op_push_number E opcode s =
     (let bn = Num64 (word_of_int (int opcode - (int OP_1 - 1)))
      in push s (num_getvch (bignum E) bn))"

definition op_upgradable_nop :: "'b eval_env \<Rightarrow> eval_state \<Rightarrow> early_exit + eval_state" where
  "op_upgradable_nop E s =
     (if has_flag (verify_flags E) SCRIPT_VERIFY_DISCOURAGE_UPGRADABLE_NOPS
      then fail s SCRIPT_ERR_DISCOURAGE_UPGRADABLE_NOPS else Inr s)"

definition op_if :: "'b eval_env \<Rightarrow> nat \<Rightarrow> bool \<Rightarrow> eval_state \<Rightarrow> early_exit + eval_state" where
  "op_if E opcode fExec s =
     bindE
       (if fExec then
          if depth s < 1 then fail s SCRIPT_ERR_UNBALANCED_CONDITIONAL
          else bindE (top_bytes s (- 1)) (\<lambda>vch.
            if has_flag (verify_flags E) SCRIPT_VERIFY_MINIMALIF \<and> length vch > 1
            then fail s SCRIPT_ERR_MINIMALIF
            else if has_flag (verify_flags E) SCRIPT_VERIFY_MINIMALIF \<and> length vch = 1 \<and> vch ! 0 \<noteq> 1
            then fail s SCRIPT_ERR_MINIMALIF
            else let fValue = CastToBool vch;
                     fValue = (if opcode = OP_NOTIF then \<not> fValue else fValue)
              in bindE (pop s) (\<lambda>s. Inr (s, fValue)))
        else Inr (s, False))
       (\<lambda>(s, fValue). Inr (s\<lparr>vfExec := vfExec s @ [fValue], vfElse := vfElse s @ [False]\<rparr>))"

definition op_else :: "eval_state \<Rightarrow> early_exit + eval_state" where
  "op_else s =
     (if vfExec s = [] \<or> last (vfElse s) then fail s SCRIPT_ERR_UNBALANCED_CONDITIONAL
      else Inr (s\<lparr>vfExec := butlast (vfExec s) @ [\<not> last (vfExec s)],
                  vfElse := butlast (vfElse s) @ [True]\<rparr>))"

definition op_endif :: "eval_state \<Rightarrow> early_exit + eval_state" where
  "op_endif s =
     (if vfExec s = [] then fail s SCRIPT_ERR_UNBALANCED_CONDITIONAL
      else Inr (s\<lparr>vfExec := butlast (vfExec s), vfElse := butlast (vfElse s)\<rparr>))"

definition op_verify :: "eval_state \<Rightarrow> early_exit + eval_state" where
  "op_verify s =
     bindE (need s 1) (\<lambda>_. bindE (top_bytes s (- 1)) (\<lambda>v.
       if CastToBool v then pop s else fail s SCRIPT_ERR_VERIFY))"

definition op_return :: "eval_state \<Rightarrow> early_exit + eval_state" where
  "op_return s =
     (if vfExec s = [] then Inl (ExitSuccess s) else Inr (s\<lparr>nonTopLevelReturn := True\<rparr>))"

subsection \<open>Stack ops\<close>

definition op_toaltstack :: "eval_state \<Rightarrow> early_exit + eval_state" where
  "op_toaltstack s =
     bindE (need s 1) (\<lambda>_. on_heap s (\<lambda>h. moveTopToStack h alt_stack main_stack))"

definition op_fromaltstack :: "eval_state \<Rightarrow> early_exit + eval_state" where
  "op_fromaltstack s =
     (if stack_size (heap s) alt_stack < 1 then fail s SCRIPT_ERR_INVALID_ALTSTACK_OPERATION
      else on_heap s (\<lambda>h. moveTopToStack h main_stack alt_stack))"

definition op_2drop :: "eval_state \<Rightarrow> early_exit + eval_state" where
  "op_2drop s = bindE (need s 2) (\<lambda>_. bindE (pop s) pop)"

definition op_2dup :: "eval_state \<Rightarrow> early_exit + eval_state" where
  "op_2dup s =
     bindE (need s 2) (\<lambda>_. bindE (top_vector s (- 2)) (\<lambda>vch1. bindE (top_vector s (- 1)) (\<lambda>vch2.
       bindE (push_copy s vch1) (\<lambda>s. push_copy s vch2))))"

definition op_3dup :: "eval_state \<Rightarrow> early_exit + eval_state" where
  "op_3dup s =
     bindE (need s 3) (\<lambda>_. bindE (top_vector s (- 3)) (\<lambda>vch1. bindE (top_vector s (- 2)) (\<lambda>vch2.
       bindE (top_vector s (- 1)) (\<lambda>vch3.
         bindE (push_copy s vch1) (\<lambda>s. bindE (push_copy s vch2) (\<lambda>s. push_copy s vch3))))))"

definition op_2over :: "eval_state \<Rightarrow> early_exit + eval_state" where
  "op_2over s =
     bindE (need s 4) (\<lambda>_. bindE (top_vector s (- 4)) (\<lambda>vch1. bindE (top_vector s (- 3)) (\<lambda>vch2.
       bindE (push_copy s vch1) (\<lambda>s. push_copy s vch2))))"

definition op_2rot :: "eval_state \<Rightarrow> early_exit + eval_state" where
  "op_2rot s =
     bindE (need s 6) (\<lambda>_. bindE (top_vector s (- 6)) (\<lambda>vch1. bindE (top_vector s (- 5)) (\<lambda>vch2.
       bindE (on_heap s (\<lambda>h. stack_erase_range h main_stack (- 6) (- 4))) (\<lambda>s.
         bindE (push_copy s vch1) (\<lambda>s. push_copy s vch2)))))"

definition swap_at :: "eval_state \<Rightarrow> nat \<Rightarrow> nat \<Rightarrow> early_exit + eval_state" where
  "swap_at s i j = on_heap s (\<lambda>h. swapElements h main_stack (depth s - i) (depth s - j))"

definition op_2swap :: "eval_state \<Rightarrow> early_exit + eval_state" where
  "op_2swap s = bindE (need s 4) (\<lambda>_. bindE (swap_at s 4 2) (\<lambda>s. swap_at s 3 1))"

definition op_ifdup :: "eval_state \<Rightarrow> early_exit + eval_state" where
  "op_ifdup s =
     bindE (need s 1) (\<lambda>_. bindE (top_vector s (- 1)) (\<lambda>vch.
       if CastToBool (stackElement vch) then push_copy s vch else Inr s))"

definition push_size :: "'b eval_env \<Rightarrow> eval_state \<Rightarrow> nat \<Rightarrow> early_exit + eval_state" where
  "push_size E s n =
     bindE (throws s (bint_of_size_t (bignum E) n)) (\<lambda>b. push s (num_getvch (bignum E) (NumBig b)))"

definition op_depth :: "'b eval_env \<Rightarrow> eval_state \<Rightarrow> early_exit + eval_state" where
  "op_depth E s = push_size E s (depth s)"

definition op_drop :: "eval_state \<Rightarrow> early_exit + eval_state" where
  "op_drop s = bindE (need s 1) (\<lambda>_. pop s)"

definition op_dup :: "eval_state \<Rightarrow> early_exit + eval_state" where
  "op_dup s = bindE (need s 1) (\<lambda>_. bindE (top_vector s (- 1)) (push_copy s))"

definition op_nip :: "eval_state \<Rightarrow> early_exit + eval_state" where
  "op_nip s = bindE (need s 2) (\<lambda>_. on_heap s (\<lambda>h. stack_erase h main_stack (- 2)))"

definition op_over :: "eval_state \<Rightarrow> early_exit + eval_state" where
  "op_over s = bindE (need s 2) (\<lambda>_. bindE (top_vector s (- 2)) (push_copy s))"

definition pick_roll :: "nat \<Rightarrow> nat \<Rightarrow> eval_state \<Rightarrow> early_exit + eval_state" where
  "pick_roll opcode n s =
     bindE (top_vector s (int_of_index (- int n - 1))) (\<lambda>vch.
       bindE (if opcode = OP_ROLL
              then on_heap s (\<lambda>h. stack_erase h main_stack (int_of_index (- int n - 1)))
              else Inr s)
         (\<lambda>s. push_copy s vch))"

definition op_pick_roll :: "'b eval_env \<Rightarrow> nat \<Rightarrow> eval_state \<Rightarrow> early_exit + eval_state" where
  "op_pick_roll E opcode s =
     bindE (need s 2) (\<lambda>_. bindE (top_bytes s (- 1)) (\<lambda>t. bindE (read_num E s t) (\<lambda>sn.
       bindE (pop s) (\<lambda>s. bindE (throws s (num_lt_i64 (bignum E) sn 0)) (\<lambda>neg.
         bindE (if neg then Inr True else throws s (num_ge_i64 (bignum E) sn (int (depth s)))) (\<lambda>outside.
           if outside then fail s SCRIPT_ERR_INVALID_STACK_OPERATION
           else bindE (throws s (num_to_size_t_limited (bignum E) sn)) (\<lambda>n.
             pick_roll opcode n s)))))))"

definition op_rot :: "eval_state \<Rightarrow> early_exit + eval_state" where
  "op_rot s = bindE (need s 3) (\<lambda>_. bindE (swap_at s 3 2) (\<lambda>s. swap_at s 2 1))"

definition op_swap :: "eval_state \<Rightarrow> early_exit + eval_state" where
  "op_swap s = bindE (need s 2) (\<lambda>_. swap_at s 2 1)"

definition op_tuck :: "eval_state \<Rightarrow> early_exit + eval_state" where
  "op_tuck s =
     bindE (need s 2) (\<lambda>_. bindE (top_vector s (- 1)) (\<lambda>vch.
       on_heap s (\<lambda>h. stack_insert h main_stack (- 2) vch)))"

definition op_size :: "'b eval_env \<Rightarrow> eval_state \<Rightarrow> early_exit + eval_state" where
  "op_size E s = bindE (need s 1) (\<lambda>_. bindE (top_bytes s (- 1)) (\<lambda>v. push_size E s (length v)))"

subsection \<open>Bitwise logic\<close>

definition bitwise :: "nat \<Rightarrow> byte \<Rightarrow> byte \<Rightarrow> byte" where
  "bitwise opcode a b =
     (if opcode = OP_AND then a AND b else if opcode = OP_OR then a OR b
      else if opcode = OP_XOR then a XOR b else a)"

definition op_bitwise :: "nat \<Rightarrow> eval_state \<Rightarrow> early_exit + eval_state" where
  "op_bitwise opcode s =
     bindE (need s 2) (\<lambda>_. bindE (top_index s (- 2)) (\<lambda>i. bindE (top_bytes s (- 1)) (\<lambda>vch2.
       let vch1 = element (heap s) main_stack i
       in if length vch1 \<noteq> length vch2 then fail s SCRIPT_ERR_INVALID_OPERAND_SIZE
          else pop (s\<lparr>heap := set_element (heap s) main_stack i (map2 (bitwise opcode) vch1 vch2)\<rparr>))))"

definition op_invert :: "eval_state \<Rightarrow> early_exit + eval_state" where
  "op_invert s =
     bindE (need s 1) (\<lambda>_. bindE (top_index s (- 1)) (\<lambda>i.
       Inr (s\<lparr>heap := set_element (heap s) main_stack i (map (NOT) (element (heap s) main_stack i))\<rparr>)))"

text \<open>The \<open>do\<close> loop of the shifts; at most one iteration per bit of the operand is needed.\<close>

fun shift_loop :: "'b eval_env \<Rightarrow> (valtype \<Rightarrow> nat \<Rightarrow> valtype) \<Rightarrow> nat \<Rightarrow> eval_state \<Rightarrow> valtype \<Rightarrow>
    'b CScriptNum \<Rightarrow> early_exit + eval_state \<times> valtype" where
  "shift_loop E shift 0 s values n = Inl (ExitOutOfFuel s)"
| "shift_loop E shift (Suc fuel) s values n =
     bindE (throws s (num_getint (bignum E) n)) (\<lambda>k.
       let values = shift values (nat k)
       in bindE (poll E s) (\<lambda>s. bindE (throws s (bint_of_int (bignum E) INT_MAX)) (\<lambda>mx.
            bindE (throws s (num_sub (bignum E) n (NumBig mx))) (\<lambda>n.
              bindE (throws s (num_gt_i64 (bignum E) n 0)) (\<lambda>again.
                if again then shift_loop E shift fuel s values n else Inr (s, values))))))"

definition op_shift ::
  "'b eval_env \<Rightarrow> (valtype \<Rightarrow> nat \<Rightarrow> valtype) \<Rightarrow> eval_state \<Rightarrow> early_exit + eval_state" where
  "op_shift E shift s =
     bindE (need s 2) (\<lambda>_. bindE (top_bytes s (- 2)) (\<lambda>values. bindE (top_bytes s (- 1)) (\<lambda>t.
       bindE (read_num E s t) (\<lambda>n. bindE (throws s (num_lt_i64 (bignum E) n 0)) (\<lambda>neg.
         if neg then fail s SCRIPT_ERR_INVALID_NUMBER_RANGE
         else bindE (pop s) (\<lambda>s. bindE (pop s) (\<lambda>s.
           bindE (throws s (num_ge_i64 (bignum E) n (int (length values * 8)))) (\<lambda>all_out.
             if all_out then push s (replicate (length values) 0)
             else bindE (shift_loop E shift (length values * 8 + 1) s values n)
               (\<lambda>(s, values). push s values)))))))))"

definition op_equal :: "nat \<Rightarrow> eval_state \<Rightarrow> early_exit + eval_state" where
  "op_equal opcode s =
     bindE (need s 2) (\<lambda>_. bindE (top_bytes s (- 2)) (\<lambda>vch1. bindE (top_bytes s (- 1)) (\<lambda>vch2.
       let fEqual = (vch1 = vch2)
       in bindE (pop s) (\<lambda>s. bindE (pop s) (\<lambda>s. bindE (push s (if fEqual then vchTrue else vchFalse)) (\<lambda>s.
            if opcode = OP_EQUALVERIFY then
              (if fEqual then pop s else fail s SCRIPT_ERR_EQUALVERIFY)
            else Inr s))))))"

subsection \<open>Numeric\<close>

definition unary_num :: "'b openssl \<Rightarrow> nat \<Rightarrow> 'b CScriptNum \<Rightarrow> cxx_exn + 'b CScriptNum" where
  "unary_num B opcode bn =
     (if opcode = OP_1ADD then bindE (bint_of_int B 1) (\<lambda>one. num_add B bn (NumBig one))
      else if opcode = OP_1SUB then bindE (bint_of_int B 1) (\<lambda>one. num_sub B bn (NumBig one))
      else if opcode = OP_NEGATE then Inr (num_uminus B bn)
      else if opcode = OP_ABS then
        bindE (num_lt B bn (Num64 0)) (\<lambda>neg. Inr (if neg then num_uminus B bn else bn))
      else if opcode = OP_NOT then bindE (num_eq B bn (Num64 0)) (\<lambda>r. Inr (num_of_bool r))
      else if opcode = OP_0NOTEQUAL then bindE (num_ne B bn (Num64 0)) (\<lambda>r. Inr (num_of_bool r))
      else Inl assert_failure)"

definition op_unary :: "'b eval_env \<Rightarrow> nat \<Rightarrow> eval_state \<Rightarrow> early_exit + eval_state" where
  "op_unary E opcode s =
     bindE (need s 1) (\<lambda>_. bindE (top_bytes s (- 1)) (\<lambda>t. bindE (read_num E s t) (\<lambda>bn.
       bindE (throws s (unary_num (bignum E) opcode bn)) (\<lambda>bn.
         bindE (pop s) (\<lambda>s. push s (num_getvch (bignum E) bn))))))"

definition binary_num :: "'b openssl \<Rightarrow> nat \<Rightarrow> 'b CScriptNum \<Rightarrow> 'b CScriptNum \<Rightarrow>
    cxx_exn + ScriptError + 'b CScriptNum" where
  "binary_num B opcode bn1 bn2 =
     (let num = (\<lambda>m. bindE m (\<lambda>bn. Inr (Inr bn)));
          bool = (\<lambda>m. bindE m (\<lambda>r. Inr (Inr (num_of_bool r))))
      in if opcode = OP_ADD then num (num_add B bn1 bn2)
         else if opcode = OP_SUB then num (num_sub B bn1 bn2)
         else if opcode = OP_MUL then num (num_mul B bn1 bn2)
         else if opcode = OP_DIV then bindE (num_eq B bn2 (Num64 0)) (\<lambda>zero.
           if zero then Inr (Inl SCRIPT_ERR_DIV_BY_ZERO) else num (num_div B bn1 bn2))
         else if opcode = OP_MOD then bindE (num_eq B bn2 (Num64 0)) (\<lambda>zero.
           if zero then Inr (Inl SCRIPT_ERR_MOD_BY_ZERO) else num (num_mod B bn1 bn2))
         else if opcode = OP_BOOLAND then bool (bindE (num_ne B bn1 (Num64 0)) (\<lambda>r.
           if r then num_ne B bn2 (Num64 0) else Inr False))
         else if opcode = OP_BOOLOR then bool (bindE (num_ne B bn1 (Num64 0)) (\<lambda>r.
           if r then Inr True else num_ne B bn2 (Num64 0)))
         else if opcode = OP_NUMEQUAL then bool (num_eq B bn1 bn2)
         else if opcode = OP_NUMEQUALVERIFY then bool (num_eq B bn1 bn2)
         else if opcode = OP_NUMNOTEQUAL then bool (num_ne B bn1 bn2)
         else if opcode = OP_LESSTHAN then bool (num_lt B bn1 bn2)
         else if opcode = OP_GREATERTHAN then bool (num_gt B bn1 bn2)
         else if opcode = OP_LESSTHANOREQUAL then bool (num_le B bn1 bn2)
         else if opcode = OP_GREATERTHANOREQUAL then bool (num_ge B bn1 bn2)
         else if opcode = OP_MIN then
           bindE (num_lt B bn1 bn2) (\<lambda>r. Inr (Inr (if r then bn1 else bn2)))
         else if opcode = OP_MAX then
           bindE (num_gt B bn1 bn2) (\<lambda>r. Inr (Inr (if r then bn1 else bn2)))
         else Inl assert_failure)"

definition op_binary :: "'b eval_env \<Rightarrow> nat \<Rightarrow> eval_state \<Rightarrow> early_exit + eval_state" where
  "op_binary E opcode s =
     bindE (need s 2) (\<lambda>_. bindE (top_bytes s (- 2)) (\<lambda>arg_2. bindE (top_bytes s (- 1)) (\<lambda>arg_1.
       bindE (read_num E s arg_2) (\<lambda>bn1. bindE (read_num E s arg_1) (\<lambda>bn2.
         bindE (throws s (binary_num (bignum E) opcode bn1 bn2)) (\<lambda>r. bindE (checks s r) (\<lambda>bn.
           bindE (pop s) (\<lambda>s. bindE (pop s) (\<lambda>s. bindE (push s (num_getvch (bignum E) bn)) (\<lambda>s.
             if opcode = OP_NUMEQUALVERIFY then
               bindE (top_bytes s (- 1)) (\<lambda>v.
                 if CastToBool v then pop s else fail s SCRIPT_ERR_NUMEQUALVERIFY)
             else Inr s))))))))))"

definition op_within :: "'b eval_env \<Rightarrow> eval_state \<Rightarrow> early_exit + eval_state" where
  "op_within E s =
     bindE (need s 3) (\<lambda>_. bindE (top_bytes s (- 3)) (\<lambda>top_3. bindE (read_num E s top_3) (\<lambda>bn1.
       bindE (top_bytes s (- 2)) (\<lambda>top_2. bindE (read_num E s top_2) (\<lambda>bn2.
         bindE (top_bytes s (- 1)) (\<lambda>top_1. bindE (read_num E s top_1) (\<lambda>bn3.
           bindE (throws s (num_le (bignum E) bn2 bn1)) (\<lambda>ge.
             bindE (if ge then throws s (num_lt (bignum E) bn1 bn3) else Inr False) (\<lambda>fValue.
               bindE (pop s) (\<lambda>s. bindE (pop s) (\<lambda>s. bindE (pop s) (\<lambda>s.
                 push s (if fValue then vchTrue else vchFalse)))))))))))))"

subsection \<open>Crypto\<close>

definition opcode_hash :: "nat \<Rightarrow> valtype \<Rightarrow> valtype" where
  "opcode_hash opcode v =
     (if opcode = OP_RIPEMD160 then fst (CRIPEMD160_Finalize (CRIPEMD160_Write CRIPEMD160_new v))
      else if opcode = OP_SHA1 then fst (CSHA1_Finalize (CSHA1_Write CSHA1_new v))
      else if opcode = OP_SHA256 then fst (CSHA256_Finalize (CSHA256_Write CSHA256_new v))
      else if opcode = OP_HASH160 then CHash160_Finalize (CHash160_Write CSHA256_new v)
      else if opcode = OP_HASH256 then CHash256_Finalize (CHash256_Write CSHA256_new v)
      else replicate 32 0)"

definition op_hash :: "nat \<Rightarrow> eval_state \<Rightarrow> early_exit + eval_state" where
  "op_hash opcode s =
     bindE (need s 1) (\<lambda>_. bindE (top_bytes s (- 1)) (\<lambda>vch.
       bindE (pop s) (\<lambda>s. push s (opcode_hash opcode vch))))"

definition check_encodings :: "'b eval_env \<Rightarrow> valtype \<Rightarrow> valtype \<Rightarrow> ScriptError + unit" where
  "check_encodings E vchSig vchPubKey =
     bindE (CheckSignatureEncoding (CheckLowS E) vchSig (verify_flags E))
       (\<lambda>_. CheckPubKeyEncoding vchPubKey (verify_flags E))"

definition op_checksig ::
  "'b eval_env \<Rightarrow> CScript \<Rightarrow> nat \<Rightarrow> eval_state \<Rightarrow> early_exit + eval_state" where
  "op_checksig E script opcode s =
     bindE (need s 2) (\<lambda>_. bindE (top_bytes s (- 2)) (\<lambda>vchSig. bindE (top_bytes s (- 1)) (\<lambda>vchPubKey.
       bindE (checks s (check_encodings E vchSig vchPubKey)) (\<lambda>_.
         let fSuccess = CheckSig E vchSig vchPubKey (drop (pbegincodehash s) script)
         in if \<not> fSuccess \<and> has_flag (verify_flags E) SCRIPT_VERIFY_NULLFAIL \<and> length vchSig \<noteq> 0
            then fail s SCRIPT_ERR_SIG_NULLFAIL
            else bindE (pop s) (\<lambda>s. bindE (pop s) (\<lambda>s.
              bindE (push s (if fSuccess then vchTrue else vchFalse)) (\<lambda>s.
                if opcode = OP_CHECKSIGVERIFY then
                  (if fSuccess then pop s else fail s SCRIPT_ERR_CHECKSIGVERIFY)
                else Inr s)))))))"

text \<open>The matching loop of \<open>OP_CHECKMULTISIG\<close>.  There are never more signatures than keys left
  while \<open>fSuccess\<close> holds, so the key counter of the source does not wrap below zero.\<close>

fun multisig_loop :: "'b eval_env \<Rightarrow> CScript \<Rightarrow> nat \<Rightarrow> nat \<Rightarrow> nat \<Rightarrow> nat \<Rightarrow> eval_state \<Rightarrow>
    early_exit + eval_state \<times> bool" where
  "multisig_loop E scriptCode isig ikey 0 nKeysCount s = Inr (s, True)"
| "multisig_loop E scriptCode isig ikey nSigsCount 0 s = Inr (s, False)"
| "multisig_loop E scriptCode isig ikey (Suc nSigsCount) (Suc nKeysCount) s =
     bindE (poll E s) (\<lambda>s. bindE (top_bytes s (int_of_index (- int isig))) (\<lambda>vchSig.
       bindE (top_bytes s (int_of_index (- int ikey))) (\<lambda>vchPubKey.
         bindE (checks s (check_encodings E vchSig vchPubKey)) (\<lambda>_.
           let fOk = CheckSig E vchSig vchPubKey scriptCode;
               isig' = (if fOk then isig + 1 else isig);
               left = (if fOk then nSigsCount else Suc nSigsCount)
           in if left > nKeysCount then Inr (s, False)
              else multisig_loop E scriptCode isig' (ikey + 1) left nKeysCount s))))"

fun multisig_cleanup ::
  "'b eval_env \<Rightarrow> bool \<Rightarrow> nat \<Rightarrow> nat \<Rightarrow> eval_state \<Rightarrow> early_exit + eval_state" where
  "multisig_cleanup E fSuccess 0 ikey2 s = Inr s"
| "multisig_cleanup E fSuccess (Suc n) ikey2 s =
     bindE (if \<not> fSuccess \<and> has_flag (verify_flags E) SCRIPT_VERIFY_NULLFAIL \<and> ikey2 = 0
            then bindE (top_bytes s (- 1)) (\<lambda>v.
              if length v \<noteq> 0 then fail s SCRIPT_ERR_SIG_NULLFAIL else Inr ())
            else Inr ())
       (\<lambda>_. bindE (pop s) (\<lambda>s. multisig_cleanup E fSuccess n (ikey2 - 1) s))"

definition read_count :: "'b eval_env \<Rightarrow> eval_state \<Rightarrow> nat \<Rightarrow> early_exit + int" where
  "read_count E s i =
     bindE (top_bytes s (int_of_index (- int i))) (\<lambda>v.
       bindE (throws s (num_of_bytes (bignum E) v (fRequireMinimal E) MAXIMUM_ELEMENT_SIZE False)) (\<lambda>n.
         throws s (num_getint (bignum E) n)))"

text \<open>After the counts are read: the loop, the removal of the arguments and the result.\<close>

definition multisig_result :: "'b eval_env \<Rightarrow> nat \<Rightarrow> bool \<Rightarrow> eval_state \<Rightarrow> early_exit + eval_state" where
  "multisig_result E opcode fSuccess s =
     bindE (need s 1) (\<lambda>_. bindE (top_bytes s (- 1)) (\<lambda>v.
       if has_flag (verify_flags E) SCRIPT_VERIFY_NULLDUMMY \<and> length v \<noteq> 0
       then fail s SCRIPT_ERR_SIG_NULLDUMMY
       else bindE (pop s) (\<lambda>s. bindE (push s (if fSuccess then vchTrue else vchFalse)) (\<lambda>s.
         if opcode = OP_CHECKMULTISIGVERIFY then
           (if fSuccess then pop s else fail s SCRIPT_ERR_CHECKMULTISIGVERIFY)
         else Inr s))))"

definition multisig_finish :: "'b eval_env \<Rightarrow> CScript \<Rightarrow> nat \<Rightarrow> nat \<Rightarrow> nat \<Rightarrow> eval_state \<Rightarrow>
    early_exit + eval_state" where
  "multisig_finish E script opcode nKeysCount nSigsCount s =
     bindE (multisig_loop E (drop (pbegincodehash s) script) (nKeysCount + 3) 2 nSigsCount nKeysCount s)
       (\<lambda>(s, fSuccess).
         bindE (multisig_cleanup E fSuccess (nKeysCount + 2 + nSigsCount) (nKeysCount + 2) s) (\<lambda>s.
           multisig_result E opcode fSuccess s))"

definition op_checkmultisig ::
  "'b eval_env \<Rightarrow> CScript \<Rightarrow> nat \<Rightarrow> eval_state \<Rightarrow> early_exit + eval_state" where
  "op_checkmultisig E script opcode s =
     bindE (need s 1) (\<lambda>_. bindE (read_count E s 1) (\<lambda>nKeysCountSigned.
       if nKeysCountSigned < 0 then fail s SCRIPT_ERR_PUBKEY_COUNT
       else let nKeysCount = nat nKeysCountSigned
         in if nKeysCount > GetMaxPubKeysPerMultiSig (config E) (consensus E)
            then fail s SCRIPT_ERR_PUBKEY_COUNT
            else let s = s\<lparr>nOpCount := nOpCount s + nKeysCount\<rparr>
              in if \<not> IsValidMaxOpsPerScript (nOpCount s) (config E) (consensus E)
                 then fail s SCRIPT_ERR_OP_COUNT
                 else bindE (need s (nKeysCount + 2)) (\<lambda>_.
                   bindE (read_count E s (nKeysCount + 2)) (\<lambda>nSigsCountSigned.
                     if nSigsCountSigned < 0 then fail s SCRIPT_ERR_SIG_COUNT
                     else let nSigsCount = nat nSigsCountSigned
                       in if nSigsCount > nKeysCount then fail s SCRIPT_ERR_SIG_COUNT
                          else bindE (need s (nKeysCount + 3 + nSigsCount)) (\<lambda>_.
                            multisig_finish E script opcode nKeysCount nSigsCount s)))))"

subsection \<open>Byte string and conversion operations\<close>

definition op_cat :: "eval_state \<Rightarrow> early_exit + eval_state" where
  "op_cat s =
     bindE (need s 2) (\<lambda>_. bindE (top_index s (- 2)) (\<lambda>i. bindE (top_vector s (- 1)) (\<lambda>vch2.
       bindE (pop s) (\<lambda>s. on_heap s (\<lambda>h. vector_append h main_stack i vch2)))))"

definition op_split :: "'b eval_env \<Rightarrow> eval_state \<Rightarrow> early_exit + eval_state" where
  "op_split E s =
     bindE (need s 2) (\<lambda>_. bindE (top_bytes s (- 2)) (\<lambda>data. bindE (top_bytes s (- 1)) (\<lambda>t.
       bindE (read_num E s t) (\<lambda>n. bindE (throws s (num_lt_i64 (bignum E) n 0)) (\<lambda>neg.
         bindE (if neg then Inr True else throws s (num_gt_i64 (bignum E) n (int (length data)))) (\<lambda>outside.
           if outside then fail s SCRIPT_ERR_INVALID_SPLIT_RANGE
           else bindE (throws s (num_to_size_t_limited (bignum E) n)) (\<lambda>position.
             bindE (pop s) (\<lambda>s. bindE (pop s) (\<lambda>s.
               bindE (push s (take position data)) (\<lambda>s. push s (drop position data)))))))))))"

definition op_num2bin :: "'b eval_env \<Rightarrow> eval_state \<Rightarrow> early_exit + eval_state" where
  "op_num2bin E s =
     bindE (need s 2) (\<lambda>_. bindE (top_bytes s (- 1)) (\<lambda>arg_1. bindE (read_num E s arg_1) (\<lambda>n.
       bindE (throws s (num_lt_i64 (bignum E) n 0)) (\<lambda>neg.
         bindE (if neg then Inr True else throws s (num_gt_i64 (bignum E) n INT_MAX)) (\<lambda>outside.
           if outside then fail s SCRIPT_ERR_PUSH_SIZE
           else bindE (throws s (num_to_size_t_limited (bignum E) n)) (\<lambda>size.
             bindE (pop s) (\<lambda>s. bindE (top_index s (- 1)) (\<lambda>i.
               bindE (on_heap s (\<lambda>h. bindE (vector_MinimallyEncode h main_stack i) (\<lambda>(h, _). Inr h))) (\<lambda>s.
                 let rawnum = element (heap s) main_stack i
                 in if length rawnum > size then fail s SCRIPT_ERR_IMPOSSIBLE_ENCODING
                    else if length rawnum = size then Inr s
                    else let signbit = (if rawnum = [] then 0 else last rawnum AND 0x80);
                             rawnum = (if rawnum = [] then rawnum
                                       else butlast rawnum @ [last rawnum AND 0x7f])
                      in on_heap (s\<lparr>heap := set_element (heap s) main_stack i rawnum\<rparr>)
                           (\<lambda>h. padRight h main_stack i size signbit))))))))))"

definition op_bin2num :: "'b eval_env \<Rightarrow> eval_state \<Rightarrow> early_exit + eval_state" where
  "op_bin2num E s =
     bindE (need s 1) (\<lambda>_. bindE (top_index s (- 1)) (\<lambda>i.
       bindE (on_heap s (\<lambda>h. bindE (vector_MinimallyEncode h main_stack i) (\<lambda>(h, _). Inr h))) (\<lambda>s.
         if \<not> vector_IsMinimallyEncoded (heap s) main_stack i (maxScriptNumLength E)
         then fail s SCRIPT_ERR_INVALID_NUMBER_RANGE else Inr s)))"

subsection \<open>The \<open>switch\<close> and the loop\<close>

definition exec_opcode :: "'b eval_env \<Rightarrow> CScript \<Rightarrow> nat \<Rightarrow> nat \<Rightarrow> bool \<Rightarrow> eval_state \<Rightarrow>
    early_exit + eval_state" where
  "exec_opcode E script pc opcode fExec s =
     (if opcode = OP_1NEGATE \<or> OP_1 \<le> opcode \<and> opcode \<le> OP_16 then op_push_number E opcode s
      else if opcode = OP_NOP then Inr s
      else if OP_NOP1 \<le> opcode \<and> opcode \<le> OP_NOP10 then op_upgradable_nop E s
      else if opcode = OP_IF \<or> opcode = OP_NOTIF then op_if E opcode fExec s
      else if opcode = OP_ELSE then op_else s
      else if opcode = OP_ENDIF then op_endif s
      else if opcode = OP_VERIFY then op_verify s
      else if opcode = OP_RETURN then op_return s
      else if opcode = OP_TOALTSTACK then op_toaltstack s
      else if opcode = OP_FROMALTSTACK then op_fromaltstack s
      else if opcode = OP_2DROP then op_2drop s
      else if opcode = OP_2DUP then op_2dup s
      else if opcode = OP_3DUP then op_3dup s
      else if opcode = OP_2OVER then op_2over s
      else if opcode = OP_2ROT then op_2rot s
      else if opcode = OP_2SWAP then op_2swap s
      else if opcode = OP_IFDUP then op_ifdup s
      else if opcode = OP_DEPTH then op_depth E s
      else if opcode = OP_DROP then op_drop s
      else if opcode = OP_DUP then op_dup s
      else if opcode = OP_NIP then op_nip s
      else if opcode = OP_OVER then op_over s
      else if opcode = OP_PICK \<or> opcode = OP_ROLL then op_pick_roll E opcode s
      else if opcode = OP_ROT then op_rot s
      else if opcode = OP_SWAP then op_swap s
      else if opcode = OP_TUCK then op_tuck s
      else if opcode = OP_SIZE then op_size E s
      else if opcode = OP_AND \<or> opcode = OP_OR \<or> opcode = OP_XOR then op_bitwise opcode s
      else if opcode = OP_INVERT then op_invert s
      else if opcode = OP_LSHIFT then op_shift E LShift s
      else if opcode = OP_RSHIFT then op_shift E RShift s
      else if opcode = OP_EQUAL \<or> opcode = OP_EQUALVERIFY then op_equal opcode s
      else if opcode \<in> {OP_1ADD, OP_1SUB, OP_NEGATE, OP_ABS, OP_NOT, OP_0NOTEQUAL}
        then op_unary E opcode s
      else if opcode \<in> {OP_ADD, OP_SUB, OP_MUL, OP_DIV, OP_MOD, OP_BOOLAND, OP_BOOLOR,
          OP_NUMEQUAL, OP_NUMEQUALVERIFY, OP_NUMNOTEQUAL, OP_LESSTHAN, OP_GREATERTHAN,
          OP_LESSTHANOREQUAL, OP_GREATERTHANOREQUAL, OP_MIN, OP_MAX}
        then op_binary E opcode s
      else if opcode = OP_WITHIN then op_within E s
      else if opcode \<in> {OP_RIPEMD160, OP_SHA1, OP_SHA256, OP_HASH160, OP_HASH256}
        then op_hash opcode s
      else if opcode = OP_CODESEPARATOR then Inr (s\<lparr>pbegincodehash := pc\<rparr>)
      else if opcode = OP_CHECKSIG \<or> opcode = OP_CHECKSIGVERIFY then op_checksig E script opcode s
      else if opcode = OP_CHECKMULTISIG \<or> opcode = OP_CHECKMULTISIGVERIFY
        then op_checkmultisig E script opcode s
      else if opcode = OP_CAT then op_cat s
      else if opcode = OP_SPLIT then op_split E s
      else if opcode = OP_NUM2BIN then op_num2bin E s
      else if opcode = OP_BIN2NUM then op_bin2num E s
      else if IsInvalidBranchingOpcode opcode \<and> \<not> fExec then Inr s
      else fail s SCRIPT_ERR_BAD_OPCODE)"

definition exec_instruction :: "'b eval_env \<Rightarrow> CScript \<Rightarrow> nat \<Rightarrow> nat \<Rightarrow> valtype \<Rightarrow> eval_state \<Rightarrow>
    early_exit + eval_state" where
  "exec_instruction E script pc opcode vchPushValue s =
     (let fExec = (list_all id (vfExec s) \<and> (\<not> nonTopLevelReturn s \<or> opcode = OP_RETURN));
          s = (if opcode > OP_16 then s\<lparr>nOpCount := nOpCount s + 1\<rparr> else s)
      in if opcode > OP_16 \<and> \<not> IsValidMaxOpsPerScript (nOpCount s) (config E) (consensus E)
         then fail s SCRIPT_ERR_OP_COUNT
         else if IsOpcodeDisabled opcode \<and> fExec then fail s SCRIPT_ERR_DISABLED_OPCODE
         else if fExec \<and> opcode \<le> OP_PUSHDATA4 then
           (if fRequireMinimal E \<and> \<not> CheckMinimalPush vchPushValue opcode
            then fail s SCRIPT_ERR_MINIMALDATA else push s vchPushValue)
         else if fExec \<or> (OP_IF \<le> opcode \<and> opcode \<le> OP_ENDIF)
         then exec_opcode E script pc opcode fExec s
         else Inr s)"

definition eval_step :: "'b eval_env \<Rightarrow> CScript \<Rightarrow> nat \<Rightarrow> eval_state \<Rightarrow>
    early_exit + nat \<times> eval_state" where
  "eval_step E script pc s =
     bindE (poll E s) (\<lambda>s.
       case GetOp2 script pc of
         None \<Rightarrow> fail s SCRIPT_ERR_BAD_OPCODE
       | Some (pc, opcode, vchPushValue) \<Rightarrow>
           bindE (exec_instruction E script pc opcode vchPushValue (s\<lparr>ipc := pc\<rparr>))
             (\<lambda>s. Inr (pc, s)))"

declare bindE_cong [fundef_cong]

lemma eval_step_pc:
  assumes "eval_step E script pc s = Inr (pc', s')"
  shows "pc < pc'" "pc' \<le> length script"
  using assms by (auto simp: eval_step_def bindE_eq_Inr fail_def dest: GetOp2_pc split: option.splits)

function eval_loop :: "'b eval_env \<Rightarrow> CScript \<Rightarrow> nat \<Rightarrow> eval_state \<Rightarrow> early_exit + eval_state" where
  "eval_loop E script pc s =
     (if pc < length script then
        bindE (eval_step E script pc s) (\<lambda>(pc, s). eval_loop E script pc s)
      else Inr s)"
  by pat_completeness auto
termination
  by (relation "measure (\<lambda>(E, script, pc, s). length script - pc)") (auto dest: eval_step_pc)

declare eval_loop.simps [simp del]

subsection \<open>\<open>EvalScript\<close> and \<open>VerifyScript\<close>\<close>

datatype eval_result = EvalTrue | EvalFalse ScriptError | EvalCanceled | EvalAborted | EvalOutOfFuel

fun catch_exn :: "cxx_exn \<Rightarrow> eval_result" where
  "catch_exn scriptnum_overflow_error = EvalFalse SCRIPT_ERR_SCRIPTNUM_OVERFLOW"
| "catch_exn scriptnum_minencode_error = EvalFalse SCRIPT_ERR_SCRIPTNUM_MINENCODE"
| "catch_exn stack_overflow_error = EvalFalse SCRIPT_ERR_STACK_SIZE"
| "catch_exn big_int_error = EvalFalse SCRIPT_ERR_BIG_INT"
| "catch_exn std_exception = EvalFalse SCRIPT_ERR_UNKNOWN_ERROR"
| "catch_exn assert_failure = EvalAborted"
| "catch_exn null_bignum = EvalAborted"

fun leave :: "early_exit \<Rightarrow> eval_result \<times> eval_state" where
  "leave (ExitFail s e) = (EvalFalse e, s)"
| "leave (ExitSuccess s) = (EvalTrue, s)"
| "leave (ExitCanceled s) = (EvalCanceled, s)"
| "leave (ExitThrow s x) = (catch_exn x, s)"
| "leave (ExitOutOfFuel s) = (EvalOutOfFuel, s)"

definition EvalScript_on :: "'b eval_env \<Rightarrow> CScript \<Rightarrow> eval_state \<Rightarrow> eval_result \<times> eval_state" where
  "EvalScript_on E script s =
     (let s = s\<lparr>pbegincodehash := 0, nOpCount := 0, nonTopLevelReturn := False\<rparr>
      in if length script > GetMaxScriptSize (config E) (consensus E)
         then (EvalFalse SCRIPT_ERR_SCRIPT_SIZE, s)
         else case eval_loop E script 0 s of
             Inl x \<Rightarrow> leave x
           | Inr s \<Rightarrow> if vfExec s \<noteq> [] then (EvalFalse SCRIPT_ERR_UNBALANCED_CONDITIONAL, s)
                      else (EvalTrue, s))"

definition EvalScript :: "'b eval_env \<Rightarrow> stack_store \<Rightarrow> nat \<Rightarrow> CScript \<Rightarrow> eval_result \<times> eval_state" where
  "EvalScript E h n script =
     EvalScript_on E script
       \<lparr>heap = fst (makeChildStack h main_stack 0), ipc = 0, pbegincodehash = 0, vfExec = [],
        vfElse = [], nOpCount = 0, nonTopLevelReturn = False, polls = n\<rparr>"

definition no_objects :: stack_store where
  "no_objects = (\<lambda>_. \<lparr>combinedStackSize = 0, maxStackSize = 0, elems = []\<rparr>)"

definition VerifyScript :: "'b eval_env \<Rightarrow> CScript \<Rightarrow> CScript \<Rightarrow> eval_result" where
  "VerifyScript E scriptSig scriptPubKey =
     (if has_flag (verify_flags E) SCRIPT_VERIFY_SIGPUSHONLY \<and> \<not> IsPushOnly scriptSig
      then EvalFalse SCRIPT_ERR_SIG_PUSHONLY
      else case EvalScript E (stack_new no_objects 0 (GetMaxStackMemoryUsage (config E) (consensus E)))
          0 scriptSig of (res, s) \<Rightarrow>
        if res \<noteq> EvalTrue then res
        else case EvalScript E (heap s) (polls s) scriptPubKey of (res, s) \<Rightarrow>
          if res \<noteq> EvalTrue then res
          else if depth s = 0 then EvalFalse SCRIPT_ERR_EVAL_FALSE
          else if \<not> CastToBool (stackElement (last (elems (heap s main_stack))))
          then EvalFalse SCRIPT_ERR_EVAL_FALSE
          else if has_flag (verify_flags E) SCRIPT_VERIFY_CLEANSTACK \<and> depth s \<noteq> 1
          then EvalFalse SCRIPT_ERR_CLEANSTACK
          else EvalTrue)"

end
