(* ===== verification/Interpreter_Safety.thy ===== *)
theory Interpreter_Safety
  imports Interpreter
begin

text \<open>
  What holds of every run of the interpreter.  The state keeps its stacks in the form of the
  two-list view of \<open>Limited_Stack\<close>, within the memory limit, and the two condition stacks in
  step; every opcode keeps this, whichever way it ends and whatever OpenSSL does (\<open>keeps\<close>).  As
  long as the stacks hold less than \<open>2 ^ 31\<close> bytes and OpenSSL reads numbers, no opcode ends in
  an exception other than the script number, big number and stack size errors it is meant to
  report (\<open>safe\<close>).  The last section puts both together over the states a run goes through.
\<close>

named_theorems eval_simps

subsection \<open>Stack calls on the two-list view\<close>

lemma throws_simps [simp]:
  "throws s (Inr a) = Inr a" "throws s (Inl x) = Inl (ExitThrow s x)"
  by (simp_all add: throws_def)

lemma checks_simps [simp]:
  "checks s (Inr a) = Inr a" "checks s (Inl e) = fail s e"
  by (simp_all add: checks_def)

lemma depth_two [eval_simps]: "heap s = two_stacks m g xs ys \<Longrightarrow> depth s = length xs"
  by (simp add: depth_def stack_simps)

lemma need_two [eval_simps]:
  "heap s = two_stacks m g xs ys \<Longrightarrow>
   need s n = (if length xs < n then fail s SCRIPT_ERR_INVALID_STACK_OPERATION else Inr ())"
  by (simp add: need_def eval_simps)

lemma push_two [eval_simps]:
  "heap s = two_stacks m g xs ys \<Longrightarrow>
   push s v = (if m < g + cost xs + (length v + 32) + cost ys then Inl (ExitThrow s stack_overflow_error)
     else Inr (s\<lparr>heap := two_stacks m g (xs @ [v]) ys\<rparr>))"
  by (simp add: push_def on_heap_def stack_simps ac_simps)

lemma push_copy_two [eval_simps]:
  "heap s = two_stacks m g xs ys \<Longrightarrow>
   push_copy s (make_vector v main_stack) =
     (if m < g + cost xs + (length v + 32) + cost ys then Inl (ExitThrow s stack_overflow_error)
     else Inr (s\<lparr>heap := two_stacks m g (xs @ [v]) ys\<rparr>))"
  by (simp add: push_copy_def on_heap_def stack_simps ac_simps)

lemma pop_two [eval_simps]:
  "heap s = two_stacks m g xs ys \<Longrightarrow>
   pop s = (if xs = [] then Inl (ExitThrow s std_exception)
     else Inr (s\<lparr>heap := two_stacks m g (butlast xs) ys\<rparr>))"
  by (simp add: pop_def on_heap_def stack_simps)

lemma top_index_two [eval_simps]:
  assumes "heap s = two_stacks m g xs ys"
  shows "top_index s (- 1) = (if xs \<noteq> [] then Inr (length xs - 1) else Inl (ExitThrow s std_exception))"
    "top_index s (- numeral n) =
       (if numeral n \<le> length xs then Inr (length xs - numeral n) else Inl (ExitThrow s std_exception))"
    "top_index s (- int k) =
       (if 0 < k \<and> k \<le> length xs then Inr (length xs - k) else Inl (ExitThrow s std_exception))"
  using assms by (simp_all add: top_index_def stack_simps)

lemma top_vector_two [eval_simps]:
  assumes "heap s = two_stacks m g xs ys"
  shows "top_vector s (- 1) =
      (if xs \<noteq> [] then Inr (make_vector (last xs) main_stack) else Inl (ExitThrow s std_exception))"
    "top_vector s (- numeral n) =
       (if numeral n \<le> length xs then Inr (make_vector (xs ! (length xs - numeral n)) main_stack)
        else Inl (ExitThrow s std_exception))"
    "top_vector s (- int k) =
       (if 0 < k \<and> k \<le> length xs then Inr (make_vector (xs ! (length xs - k)) main_stack)
        else Inl (ExitThrow s std_exception))"
  using assms by (auto simp: top_vector_def eval_simps stack_simps last_conv_nth
      intro!: vecs_simps(4) diff_less)

lemma top_bytes_two [eval_simps]:
  assumes "heap s = two_stacks m g xs ys"
  shows "top_bytes s (- 1) = (if xs \<noteq> [] then Inr (last xs) else Inl (ExitThrow s std_exception))"
    "top_bytes s (- numeral n) =
       (if numeral n \<le> length xs then Inr (xs ! (length xs - numeral n)) else Inl (ExitThrow s std_exception))"
    "top_bytes s (- int k) =
       (if 0 < k \<and> k \<le> length xs then Inr (xs ! (length xs - k)) else Inl (ExitThrow s std_exception))"
  using assms by (auto simp: top_bytes_def eval_simps)

lemma erase_numeral_two [eval_simps]:
  "stack_erase (two_stacks m g xs ys) main_stack (- numeral n) =
     (if numeral n \<le> length xs then
        Inr (two_stacks m g (take (length xs - numeral n) xs @ drop (Suc (length xs - numeral n)) xs) ys)
      else Inl std_exception)"
  using erase_two [of m g xs ys "numeral n"] by simp

lemma insert_numeral_two [eval_simps]:
  "numeral n \<le> length xs \<Longrightarrow>
   stack_insert (two_stacks m g xs ys) main_stack (- numeral n) (make_vector e main_stack) =
     (if m < g + cost xs + (length e + 32) + cost ys then Inl stack_overflow_error
      else Inr (two_stacks m g (take (length xs - numeral n) xs @ [e] @ drop (length xs - numeral n) xs) ys))"
  using insert_two [of "numeral n" xs m g ys e] by simp

lemma erase_range_numeral_two [eval_simps]:
  "numeral b < (numeral a :: nat) \<Longrightarrow>
   stack_erase_range (two_stacks m g xs ys) main_stack (- numeral a) (- numeral b) =
     (if numeral a \<le> length xs then
        Inr (two_stacks m g (take (length xs - numeral a) xs @ drop (length xs - numeral b) xs) ys)
      else Inl std_exception)"
  using erase_range_two_all [of m g xs ys "numeral a" "numeral b"] by simp

lemma on_heap_two [eval_simps]:
  "heap s = h \<Longrightarrow> on_heap s f = bindE (throws s (f h)) (\<lambda>h. Inr (s\<lparr>heap := h\<rparr>))"
  by (simp add: on_heap_def)

lemma swap_at_two [eval_simps]:
  assumes "heap s = two_stacks m g xs ys" "0 < i" "i \<le> length xs" "0 < j" "j \<le> length xs"
  shows "swap_at s i j = Inr (s\<lparr>heap := two_stacks m g
    (xs[length xs - i := xs ! (length xs - j), length xs - j := xs ! (length xs - i)]) ys\<rparr>)"
  using assms by (simp add: swap_at_def on_heap_def stack_simps eval_simps)

subsection \<open>Sane states and results\<close>

lemma vecs_inj: "vecs xs = vecs ys \<longleftrightarrow> xs = ys"
  by (metis vecs_simps(5))

lemma two_stacks_inj [simp]:
  "two_stacks m g xs ys = two_stacks m g' xs' ys' \<longleftrightarrow> g = g' \<and> xs = xs' \<and> ys = ys'"
proof
  assume eq: "two_stacks m g xs ys = two_stacks m g' xs' ys'"
  then have "xs = xs'" "ys = ys'"
    using two_stacks_elems [of m g xs ys] two_stacks_elems [of m g' xs' ys'] vecs_inj by metis+
  moreover have "combinedStackSize (two_stacks m g xs ys main_stack) =
      combinedStackSize (two_stacks m g' xs' ys' main_stack)" using eq by simp
  ultimately show "g = g' \<and> xs = xs' \<and> ys = ys'" by (simp add: two_stacks_def counted_stacks_def)
qed simp

definition sane :: "nat \<Rightarrow> eval_state \<Rightarrow> bool" where
  "sane m s \<longleftrightarrow> (\<exists>g xs ys. heap s = two_stacks m g xs ys \<and> g + cost xs + cost ys \<le> m) \<and>
     length (vfExec s) = length (vfElse s)"

lemma sane_two [eval_simps]:
  "heap s = two_stacks m g xs ys \<Longrightarrow>
   sane m s \<longleftrightarrow> g + cost xs + cost ys \<le> m \<and> length (vfExec s) = length (vfElse s)"
  by (auto simp: sane_def)

fun exit_state :: "early_exit \<Rightarrow> eval_state" where
  "exit_state (ExitFail s e) = s"
| "exit_state (ExitSuccess s) = s"
| "exit_state (ExitCanceled s) = s"
| "exit_state (ExitThrow s x) = s"
| "exit_state (ExitOutOfFuel s) = s"

fun proper_exit :: "early_exit \<Rightarrow> bool" where
  "proper_exit (ExitFail s e) = (e \<noteq> SCRIPT_ERR_UNKNOWN_ERROR)"
| "proper_exit (ExitThrow s x) =
     (x \<in> {scriptnum_overflow_error, scriptnum_minencode_error, stack_overflow_error, big_int_error})"
| "proper_exit (ExitOutOfFuel s) = False"
| "proper_exit x = True"

abbreviation kept_exit :: "nat \<Rightarrow> early_exit \<Rightarrow> bool" where
  "kept_exit m x \<equiv> sane m (exit_state x)"

definition good_exit :: "nat \<Rightarrow> early_exit \<Rightarrow> bool" where
  "good_exit m x \<longleftrightarrow> sane m (exit_state x) \<and> proper_exit x"

lemma good_exit_simps [simp]:
  "good_exit m (ExitFail s e) = (sane m s \<and> e \<noteq> SCRIPT_ERR_UNKNOWN_ERROR)"
  "good_exit m (ExitSuccess s) = sane m s"
  "good_exit m (ExitCanceled s) = sane m s"
  "good_exit m (ExitThrow s x) = (sane m s \<and>
     x \<in> {scriptnum_overflow_error, scriptnum_minencode_error, stack_overflow_error, big_int_error})"
  "good_exit m (ExitOutOfFuel s) = False"
  by (simp_all add: good_exit_def)

definition results :: "('e \<Rightarrow> bool) \<Rightarrow> ('a \<Rightarrow> bool) \<Rightarrow> 'e + 'a \<Rightarrow> bool" where
  "results P Q r = (case r of Inl x \<Rightarrow> P x | Inr a \<Rightarrow> Q a)"

lemma results_simps [simp]:
  "results P Q (Inl x) = P x" "results P Q (Inr a) = Q a"
  "results P Q (bindE r f) = results P (\<lambda>a. results P Q (f a)) r"
  by (cases r; simp add: results_def)+

lemma results_fail [simp]: "results P Q (fail s e) = P (ExitFail s e)"
  by (simp add: fail_def)

lemma results_checks_iff [simp]: "results P Q (checks s r) = results (\<lambda>e. P (ExitFail s e)) Q r"
  by (cases r) simp_all

lemma results_if [simp]:
  "results P Q (if b then r1 else r2) = (if b then results P Q r1 else results P Q r2)"
  by simp

lemma results_mono: "results P Q r \<Longrightarrow> (\<And>a. Q a \<Longrightarrow> Q' a) \<Longrightarrow> results P Q' r"
  by (cases r) auto

lemma results_mono_exit: "results P Q r \<Longrightarrow> (\<And>x. P x \<Longrightarrow> P' x) \<Longrightarrow> results P' Q r"
  by (cases r) auto

lemma results_throws [simp]: "results P Q (throws s r) = results (\<lambda>x. P (ExitThrow s x)) Q r"
  by (cases r) simp_all

lemma resultsI: "(\<And>x. r = Inl x \<Longrightarrow> P x) \<Longrightarrow> (\<And>a. r = Inr a \<Longrightarrow> Q a) \<Longrightarrow> results P Q r"
  by (cases r) auto

text \<open>Calls of which nothing is known; they are not calls on the state.\<close>

lemma results_any:
  "(\<And>x. P x) \<Longrightarrow> (\<And>a. Q a) \<Longrightarrow> results P Q (r :: cxx_exn + 'a)"
  "(\<And>e. P' e) \<Longrightarrow> (\<And>b. Q' b) \<Longrightarrow> results P' Q' (r' :: ScriptError + 'b)"
  by (cases r; auto) (cases r'; auto)

abbreviation keeps :: "nat \<Rightarrow> early_exit + eval_state \<Rightarrow> bool" where
  "keeps m r \<equiv> results (kept_exit m) (sane m) r"

abbreviation safe :: "nat \<Rightarrow> early_exit + eval_state \<Rightarrow> bool" where
  "safe m r \<equiv> results (good_exit m) (sane m) r"

lemma safe_keeps: "safe m r \<Longrightarrow> keeps m r"
  by (erule results_mono_exit) (simp add: good_exit_def)

text \<open>Less than \<open>2 ^ 31\<close> bytes on the stacks.\<close>

definition small :: "eval_state \<Rightarrow> bool" where
  "small s \<longleftrightarrow> getCombinedStackSize (heap s) main_stack < 2 ^ 31"

lemma small_two [eval_simps]:
  "heap s = two_stacks m g xs ys \<Longrightarrow> small s \<longleftrightarrow> g + cost xs + cost ys < 2 ^ 31"
  by (simp add: small_def two_stacks_def counted_stacks_def)

lemma saneE:
  assumes "sane m s"
  obtains g xs ys where "heap s = two_stacks m g xs ys" "g + cost xs + cost ys \<le> m"
    "length (vfExec s) = length (vfElse s)"
  using assms by (auto simp: sane_def)

lemma split_top: "n \<le> length xs \<Longrightarrow> \<exists>zs ts. xs = zs @ ts \<and> length ts = n"
  by (rule exI [of _ "take (length xs - n) xs"], rule exI [of _ "drop (length xs - n) xs"]) simp

lemma top_splits:
  "\<not> length xs < 1 \<Longrightarrow> \<exists>zs a. xs = zs @ [a]"
  "\<not> length xs < 2 \<Longrightarrow> \<exists>zs a b. xs = zs @ [a, b]"
  "\<not> length xs < 3 \<Longrightarrow> \<exists>zs a b c. xs = zs @ [a, b, c]"
  "\<not> length xs < 4 \<Longrightarrow> \<exists>zs a b c d. xs = zs @ [a, b, c, d]"
  "\<not> length xs < 6 \<Longrightarrow> \<exists>zs a b c d e f. xs = zs @ [a, b, c, d, e, f]"
  using split_top [of 1 xs] split_top [of 2 xs] split_top [of 3 xs] split_top [of 4 xs] split_top [of 6 xs]
  by (auto simp: not_less Suc_le_eq eval_nat_numeral length_Suc_conv simp del: length_greater_0_conv)

lemma top_split_1: "xs \<noteq> [] \<Longrightarrow> \<exists>zs a. xs = zs @ [a]"
  by (metis append_butlast_last_id)

lemmas stack_split = top_splits(2-5) top_split_1

lemma stack_ops_safe:
  assumes "sane m s"
  shows "safe m (op_toaltstack s)" "safe m (op_fromaltstack s)" "safe m (op_2drop s)"
    "safe m (op_2dup s)" "safe m (op_3dup s)" "safe m (op_2over s)" "safe m (op_2rot s)"
    "safe m (op_2swap s)" "safe m (op_ifdup s)" "safe m (op_drop s)" "safe m (op_dup s)"
    "safe m (op_nip s)" "safe m (op_over s)" "safe m (op_rot s)" "safe m (op_swap s)"
    "safe m (op_tuck s)" "safe m (op_equal opcode s)" "safe m (op_hash opcode s)"
    "safe m (op_verify s)" "safe m (op_if E opcode fExec s)" "safe m (op_else s)" "safe m (op_endif s)"
    "safe m (op_return s)" "safe m (op_upgradable_nop E s)"
  using assms
  by (auto simp: eval_simps stack_simps list_update_append nth_append butlast_append Let_def op_toaltstack_def
      op_fromaltstack_def op_2drop_def op_2dup_def op_3dup_def op_2over_def op_2rot_def op_2swap_def
      op_ifdup_def op_drop_def op_dup_def op_nip_def op_over_def op_rot_def op_swap_def op_tuck_def
      op_equal_def op_hash_def op_verify_def op_if_def op_else_def op_endif_def op_return_def
      op_upgradable_nop_def
      elim!: saneE dest!: stack_split)

subsection \<open>Numeric opcodes as integer operations\<close>

definition bool_int :: "bool \<Rightarrow> int" where
  "bool_int b = (if b then 1 else 0)"

definition unary_spec :: "nat \<Rightarrow> int \<Rightarrow> int" where
  "unary_spec opcode x =
     (if opcode = OP_1ADD then x + 1 else if opcode = OP_1SUB then x - 1
      else if opcode = OP_NEGATE then - x else if opcode = OP_ABS then \<bar>x\<bar>
      else if opcode = OP_NOT then bool_int (x = 0) else bool_int (x \<noteq> 0))"

abbreviation (input) unary_ops :: "nat set" where
  "unary_ops \<equiv> {OP_1ADD, OP_1SUB, OP_NEGATE, OP_ABS, OP_NOT, OP_0NOTEQUAL}"

definition binary_spec :: "nat \<Rightarrow> int \<Rightarrow> int \<Rightarrow> ScriptError + int" where
  "binary_spec opcode x y =
     (if opcode = OP_ADD then Inr (x + y) else if opcode = OP_SUB then Inr (x - y)
      else if opcode = OP_MUL then Inr (x * y)
      else if opcode = OP_DIV then (if y = 0 then Inl SCRIPT_ERR_DIV_BY_ZERO else Inr (x sdiv y))
      else if opcode = OP_MOD then (if y = 0 then Inl SCRIPT_ERR_MOD_BY_ZERO else Inr (x smod y))
      else Inr (if opcode = OP_BOOLAND then bool_int (x \<noteq> 0 \<and> y \<noteq> 0)
      else if opcode = OP_BOOLOR then bool_int (x \<noteq> 0 \<or> y \<noteq> 0)
      else if opcode = OP_NUMEQUAL \<or> opcode = OP_NUMEQUALVERIFY then bool_int (x = y)
      else if opcode = OP_NUMNOTEQUAL then bool_int (x \<noteq> y)
      else if opcode = OP_LESSTHAN then bool_int (x < y)
      else if opcode = OP_GREATERTHAN then bool_int (x > y)
      else if opcode = OP_LESSTHANOREQUAL then bool_int (x \<le> y)
      else if opcode = OP_GREATERTHANOREQUAL then bool_int (x \<ge> y)
      else if opcode = OP_MIN then min x y else max x y))"

abbreviation (input) binary_ops :: "nat set" where
  "binary_ops \<equiv> {OP_ADD, OP_SUB, OP_MUL, OP_DIV, OP_MOD, OP_BOOLAND, OP_BOOLOR, OP_NUMEQUAL,
     OP_NUMEQUALVERIFY, OP_NUMNOTEQUAL, OP_LESSTHAN, OP_GREATERTHAN, OP_LESSTHANOREQUAL,
     OP_GREATERTHANOREQUAL, OP_MIN, OP_MAX}"

text \<open>A stack element the interpreter accepts as a number.\<close>

definition readable :: "'b eval_env \<Rightarrow> valtype \<Rightarrow> bool" where
  "readable E v \<longleftrightarrow> length v \<le> maxScriptNumLength E \<and>
     (fRequireMinimal E \<longrightarrow> IsMinimallyEncoded v (maxScriptNumLength E))"

lemma cost_length: "32 * length xs \<le> cost xs"
  by (induction xs) simp_all

lemma int_of_index_small: "- (2 ^ 31) \<le> k \<Longrightarrow> k < 2 ^ 31 \<Longrightarrow> int_of_index k = k"
  by (simp add: int_of_index_def signed_of_int signed_take_bit_int_eq_self)

lemma int_of_index_pick: "n < 2 ^ 31 \<Longrightarrow> int_of_index (- int n - 1) = - int (Suc n)"
  by (subst int_of_index_small) auto

context openssl_bn_total
begin

lemma unary_num_ex:
  "opcode \<in> unary_ops \<Longrightarrow> \<exists>r. unary_num B opcode (NumBig b) = Inr r \<and>
     num_val bnval r = unary_spec opcode (bnval b)"
proof -
  assume op: "opcode \<in> unary_ops"
  obtain one where one: "bint_of_int B 1 = Inr one" "bnval one = 1" using bint_of_int_ex [of 1] by auto
  show ?thesis
    using op num_arith_big_ex(1,2) [of b one]
    by (auto simp: one unary_num_def unary_spec_def bool_int_def num_uminus_def)
qed

lemma binary_num_ex:
  assumes "opcode \<in> binary_ops"
  shows "(\<exists>e. binary_num B opcode (NumBig a) (NumBig b) = Inr (Inl e) \<and>
      binary_spec opcode (bnval a) (bnval b) = Inl e \<and> e \<noteq> SCRIPT_ERR_UNKNOWN_ERROR) \<or>
    (\<exists>r. binary_num B opcode (NumBig a) (NumBig b) = Inr (Inr r) \<and>
      binary_spec opcode (bnval a) (bnval b) = Inr (num_val bnval r))"
  using assms num_arith_big_ex [where a = a and b = b]
  by (auto simp: binary_num_def binary_spec_def bool_int_def Let_def)

lemma read_num_ex:
  assumes "bignum E = B" "maxScriptNumLength E + 4 < 2 ^ 31"
  shows "readable E v \<and> (\<exists>b. read_num E s v = Inr (NumBig b) \<and> bnval b = sm_val v) \<or>
    \<not> readable E v \<and> (\<exists>x \<in> {scriptnum_overflow_error, scriptnum_minencode_error}.
      read_num E s v = Inl (ExitThrow s x))"
proof (cases "readable E v")
  case True
  then show ?thesis
    using assms num_of_bytes_big_ex [of v "maxScriptNumLength E" "fRequireMinimal E"]
    by (auto simp: readable_def read_num_def)
next
  case False
  then show ?thesis using assms by (auto simp: readable_def read_num_def num_of_bytes_def)
qed

end

lemma unary_errors:
  "opcode \<in> unary_ops \<Longrightarrow> unary_num B opcode (NumBig b) = Inl x \<Longrightarrow> x = big_int_error"
  by (auto simp: unary_num_def bindE_eq_Inl bint_errors num_arith_errors num_cmp_errors num_cmp_errors')

lemma binary_errors:
  assumes "opcode \<in> binary_ops"
  shows "binary_num B opcode (NumBig a) (NumBig b) = Inl x \<Longrightarrow> x = big_int_error"
    "binary_num B opcode (NumBig a) (NumBig b) = Inr (Inl e) \<Longrightarrow> e \<noteq> SCRIPT_ERR_UNKNOWN_ERROR"
  using assms
  by (auto simp: binary_num_def Let_def bindE_eq_Inl bindE_eq_Inr num_arith_errors num_cmp_errors
      num_cmp_errors' split: if_splits)

lemma results_unary:
  assumes "opcode \<in> unary_ops" "P big_int_error" "\<And>r. Q r"
  shows "results P Q (unary_num B opcode (NumBig b))"
  using assms(2,3) unary_errors [OF assms(1), of B b] by (intro resultsI) auto

lemma results_binary:
  assumes "opcode \<in> binary_ops" "P big_int_error" "\<And>r. Q (Inr r)"
    and "\<And>e. e \<noteq> SCRIPT_ERR_UNKNOWN_ERROR \<Longrightarrow> Q (Inl e)"
  shows "results P Q (binary_num B opcode (NumBig a) (NumBig b))"
proof (rule resultsI)
  show "P x" if "binary_num B opcode (NumBig a) (NumBig b) = Inl x" for x
    using binary_errors(1) [OF assms(1) that] assms(2) by simp
  show "Q r" if "binary_num B opcode (NumBig a) (NumBig b) = Inr r" for r
    using binary_errors(2) [OF assms(1), of B a b] that assms(3,4) by (cases r) auto
qed

lemma results_big_int:
  "P big_int_error \<Longrightarrow> (\<And>r. Q r) \<Longrightarrow> results P Q (num_lt B u v)"
  "P big_int_error \<Longrightarrow> (\<And>r. Q r) \<Longrightarrow> results P Q (num_le B u v)"
  "P big_int_error \<Longrightarrow> (\<And>r. Q' r) \<Longrightarrow> results P Q' (bint_of_size_t B n)"
  "P big_int_error \<Longrightarrow> (\<And>r. Q'' r) \<Longrightarrow> results P Q'' (num_getint B u)"
  by (intro resultsI; auto dest!: num_cmp_errors num_cmp_errors' bint_errors num_arith_errors)+

context openssl_bn_reads
begin

lemma results_read_num:
  assumes "bignum E = B" "maxScriptNumLength E + 4 < 2 ^ 31"
    and "\<And>b. bnval b = sm_val v \<Longrightarrow> Q (NumBig b)"
    and "\<And>x. x \<in> {scriptnum_overflow_error, scriptnum_minencode_error, big_int_error} \<Longrightarrow> P (ExitThrow s x)"
  shows "results P Q (read_num E s v)"
proof -
  have "\<exists>b. bint_deserialize B v = Inr b \<and> bnval b = sm_val v" if "length v \<le> maxScriptNumLength E"
    using that assms(2) by (intro bint_deserialize_ex) simp
  moreover have "results (\<lambda>x. P (ExitThrow s x)) Q (bindE (bint_of_int B 0) (\<lambda>b. Inr (NumBig b)))" if "v = []"
    using that assms(3,4) bint_of_int_val [of 0] bint_errors(1) [of B 0] by (auto intro!: resultsI)
  ultimately show ?thesis
    using assms by (auto simp: read_num_def num_of_bytes_def)
qed

lemma results_cmp:
  assumes "INT64_MIN \<le> k" "k \<le> INT64_MAX" "P big_int_error"
  shows "Q (num_val bnval a < k) \<Longrightarrow> results P Q (num_lt_i64 B a k)"
    "Q (k \<le> num_val bnval a) \<Longrightarrow> results P Q (num_ge_i64 B a k)"
    "Q (k < num_val bnval a) \<Longrightarrow> results P Q (num_gt_i64 B a k)"
  using assms num_lt_i64_val [OF _ assms(1,2)] num_ge_i64_val [OF _ assms(1,2)] num_gt_i64_val [OF _ assms(1,2)]
  by (auto intro!: resultsI dest: num_cmp_errors num_cmp_errors')

lemma results_size_t_limited:
  assumes "0 \<le> num_val bnval a" "num_val bnval a \<le> INT_MAX" "P big_int_error"
    "\<And>n. int n = num_val bnval a \<Longrightarrow> Q n"
  shows "results P Q (num_to_size_t_limited B a)"
  using assms num_to_size_t_limited_cases [OF assms(1,2)] by (auto intro!: resultsI)

lemma numeric_safe:
  assumes "sane m s" "bignum E = B" "maxScriptNumLength E + 4 < 2 ^ 31"
  shows "opcode \<in> unary_ops \<Longrightarrow> safe m (op_unary E opcode s)"
    "opcode \<in> binary_ops \<Longrightarrow> safe m (op_binary E opcode s)"
    "safe m (op_within E s)"
    "safe m (op_size E s)"
    "safe m (op_push_number E opcode s)"
    "safe m (op_depth E s)"
  using assms(1,3)
  unfolding op_unary_def op_binary_def op_within_def op_size_def op_push_number_def Let_def
    push_size_def op_depth_def assms(2)
  by (auto simp: eval_simps nth_append butlast_append elim!: saneE dest!: stack_split
      intro!: results_read_num [OF assms(2)] results_unary results_binary results_big_int)

lemma pick_roll_at_safe:
  assumes "heap s = two_stacks m g xs ys" "g + cost xs + cost ys \<le> m" "length (vfExec s) = length (vfElse s)"
    and "n < length xs" "g + cost xs + cost ys < 2 ^ 31"
  shows "safe m (pick_roll opcode n s)"
proof -
  have "n < 2 ^ 31" using assms cost_length [of xs] by linarith
  moreover have "length xs - Suc n < length xs" using assms(4) by simp
  ultimately show ?thesis
    using assms cost_nth [of "length xs - Suc n" xs]
    by (auto simp: pick_roll_def int_of_index_pick eval_simps stack_simps simp del: of_nat_Suc)
qed

lemma pick_roll_safe:
  assumes "sane m s" "bignum E = B" "maxScriptNumLength E + 4 < 2 ^ 31" "small s"
  shows "safe m (op_pick_roll E opcode s)"
proof -
  obtain g xs ys where s: "heap s = two_stacks m g xs ys" "g + cost xs + cost ys \<le> m"
    "length (vfExec s) = length (vfElse s)" using assms(1) by (rule saneE)
  then show ?thesis
    unfolding op_pick_roll_def assms(2)
    using assms(3,4) cost_length [of xs]
    by (auto simp: eval_simps butlast_append dest!: stack_split
        intro!: results_read_num [OF assms(2)] pick_roll_at_safe results_cmp results_size_t_limited)
qed

end

subsection \<open>Byte string opcodes and signature checks\<close>

lemma bit_ops_safe:
  assumes "sane m s"
  shows "safe m (op_bitwise opcode s)" "safe m (op_invert s)" "safe m (op_cat s)"
proof -
  obtain g xs ys where s: "heap s = two_stacks m g xs ys" "g + cost xs + cost ys \<le> m"
    "length (vfExec s) = length (vfElse s)" using assms by (rule saneE)
  then show "safe m (op_bitwise opcode s)" "safe m (op_invert s)" "safe m (op_cat s)"
    by (auto simp: op_bitwise_def op_invert_def op_cat_def eval_simps stack_simps nth_append butlast_append
        Let_def list_update_append dest!: stack_split)
qed

lemma check_encodings_error: "check_encodings E sig key = Inl e \<Longrightarrow> e \<noteq> SCRIPT_ERR_UNKNOWN_ERROR"
  by (auto simp: check_encodings_def bindE_eq_Inl CheckSignatureEncoding_def IsLowDERSignature_def
      CheckPubKeyEncoding_def split: if_splits)

lemma results_checks:
  assumes "\<And>a. Q a" "\<And>e. e \<noteq> SCRIPT_ERR_UNKNOWN_ERROR \<Longrightarrow> P e"
  shows "results P Q (check_encodings E sig key)"
  using assms check_encodings_error [of E sig key] by (cases "check_encodings E sig key") auto

lemma op_checksig_safe:
  assumes "sane m s"
  shows "safe m (op_checksig E script opcode s)"
proof -
  obtain g xs ys where s: "heap s = two_stacks m g xs ys" "g + cost xs + cost ys \<le> m"
    "length (vfExec s) = length (vfElse s)" using assms by (rule saneE)
  then show ?thesis
    by (auto simp: op_checksig_def eval_simps nth_append butlast_append Let_def dest!: stack_split
        intro!: results_checks)
qed

lemma results_poll [simp]:
  "results P Q (poll E s) \<longleftrightarrow>
     (if IsCanceled E (polls s) then P (ExitCanceled (s\<lparr>polls := polls s + 1\<rparr>))
      else Q (s\<lparr>polls := polls s + 1\<rparr>))"
  by (simp add: poll_def Let_def)

lemma sane_polls [simp]: "sane m (s\<lparr>polls := n\<rparr>) = sane m s"
  by (simp add: sane_def)

lemma multisig_loop_safe:
  assumes "heap s = two_stacks m g xs ys" "sane m s" "length xs < 2 ^ 31"
    and "0 < isig" "isig + nSigs \<le> Suc (length xs)" "0 < ikey" "ikey + nKeys \<le> Suc (length xs)"
  shows "results (good_exit m) (\<lambda>(s', _). heap s' = heap s \<and> sane m s')
    (multisig_loop E code isig ikey nSigs nKeys s)"
  using assms
proof (induction E code isig ikey nSigs nKeys s rule: multisig_loop.induct)
  case (3 E code isig ikey nSigs nKeys s)
  have "int_of_index (- int isig) = - int isig" "int_of_index (- int ikey) = - int ikey"
    using "3.prems" by (auto intro!: int_of_index_small)
  then show ?case
    using "3.prems" "3.IH"
    by (auto simp: eval_simps Let_def intro!: results_checks)
qed auto

lemma multisig_cleanup_safe:
  assumes "heap s = two_stacks m g xs ys" "sane m s" "n \<le> length xs"
  shows "results (good_exit m) (\<lambda>s'. heap s' = two_stacks m g (take (length xs - n) xs) ys \<and> sane m s')
    (multisig_cleanup E fSuccess n ikey2 s)"
  using assms
proof (induction n arbitrary: s xs ikey2)
  case (Suc n)
  obtain zs a where xs: "xs = zs @ [a]" using Suc.prems(3) by (cases xs rule: rev_cases) auto
  show ?case
    using Suc.prems Suc.IH [of "s\<lparr>heap := two_stacks m g zs ys\<rparr>" zs]
    by (auto simp: xs eval_simps)
qed simp

lemma num_of_bytes_4_ex:
  "(\<exists>k. num_of_bytes B v r 4 False = Inr (Num64 k)) \<or>
   (\<exists>x \<in> {scriptnum_overflow_error, scriptnum_minencode_error}. num_of_bytes B v r 4 False = Inl x)"
  by (auto simp: num_of_bytes_def deserialize_i64_short)

lemma results_read_count:
  assumes "heap s = two_stacks m g xs ys" "0 < i" "i \<le> length xs" "length xs < 2 ^ 31"
    and "\<And>k. k \<le> INT_MAX \<Longrightarrow> Q k"
    and "\<And>x. x \<in> {scriptnum_overflow_error, scriptnum_minencode_error} \<Longrightarrow> P (ExitThrow s x)"
  shows "results P Q (read_count E s i)"
proof -
  have "int_of_index (- int i) = - int i" using assms(3,4) by (intro int_of_index_small) auto
  moreover have "results (\<lambda>_. False) (\<lambda>k. k \<le> INT_MAX) (num_getint B (Num64 n))" for B :: "'b openssl" and n
    by (simp add: num_getint_def)
  ultimately show ?thesis
    using assms num_of_bytes_4_ex [of "bignum E" "xs ! (length xs - i)" "fRequireMinimal E"]
    by (auto simp: read_count_def eval_simps num_getint_def)
qed

lemma multisig_result_safe:
  assumes "heap s = two_stacks m g xs ys" "sane m s" "xs \<noteq> []"
  shows "safe m (multisig_result E opcode fSuccess s)"
  using assms cost_butlast_last [OF assms(3)] by (auto simp: multisig_result_def eval_simps)

lemma multisig_finish_safe:
  assumes "heap s = two_stacks m g xs ys" "sane m s" "length xs < 2 ^ 31"
    and "nKeys + 3 + nSigs \<le> length xs"
  shows "safe m (multisig_finish E script opcode nKeys nSigs s)"
proof -
  have "safe m (bindE (multisig_cleanup E f (nKeys + 2 + nSigs) (nKeys + 2) s')
      (\<lambda>s. multisig_result E opcode f s))" if "heap s' = heap s" "sane m s'" for s' f
  proof -
    have "nKeys + 2 + nSigs \<le> length xs" "take (length xs - (nKeys + 2 + nSigs)) xs \<noteq> []"
      using assms(4) by auto
    then show ?thesis
      unfolding results_simps using that assms(1)
      by (intro results_mono [OF multisig_cleanup_safe [where m = m and g = g and xs = xs and ys = ys]])
        (auto intro: multisig_result_safe)
  qed
  then show ?thesis
    unfolding multisig_finish_def results_simps
    using assms by (intro results_mono [OF multisig_loop_safe [OF assms(1-3)]]) auto
qed

lemma op_checkmultisig_safe:
  assumes "sane m s" "small s"
  shows "safe m (op_checkmultisig E script opcode s)"
proof -
  obtain g xs ys where s: "heap s = two_stacks m g xs ys" "g + cost xs + cost ys \<le> m"
    "length (vfExec s) = length (vfElse s)" using assms(1) by (rule saneE)
  then have "length xs < 2 ^ 31" using assms(2) cost_length [of xs] by (simp add: eval_simps)
  with s show ?thesis
    by (auto simp: op_checkmultisig_def eval_simps Let_def Suc_le_eq
        intro!: results_read_count multisig_finish_safe)
qed

subsection \<open>Shifts, splits and conversions\<close>

context openssl_bn_reads
begin

lemma results_int_max:
  "P big_int_error \<Longrightarrow> (\<And>b. bnval b = INT_MAX \<Longrightarrow> Q b) \<Longrightarrow> results P Q (bint_of_int B INT_MAX)"
  using bint_of_int_val [of INT_MAX] by (auto intro!: resultsI dest: bint_errors)

lemma results_sub:
  "P big_int_error \<Longrightarrow> (\<And>c. bnval c = bnval a - bnval b \<Longrightarrow> Q (NumBig c)) \<Longrightarrow>
   results P Q (num_sub B (NumBig a) (NumBig b))"
  using num_sub_val [of a b] by (auto intro!: resultsI dest: num_arith_errors)

lemma shift_loop_safe:
  assumes "sane m s" "bignum E = B" "0 \<le> bnval n" "bnval n < int fuel"
    and shift: "\<And>v k. length (shift v k) = length v"
  shows "results (good_exit m) (\<lambda>(s', v'). heap s' = heap s \<and> sane m s' \<and> length v' = length v)
    (shift_loop E shift fuel s v (NumBig n))"
  using assms(1,3,4)
proof (induction fuel arbitrary: s v n)
  case (Suc fuel)
  have "results (good_exit m) (\<lambda>(s', v'). heap s' = heap s \<and> sane m s' \<and> length v' = length v)
      (shift_loop E shift fuel (s\<lparr>polls := p\<rparr>) (shift v k) (NumBig d))"
    if "bnval d = bnval n - INT_MAX" "0 < bnval d" for p k d
    using Suc.IH [of "s\<lparr>polls := p\<rparr>" d "shift v k"] Suc.prems that by (simp add: shift)
  then show ?case
    using Suc.prems
    by (auto simp: assms(2) shift Let_def intro!: results_big_int results_int_max results_sub results_cmp)
qed simp

lemma op_shift_safe:
  assumes "sane m s" "bignum E = B" "maxScriptNumLength E + 4 < 2 ^ 31" "small s"
    and shift: "\<And>v k. length (shift v k) = length v"
  shows "safe m (op_shift E shift s)"
proof -
  obtain g xs ys where s: "heap s = two_stacks m g xs ys" "g + cost xs + cost ys \<le> m"
    "length (vfExec s) = length (vfElse s)" using assms(1) by (rule saneE)
  have loop: "results (good_exit m) (\<lambda>a. safe m (case a of (s, v) \<Rightarrow> push s v))
      (shift_loop E shift (Suc (length v * 8)) (s\<lparr>heap := two_stacks m g zs ys\<rparr>) v (NumBig n))"
    if "0 \<le> bnval n" "bnval n < int (length v * 8)" "g + cost (zs @ [v]) + cost ys \<le> m" for v n zs
    using that s(3)
    by (intro results_mono [OF shift_loop_safe [where m = m]]) (auto simp: eval_simps assms(2) shift)
  show ?thesis
    unfolding op_shift_def assms(2)
    using s assms(3,4)
    by (auto simp: eval_simps butlast_append nth_append dest!: stack_split simp del: shift_loop.simps
        intro!: results_read_num [OF assms(2)] loop results_cmp)
qed

lemma op_split_safe:
  assumes "sane m s" "bignum E = B" "maxScriptNumLength E + 4 < 2 ^ 31" "small s"
  shows "safe m (op_split E s)"
proof -
  obtain g xs ys where s: "heap s = two_stacks m g xs ys" "g + cost xs + cost ys \<le> m"
    "length (vfExec s) = length (vfElse s)" using assms(1) by (rule saneE)
  show ?thesis
    unfolding op_split_def assms(2)
    using s assms(3,4)
    by (auto simp: eval_simps butlast_append nth_append dest!: stack_split
        intro!: results_read_num [OF assms(2)] results_cmp results_size_t_limited)
qed

lemma op_num2bin_safe:
  assumes "sane m s" "bignum E = B" "maxScriptNumLength E + 4 < 2 ^ 31"
  shows "safe m (op_num2bin E s)"
proof -
  obtain g xs ys where s: "heap s = two_stacks m g xs ys" "g + cost xs + cost ys \<le> m"
    "length (vfExec s) = length (vfElse s)" using assms(1) by (rule saneE)
  show ?thesis
  proof (cases "length xs < 2")
    case False
    then obtain zs v t where xs: "xs = zs @ [v, t]" using top_splits(2) by blast
    show ?thesis
      unfolding op_num2bin_def assms(2)
      using s assms(3) length_sm_bytes_sm_val [of v]
      by (cases "sm_bytes (sm_val v)" rule: rev_cases)
        (auto simp: xs eval_simps stack_simps butlast_append nth_append Let_def
          list_update_append intro!: results_read_num [OF assms(2)] results_cmp results_size_t_limited)
  qed (use s in \<open>simp add: op_num2bin_def eval_simps\<close>)
qed

end

lemma op_bin2num_safe:
  assumes "sane m s"
  shows "safe m (op_bin2num E s)"
proof -
  obtain g xs ys where s: "heap s = two_stacks m g xs ys" "g + cost xs + cost ys \<le> m"
    "length (vfExec s) = length (vfElse s)" using assms(1) by (rule saneE)
  show ?thesis
  proof (cases xs rule: rev_cases)
    case (snoc zs v)
    then show ?thesis
      using s length_sm_bytes_sm_val [of v]
      by (auto simp: op_bin2num_def eval_simps stack_simps nth_append list_update_append)
  qed (use s in \<open>simp add: op_bin2num_def eval_simps\<close>)
qed

subsection \<open>Whatever OpenSSL does\<close>

text \<open>The opcodes that compute with numbers keep a sane state however the big number routines
  answer and however much is on the stacks.\<close>

lemma top_vector_any:
  assumes "heap s = two_stacks m g xs ys" "P (ExitThrow s std_exception)"
    and "\<And>i. 0 < i \<Longrightarrow> i \<le> length xs \<Longrightarrow> k = - int i \<Longrightarrow> Q (make_vector (xs ! (length xs - i)) main_stack)"
  shows "results P Q (top_vector s k)"
proof (cases "0 \<le> k")
  case True
  then show ?thesis using assms(2) by (simp add: top_vector_def top_index_def stacktop_def)
next
  case False
  then have "k = - int (nat (- k))" by simp
  then show ?thesis using assms top_vector_two(3) [OF assms(1), of "nat (- k)"] by (auto split: if_splits)
qed

lemma pick_roll_keeps:
  assumes "heap s = two_stacks m g xs ys" "sane m s"
  shows "keeps m (pick_roll opcode n s)"
  unfolding pick_roll_def results_simps
proof (rule top_vector_any [OF assms(1)])
  fix i assume i: "0 < i" "i \<le> length xs" "int_of_index (- int n - 1) = - int i"
  have "length xs - i < length xs" using i by simp
  then show "results (kept_exit m) (\<lambda>a. keeps m (push_copy a (make_vector (xs ! (length xs - i)) main_stack)))
      (if opcode = OP_ROLL then on_heap s (\<lambda>h. stack_erase h main_stack (int_of_index (- int n - 1))) else Inr s)"
    unfolding i(3) using assms i(1,2) cost_nth [of "length xs - i" xs]
    by (auto simp: eval_simps stack_simps)
qed (simp add: assms(2))

lemma shift_loop_keeps:
  assumes "sane m s" and shift: "\<And>v k. length (shift v k) = length v"
  shows "results (kept_exit m) (\<lambda>(s', v'). heap s' = heap s \<and> sane m s' \<and> length v' = length v)
    (shift_loop E shift fuel s v n)"
  using assms(1)
proof (induction fuel arbitrary: s v n)
  case (Suc fuel)
  have "results (kept_exit m) (\<lambda>(s', v'). heap s' = heap s \<and> sane m s' \<and> length v' = length v)
      (shift_loop E shift fuel (s\<lparr>polls := p\<rparr>) (shift v k) d)" for p k d
    using Suc.IH [of "s\<lparr>polls := p\<rparr>" "shift v k" d] Suc.prems by (simp add: shift)
  then show ?case
    using Suc.prems by (auto simp: shift Let_def intro!: results_any)
qed simp

lemma results_top_bytes_keeps:
  assumes "heap s = two_stacks m g xs ys" "P (ExitThrow s std_exception)" "\<And>v. Q v"
  shows "results P Q (top_bytes s k)"
  unfolding top_bytes_def results_simps
  by (rule top_vector_any [OF assms(1)]) (simp_all add: assms(2,3))

lemma multisig_loop_keeps:
  assumes "heap s = two_stacks m g xs ys" "sane m s"
  shows "results (kept_exit m) (\<lambda>(s', _). heap s' = heap s \<and> sane m s')
    (multisig_loop E code isig ikey nSigs nKeys s)"
  using assms
proof (induction E code isig ikey nSigs nKeys s rule: multisig_loop.induct)
  case (3 E code isig ikey nSigs nKeys s)
  let ?s = "s\<lparr>polls := Suc (polls s)\<rparr>"
  have h: "heap ?s = two_stacks m g xs ys" "sane m ?s" using "3.prems" by simp_all
  show ?case
    using "3.prems" "3.IH" h
    by (auto simp: Let_def intro!: results_top_bytes_keeps [where s = ?s] results_any)
qed auto

lemma multisig_cleanup_keeps:
  assumes "heap s = two_stacks m g xs ys" "sane m s" "n \<le> length xs"
  shows "results (kept_exit m) (\<lambda>s'. heap s' = two_stacks m g (take (length xs - n) xs) ys \<and> sane m s')
    (multisig_cleanup E fSuccess n ikey2 s)"
  by (rule results_mono_exit [OF multisig_cleanup_safe [OF assms]]) (simp add: good_exit_def)

lemma multisig_finish_keeps:
  assumes "heap s = two_stacks m g xs ys" "sane m s" "nKeys + 3 + nSigs \<le> length xs"
  shows "keeps m (multisig_finish E script opcode nKeys nSigs s)"
proof -
  have "keeps m (bindE (multisig_cleanup E f (nKeys + 2 + nSigs) (nKeys + 2) s')
      (\<lambda>s. multisig_result E opcode f s))" if "heap s' = heap s" "sane m s'" for s' f
  proof -
    have "nKeys + 2 + nSigs \<le> length xs" "take (length xs - (nKeys + 2 + nSigs)) xs \<noteq> []"
      using assms(3) by auto
    then show ?thesis
      unfolding results_simps using that assms(1)
      by (intro results_mono [OF multisig_cleanup_keeps [where m = m and g = g and xs = xs and ys = ys]])
        (auto intro!: safe_keeps multisig_result_safe)
  qed
  then show ?thesis
    unfolding multisig_finish_def results_simps
    using assms by (intro results_mono [OF multisig_loop_keeps [OF assms(1,2)]]) auto
qed

lemma read_count_keeps:
  assumes "heap s = two_stacks m g xs ys" "sane m s" "\<And>k. Q k"
  shows "results (kept_exit m) Q (read_count E s i)"
  unfolding read_count_def results_simps
  using assms by (auto intro!: results_top_bytes_keeps [OF assms(1)] results_any)

lemma op_checkmultisig_keeps:
  assumes "sane m s"
  shows "keeps m (op_checkmultisig E script opcode s)"
proof -
  obtain g xs ys where s: "heap s = two_stacks m g xs ys" "g + cost xs + cost ys \<le> m"
    "length (vfExec s) = length (vfElse s)" using assms(1) by (rule saneE)
  then show ?thesis
    by (auto simp: op_checkmultisig_def eval_simps Let_def Suc_le_eq
        intro!: read_count_keeps multisig_finish_keeps)
qed

lemma read_num_keeps: "sane m s \<Longrightarrow> (\<And>n. Q n) \<Longrightarrow> results (kept_exit m) Q (read_num E s v)"
  by (auto simp: read_num_def intro: results_any)

lemma numeric_keeps:
  assumes "sane m s"
  shows "keeps m (op_unary E opcode s)" "keeps m (op_binary E opcode s)" "keeps m (op_within E s)"
    "keeps m (op_size E s)" "keeps m (op_push_number E opcode s)" "keeps m (op_depth E s)"
    "keeps m (op_split E s)"
  using assms
  unfolding op_unary_def op_binary_def op_within_def op_size_def op_push_number_def Let_def
    push_size_def op_depth_def op_split_def
  by (auto simp: eval_simps nth_append butlast_append elim!: saneE dest!: stack_split
      intro!: read_num_keeps results_any)

lemma op_pick_roll_keeps:
  assumes "sane m s"
  shows "keeps m (op_pick_roll E opcode s)"
  using assms unfolding op_pick_roll_def
  by (auto simp: eval_simps butlast_append elim!: saneE dest!: stack_split
      intro!: read_num_keeps results_any pick_roll_keeps)

lemma op_shift_keeps:
  assumes "sane m s" and shift: "\<And>v k. length (shift v k) = length v"
  shows "keeps m (op_shift E shift s)"
proof -
  obtain g xs ys where s: "heap s = two_stacks m g xs ys" "g + cost xs + cost ys \<le> m"
    "length (vfExec s) = length (vfElse s)" using assms(1) by (rule saneE)
  have loop: "results (kept_exit m) (\<lambda>a. keeps m (case a of (s, v) \<Rightarrow> push s v))
      (shift_loop E shift k (s\<lparr>heap := two_stacks m g zs ys\<rparr>) v n)"
    if "g + cost (zs @ [v]) + cost ys \<le> m" for v n zs k
    using that s(3)
    by (intro results_mono [OF shift_loop_keeps [where m = m]]) (auto simp: eval_simps shift)
  show ?thesis
    unfolding op_shift_def
    using s
    by (auto simp: eval_simps butlast_append nth_append dest!: stack_split simp del: shift_loop.simps
        intro!: read_num_keeps loop results_any)
qed

lemma op_num2bin_keeps:
  assumes "sane m s"
  shows "keeps m (op_num2bin E s)"
proof -
  obtain g xs ys where s: "heap s = two_stacks m g xs ys" "g + cost xs + cost ys \<le> m"
    "length (vfExec s) = length (vfElse s)" using assms(1) by (rule saneE)
  show ?thesis
  proof (cases "length xs < 2")
    case False
    then obtain zs v t where xs: "xs = zs @ [v, t]" using top_splits(2) by blast
    show ?thesis
      unfolding op_num2bin_def
      using s length_sm_bytes_sm_val [of v]
      by (cases "sm_bytes (sm_val v)" rule: rev_cases)
        (auto simp: xs eval_simps stack_simps butlast_append nth_append Let_def
          list_update_append intro!: read_num_keeps results_any)
  qed (use s in \<open>simp add: op_num2bin_def eval_simps\<close>)
qed

subsection \<open>Instructions\<close>

lemma results_ifI:
  "(b \<Longrightarrow> results P Q r1) \<Longrightarrow> (\<not> b \<Longrightarrow> results P Q r2) \<Longrightarrow> results P Q (if b then r1 else r2)"
  by simp

lemma sane_fields [simp]:
  "sane m (s\<lparr>nOpCount := k\<rparr>) = sane m s" "sane m (s\<lparr>ipc := k\<rparr>) = sane m s"
  "sane m (s\<lparr>nonTopLevelReturn := b\<rparr>) = sane m s" "sane m (s\<lparr>pbegincodehash := k\<rparr>) = sane m s"
  by (simp_all add: sane_def)

lemma small_fields [simp]:
  "small (s\<lparr>nOpCount := k\<rparr>) = small s" "small (s\<lparr>ipc := k\<rparr>) = small s" "small (s\<lparr>polls := k\<rparr>) = small s"
  by (simp_all add: small_def)

lemma exec_opcode_keeps:
  assumes "sane m s"
  shows "keeps m (exec_opcode E script pc opcode fExec s)"
  unfolding exec_opcode_def
  by (intro results_ifI numeric_keeps op_pick_roll_keeps op_shift_keeps op_num2bin_keeps op_checkmultisig_keeps
      stack_ops_safe [THEN safe_keeps] op_bin2num_safe [THEN safe_keeps] bit_ops_safe [THEN safe_keeps]
      op_checksig_safe [THEN safe_keeps] assms) (simp_all add: assms)

lemma push_safe: "sane m s \<Longrightarrow> safe m (push s v)"
  by (auto simp: eval_simps elim!: saneE)

lemma eval_step_keeps:
  assumes "sane m s"
  shows "results (kept_exit m) (\<lambda>(pc, s'). sane m s') (eval_step E script pc s)"
  using assms
  by (auto simp: eval_step_def exec_instruction_def Let_def split: option.splits
      intro!: exec_opcode_keeps push_safe [THEN safe_keeps])

context openssl_bn_reads
begin

lemma exec_opcode_safe:
  assumes "sane m s" "bignum E = B" "maxScriptNumLength E + 4 < 2 ^ 31" "small s"
  shows "safe m (exec_opcode E script pc opcode fExec s)"
  unfolding exec_opcode_def
  by (intro results_ifI stack_ops_safe numeric_safe pick_roll_safe op_shift_safe
      op_split_safe op_num2bin_safe op_bin2num_safe bit_ops_safe op_checksig_safe op_checkmultisig_safe
      assms) (simp_all add: assms)

lemma eval_step_safe:
  assumes "sane m s" "bignum E = B" "maxScriptNumLength E + 4 < 2 ^ 31" "small s"
  shows "results (good_exit m) (\<lambda>(pc, s'). sane m s') (eval_step E script pc s)"
  using assms
  by (auto simp: eval_step_def exec_instruction_def Let_def split: option.splits
      intro!: exec_opcode_safe push_safe)

end

subsection \<open>Runs\<close>

text \<open>The states a run goes through, before each instruction and at the end of the script.\<close>

definition eval_start :: "stack_store \<Rightarrow> nat \<Rightarrow> eval_state" where
  "eval_start h n = \<lparr>heap = fst (makeChildStack h main_stack 0), ipc = 0, pbegincodehash = 0, vfExec = [],
     vfElse = [], nOpCount = 0, nonTopLevelReturn = False, polls = n\<rparr>"

inductive eval_reaches :: "'b eval_env \<Rightarrow> CScript \<Rightarrow> eval_state \<Rightarrow> nat \<Rightarrow> eval_state \<Rightarrow> bool"
  for E script s0 where
  start: "eval_reaches E script s0 0 s0"
| step: "eval_reaches E script s0 pc s \<Longrightarrow> pc < length script \<Longrightarrow>
    eval_step E script pc s = Inr (pc', s') \<Longrightarrow> eval_reaches E script s0 pc' s'"

lemma eval_loop_reaches:
  assumes "eval_reaches E script s0 pc s"
  shows "case eval_loop E script pc s of
      Inr t \<Rightarrow> \<exists>pc'. eval_reaches E script s0 pc' t
    | Inl x \<Rightarrow> \<exists>pc' t. eval_reaches E script s0 pc' t \<and> eval_step E script pc' t = Inl x"
  using assms
proof (induction E script pc s rule: eval_loop.induct)
  case (1 E script pc s)
  show ?case
  proof (cases "pc < length script \<and> (\<exists>q. eval_step E script pc s = Inr q)")
    case True
    then obtain pc' s' where st: "pc < length script" "eval_step E script pc s = Inr (pc', s')" by auto
    with "1.prems" have "eval_reaches E script s0 pc' s'" by (rule eval_reaches.step)
    with st show ?thesis using "1.IH" [of "(pc', s')"] by (subst eval_loop.simps) simp
  next
    case False
    with "1.prems" show ?thesis
      by (subst eval_loop.simps) (cases "eval_step E script pc s"; auto)
  qed
qed

lemma EvalScript_cases:
  assumes "EvalScript E h n script = (r, s)"
  obtains (size) "r = EvalFalse SCRIPT_ERR_SCRIPT_SIZE" "s = eval_start h n"
  | (ended) pc where "eval_reaches E script (eval_start h n) pc s"
      "r \<in> {EvalTrue, EvalFalse SCRIPT_ERR_UNBALANCED_CONDITIONAL}"
  | (left) pc t x where "eval_reaches E script (eval_start h n) pc t"
      "eval_step E script pc t = Inl x" "leave x = (r, s)"
proof -
  have st: "EvalScript E h n script = EvalScript_on E script (eval_start h n)"
    "(eval_start h n)\<lparr>pbegincodehash := 0, nOpCount := 0, nonTopLevelReturn := False\<rparr> = eval_start h n"
    by (simp_all add: EvalScript_def eval_start_def)
  show thesis
    using assms eval_loop_reaches [OF eval_reaches.start, of E script "eval_start h n"] that
    unfolding st(1) EvalScript_on_def st(2) Let_def
    by (auto split: if_splits sum.splits)
qed

lemma eval_reaches_sane: "eval_reaches E script s0 pc s \<Longrightarrow> sane m s0 \<Longrightarrow> sane m s"
proof (induction rule: eval_reaches.induct)
  case (step pc s pc' s')
  then show ?case using eval_step_keeps [of m s E script pc] by simp
qed

lemma eval_start_sane: "g + cost xs + cost ys \<le> m \<Longrightarrow> sane m (eval_start (two_stacks m g xs ys) n)"
  by (simp add: eval_start_def stack_simps eval_simps)

lemma leave_state: "snd (leave x) = exit_state x"
  by (cases x) simp_all

lemma EvalScript_sane:
  assumes "g + cost xs + cost ys \<le> m" "EvalScript E (two_stacks m g xs ys) n script = (r, s)"
  shows "sane m s"
  using assms(2)
proof (cases rule: EvalScript_cases)
  case (left pc t x)
  from eval_reaches_sane [OF left(1) eval_start_sane [OF assms(1)]]
  have "kept_exit m x" using eval_step_keeps [of m t E script pc] left(2) by simp
  then show ?thesis using left(3) leave_state [of x] by simp
next
  case (ended pc)
  then show ?thesis using eval_reaches_sane [OF _ eval_start_sane [OF assms(1)]] by blast
qed (use eval_start_sane [OF assms(1)] in simp)

lemma new_stack: "stack_new no_objects 0 m = two_stacks m 0 [] []"
  by (simp add: no_objects_def stack_simps)


definition within_limit :: "nat \<Rightarrow> stack_store \<Rightarrow> bool" where
  "within_limit m h \<longleftrightarrow>
     cost (map stackElement (elems (h main_stack))) + cost (map stackElement (elems (h alt_stack)))
       \<le> getCombinedStackSize h main_stack \<and> getCombinedStackSize h main_stack \<le> m"

lemma sane_within: "sane m s \<Longrightarrow> within_limit m (heap s)"
  by (auto simp: within_limit_def stack_simps two_stacks_def counted_stacks_def elim!: saneE)

text \<open>C2.  Whatever a script does, and whatever OpenSSL and the signature checker answer: before
  every instruction, and however the evaluation ends (true, false, canceled or by any
  exception), the elements on the two stacks occupy, with 32 bytes of overhead each, no more than
  the stack's size counter says, and the counter is within the limit the stack was created with.\<close>

theorem EvalScript_memory_bound:
  assumes "g + cost xs + cost ys \<le> m"
  shows "(\<forall>pc t. eval_reaches E script (eval_start (two_stacks m g xs ys) n) pc t \<longrightarrow> within_limit m (heap t)) \<and>
    within_limit m (heap (snd (EvalScript E (two_stacks m g xs ys) n script)))"
proof -
  have "sane m (snd (EvalScript E (two_stacks m g xs ys) n script))"
    using EvalScript_sane [OF assms, of E n script] by (metis prod.collapse)
  then show ?thesis
    using eval_reaches_sane [OF _ eval_start_sane [OF assms]] sane_within by blast
qed

subsection \<open>A concrete environment\<close>

definition example_config :: CScriptConfig where
  "example_config = \<lparr>GetMaxOpsPerScript = \<lambda>_. 500, GetMaxScriptNumLength = \<lambda>_. 750000,
     GetMaxScriptSize = \<lambda>_. 10000, GetMaxPubKeysPerMultiSig = \<lambda>_. 20,
     GetMaxStackMemoryUsage = \<lambda>_. 100000000\<rparr>"

definition example_env :: "u32 \<Rightarrow> (valtype \<Rightarrow> valtype \<Rightarrow> CScript \<Rightarrow> bool) \<Rightarrow> int eval_env" where
  "example_env flags check = \<lparr>config = example_config, consensus = True, verify_flags = flags,
     CheckSig = check, CheckLowS = \<lambda>_. True, IsCanceled = \<lambda>_. False, bignum = int_openssl\<rparr>"

lemma example_env_simps [simp]:
  "config (example_env f c) = example_config" "verify_flags (example_env f c) = f"
  "CheckSig (example_env f c) = c" "IsCanceled (example_env f c) = (\<lambda>_. False)"
  "bignum (example_env f c) = int_openssl" "CheckLowS (example_env f c) = (\<lambda>_. True)"
  "consensus (example_env f c) = True"
  by (simp_all add: example_env_def)

lemma example_config_simps [simp]:
  "GetMaxOpsPerScript example_config b = 500" "GetMaxScriptNumLength example_config b = 750000"
  "GetMaxScriptSize example_config b = 10000" "GetMaxPubKeysPerMultiSig example_config b = 20"
  "GetMaxStackMemoryUsage example_config b = 100000000"
  by (simp_all add: example_config_def)

lemma example_total: "openssl_bn_total (bignum (example_env f c)) (\<lambda>x. x)"
  using int_bn.openssl_bn_total_axioms by simp

lemma example_reads: "openssl_bn_reads (bignum (example_env f c)) (\<lambda>x. x)"
  using int_bn.openssl_bn_reads_axioms by simp


theorem EvalScript_memory_bound_witness:
  "getCombinedStackSize (heap (snd (EvalScript (example_env 0 (\<lambda>_ _ _. False))
     (two_stacks 100 0 [[7]] []) 0 [0x76, 0x87]))) main_stack \<le> 100"
  using EvalScript_memory_bound [of 0 "[[7]]" "[]" 100 "example_env 0 (\<lambda>_ _ _. False)" "[0x76, 0x87]" 0]
  by (simp add: within_limit_def)

end
