(* ===== verification/Interpreter_Ops.thy ===== *)
theory Interpreter_Ops
  imports Interpreter_Safety "HOL-Library.Sublist"
begin

text \<open>
  What the opcodes compute.  On the two-list view of the stacks each opcode is the list
  operation its comment in \<open>interpreter.cpp\<close> documents; the numeric opcodes are the integer
  operations on the numbers the elements stand for; \<open>OP_CHECKMULTISIG\<close> finds an
  order-preserving assignment of signatures to keys whenever there is one; and a pay-to-public-key-hash
  output is spent by exactly the right key and signature.
\<close>

subsection \<open>Stack opcodes\<close>

text \<open>\<open>yields s m g zs ys r\<close>: the result \<open>r\<close> leaves the stacks \<open>zs\<close> and \<open>ys\<close>, and everything else of
  \<open>s\<close> as it was, if they fit into the memory limit, and throws the stack size exception if not.\<close>

definition yields :: "eval_state \<Rightarrow> nat \<Rightarrow> nat \<Rightarrow> valtype list \<Rightarrow> valtype list \<Rightarrow>
    early_exit + eval_state \<Rightarrow> bool" where
  "yields s m g zs ys r \<longleftrightarrow>
     (if g + cost zs + cost ys \<le> m then r = Inr (s\<lparr>heap := two_stacks m g zs ys\<rparr>)
      else \<exists>s'. r = Inl (ExitThrow s' stack_overflow_error))"

lemma stack_table:
  assumes "g + cost zs + cost ys \<le> m" "heap s = two_stacks m g zs ys"
  shows "zs = xs @ [a, b] \<Longrightarrow> yields s m g xs ys (op_2drop s)"
    "zs = xs @ [a, b] \<Longrightarrow> yields s m g (xs @ [a, b, a, b]) ys (op_2dup s)"
    "zs = xs @ [a, b, c] \<Longrightarrow> yields s m g (xs @ [a, b, c, a, b, c]) ys (op_3dup s)"
    "zs = xs @ [a, b, c, d] \<Longrightarrow> yields s m g (xs @ [a, b, c, d, a, b]) ys (op_2over s)"
    "zs = xs @ [a, b, c, d, e, f] \<Longrightarrow> yields s m g (xs @ [c, d, e, f, a, b]) ys (op_2rot s)"
    "zs = xs @ [a, b, c, d] \<Longrightarrow> yields s m g (xs @ [c, d, a, b]) ys (op_2swap s)"
    "zs = xs @ [a] \<Longrightarrow> yields s m g (xs @ (if sm_val a = 0 then [a] else [a, a])) ys (op_ifdup s)"
    "zs = xs @ [a] \<Longrightarrow> yields s m g xs ys (op_drop s)"
    "zs = xs @ [a] \<Longrightarrow> yields s m g (xs @ [a, a]) ys (op_dup s)"
    "zs = xs @ [a, b] \<Longrightarrow> yields s m g (xs @ [b]) ys (op_nip s)"
    "zs = xs @ [a, b] \<Longrightarrow> yields s m g (xs @ [a, b, a]) ys (op_over s)"
    "zs = xs @ [a, b, c] \<Longrightarrow> yields s m g (xs @ [b, c, a]) ys (op_rot s)"
    "zs = xs @ [a, b] \<Longrightarrow> yields s m g (xs @ [b, a]) ys (op_swap s)"
    "zs = xs @ [a, b] \<Longrightarrow> yields s m g (xs @ [b, a, b]) ys (op_tuck s)"
    "zs = xs @ [a] \<Longrightarrow> yields s m g xs (ys @ [a]) (op_toaltstack s)"
    "ys = us @ [u] \<Longrightarrow> yields s m g (zs @ [u]) us (op_fromaltstack s)"
  using assms
  by (auto simp: yields_def eval_simps stack_simps nth_append butlast_append list_update_append CastToBool_sm_val
      op_toaltstack_def op_fromaltstack_def op_2drop_def op_2dup_def op_3dup_def op_2over_def op_2rot_def
      op_2swap_def op_ifdup_def op_drop_def op_dup_def op_nip_def op_over_def op_rot_def op_swap_def
      op_tuck_def)

context openssl_bn_total
begin

lemma op_pick_roll_exact:
  assumes "bignum E = B" "maxScriptNumLength E + 4 < 2 ^ 31" "heap s = two_stacks m g (xs @ [t]) ys"
    and "readable E t" "sm_val t = int n" "n < length xs" "n < 2 ^ 31" "length xs < 2 ^ 63"
  shows "op_pick_roll E opcode s = pick_roll opcode n (s\<lparr>heap := two_stacks m g xs ys\<rparr>)"
proof -
  obtain b where b: "read_num E s t = Inr (NumBig b)" "bnval b = int n"
    using read_num_ex [OF assms(1,2), of t s] assms(4,5) by auto
  show ?thesis
    using b assms(1,3,6-8)
    by (auto simp: op_pick_roll_def eval_simps butlast_append num_to_size_t_limited_total)
qed

lemma pick_roll_exact:
  assumes "heap s = two_stacks m g xs ys" "g + cost xs + cost ys \<le> m" "n < length xs" "n < 2 ^ 31"
  shows "yields s m g (xs @ [xs ! (length xs - 1 - n)]) ys (pick_roll OP_PICK n s)"
    "yields s m g (take (length xs - 1 - n) xs @ drop (length xs - n) xs @ [xs ! (length xs - 1 - n)]) ys
      (pick_roll OP_ROLL n s)"
proof -
  have ix: "int_of_index (- int n - 1) = - int (Suc n)" using assms(4) by (rule int_of_index_pick)
  have "length xs - Suc n < length xs" "Suc (length xs - Suc n) = length xs - n" using assms(3) by auto
  then show "yields s m g (xs @ [xs ! (length xs - 1 - n)]) ys (pick_roll OP_PICK n s)"
    "yields s m g (take (length xs - 1 - n) xs @ drop (length xs - n) xs @ [xs ! (length xs - 1 - n)]) ys
      (pick_roll OP_ROLL n s)"
    using assms(1-3) cost_nth [of "length xs - Suc n" xs]
    by (auto simp: yields_def pick_roll_def ix eval_simps stack_simps simp del: of_nat_Suc)
qed

lemma op_pick_roll_outside:
  assumes "bignum E = B" "maxScriptNumLength E + 4 < 2 ^ 31" "heap s = two_stacks m g (xs @ [t]) ys"
    and "readable E t" "sm_val t < 0 \<or> int (length xs) \<le> sm_val t" "xs \<noteq> []" "length xs < 2 ^ 63"
  shows "op_pick_roll E opcode s =
    fail (s\<lparr>heap := two_stacks m g xs ys\<rparr>) SCRIPT_ERR_INVALID_STACK_OPERATION"
proof -
  obtain b where b: "read_num E s t = Inr (NumBig b)" "bnval b = sm_val t"
    using read_num_ex [OF assms(1,2), of t s] assms(4) by auto
  have "\<not> length (xs @ [t]) < 2" using assms(6) by (cases xs) auto
  then show ?thesis
    using b assms(1,3,5,7) by (auto simp: op_pick_roll_def eval_simps fail_def)
qed

lemma op_depth_exact:
  assumes "bignum E = B" "heap s = two_stacks m g xs ys" "length xs < 2 ^ 64"
  shows "yields s m g (xs @ [sm_bytes (int (length xs))]) ys (op_depth E s)"
proof -
  obtain b where "bint_of_size_t B (length xs) = Inr b" "bnval b = int (length xs)"
    using bint_of_size_t_ex [OF assms(3)] by auto
  then show ?thesis using assms(1,2) by (auto simp: yields_def op_depth_def push_size_def eval_simps)
qed

end

text \<open>C10.  On stacks within the limit the stack opcodes (\<open>OP_2DROP\<close> to \<open>OP_TUCK\<close>, with \<open>OP_DEPTH\<close>,
  \<open>OP_PICK\<close> and \<open>OP_ROLL\<close>, and the alt stack moves) rearrange the elements exactly as the comments of
  \<open>EvalScript\<close> say, when the result fits into the memory limit, and throw the stack size exception
  when it does not.  \<open>OP_PICK\<close> and \<open>OP_ROLL\<close> are for a count below \<open>2 ^ 31\<close> that is accepted as a
  number; a count outside the stack fails, with the count already removed.  These two and
  \<open>OP_DEPTH\<close> use an OpenSSL that does not run out of memory, a script number length limit below
  \<open>2 ^ 31 - 4\<close> and fewer than \<open>2 ^ 63\<close> elements.\<close>

theorem stack_opcodes:
  assumes "g + cost zs + cost ys \<le> m" "heap s = two_stacks m g zs ys"
  shows "(zs = xs @ [a, b] \<longrightarrow> yields s m g xs ys (op_2drop s)) \<and>
    (zs = xs @ [a, b] \<longrightarrow> yields s m g (xs @ [a, b, a, b]) ys (op_2dup s)) \<and>
    (zs = xs @ [a, b, c] \<longrightarrow> yields s m g (xs @ [a, b, c, a, b, c]) ys (op_3dup s)) \<and>
    (zs = xs @ [a, b, c, d] \<longrightarrow> yields s m g (xs @ [a, b, c, d, a, b]) ys (op_2over s)) \<and>
    (zs = xs @ [a, b, c, d, e, f] \<longrightarrow> yields s m g (xs @ [c, d, e, f, a, b]) ys (op_2rot s)) \<and>
    (zs = xs @ [a, b, c, d] \<longrightarrow> yields s m g (xs @ [c, d, a, b]) ys (op_2swap s)) \<and>
    (zs = xs @ [a] \<longrightarrow> yields s m g (xs @ (if sm_val a = 0 then [a] else [a, a])) ys (op_ifdup s)) \<and>
    (zs = xs @ [a] \<longrightarrow> yields s m g xs ys (op_drop s)) \<and>
    (zs = xs @ [a] \<longrightarrow> yields s m g (xs @ [a, a]) ys (op_dup s)) \<and>
    (zs = xs @ [a, b] \<longrightarrow> yields s m g (xs @ [b]) ys (op_nip s)) \<and>
    (zs = xs @ [a, b] \<longrightarrow> yields s m g (xs @ [a, b, a]) ys (op_over s)) \<and>
    (zs = xs @ [a, b, c] \<longrightarrow> yields s m g (xs @ [b, c, a]) ys (op_rot s)) \<and>
    (zs = xs @ [a, b] \<longrightarrow> yields s m g (xs @ [b, a]) ys (op_swap s)) \<and>
    (zs = xs @ [a, b] \<longrightarrow> yields s m g (xs @ [b, a, b]) ys (op_tuck s)) \<and>
    (zs = xs @ [a] \<longrightarrow> yields s m g xs (ys @ [a]) (op_toaltstack s)) \<and>
    (ys = us @ [u] \<longrightarrow> yields s m g (zs @ [u]) us (op_fromaltstack s)) \<and>
    (openssl_bn_total (bignum E) bnval \<and> maxScriptNumLength E + 4 < 2 ^ 31 \<and> length zs < 2 ^ 63 \<longrightarrow>
      yields s m g (zs @ [sm_bytes (int (length zs))]) ys (op_depth E s) \<and>
      (zs = xs @ [t] \<and> readable E t \<and> sm_val t = int n \<and> n < length xs \<and> n < 2 ^ 31 \<longrightarrow>
        yields s m g (xs @ [xs ! (length xs - 1 - n)]) ys (op_pick_roll E OP_PICK s) \<and>
        yields s m g (take (length xs - 1 - n) xs @ drop (length xs - n) xs @ [xs ! (length xs - 1 - n)]) ys
          (op_pick_roll E OP_ROLL s)) \<and>
      (zs = xs @ [t] \<and> xs \<noteq> [] \<and> readable E t \<and> (sm_val t < 0 \<or> int (length xs) \<le> sm_val t) \<longrightarrow>
        op_pick_roll E opcode s =
          fail (s\<lparr>heap := two_stacks m g xs ys\<rparr>) SCRIPT_ERR_INVALID_STACK_OPERATION))"
proof -
  have 1: "yields s m g (xs @ [xs ! (length xs - 1 - n)]) ys (op_pick_roll E OP_PICK s) \<and>
      yields s m g (take (length xs - 1 - n) xs @ drop (length xs - n) xs @ [xs ! (length xs - 1 - n)]) ys
        (op_pick_roll E OP_ROLL s)"
    if "openssl_bn_total (bignum E) bnval \<and> maxScriptNumLength E + 4 < 2 ^ 31 \<and> length zs < 2 ^ 63"
      "zs = xs @ [t] \<and> readable E t \<and> sm_val t = int n \<and> n < length xs \<and> n < 2 ^ 31"
  proof -
    have "op_pick_roll E opcode s = pick_roll opcode n (s\<lparr>heap := two_stacks m g xs ys\<rparr>)" for opcode
      using that assms(2) by (intro openssl_bn_total.op_pick_roll_exact [of "bignum E" bnval]) auto
    moreover note openssl_bn_total.pick_roll_exact [of "bignum E" bnval "s\<lparr>heap := two_stacks m g xs ys\<rparr>" m g xs ys n]
    ultimately show ?thesis using that assms(1) by (simp add: yields_def)
  qed
  show ?thesis
    using assms(2)
    by (intro conjI impI stack_table [OF assms] 1 [THEN conjunct1] 1 [THEN conjunct2]
        openssl_bn_total.op_depth_exact openssl_bn_total.op_pick_roll_outside [where t = t]) auto
qed

definition example_state :: "stack_store \<Rightarrow> eval_state" where
  "example_state h = \<lparr>heap = h, ipc = 0, pbegincodehash = 0, vfExec = [], vfElse = [], nOpCount = 0,
     nonTopLevelReturn = False, polls = 0\<rparr>"

lemma example_state_heap [simp]:
  "heap (example_state h) = h" "(example_state h)\<lparr>heap := h'\<rparr> = example_state h'"
  "vfExec (example_state h) = []" "vfElse (example_state h) = []" "nonTopLevelReturn (example_state h) = False"
  by (simp_all add: example_state_def)

lemma example_readable: "readable (example_env 0 c) v \<longleftrightarrow> length v \<le> 750000"
  by (simp add: readable_def has_flag_def)

theorem stack_opcodes_witness:
  "op_rot (example_state (two_stacks 200 0 [[1], [2], [3], [2]] [])) =
     Inr (example_state (two_stacks 200 0 [[1], [3], [2], [2]] [])) \<and>
   op_pick_roll (example_env 0 (\<lambda>_ _ _. False)) OP_ROLL (example_state (two_stacks 200 0 [[1], [2], [3], [2]] [])) =
     Inr (example_state (two_stacks 200 0 [[2], [3], [1]] []))"
proof -
  let ?s = "example_state (two_stacks 200 0 [[1], [2], [3], [2]] [])"
  have v: "sm_val [2] = int 2" by (simp add: sm_val_def sm_neg_def sm_mag_def)
  note table = stack_opcodes [where g = 0 and zs = "[[1], [2], [3], [2]]" and ys = "[]" and m = 200 and s = ?s]
  show ?thesis
  proof (rule conjI)
    show "op_rot ?s = Inr (example_state (two_stacks 200 0 [[1], [3], [2], [2]] []))"
      using table [where xs = "[[1]]" and a = "[2]" and b = "[3]" and c = "[2]"
          and E = "example_env 0 (\<lambda>_ _ _. False)" and bnval = "\<lambda>x. x"]
      by (simp add: yields_def)
    show "op_pick_roll (example_env 0 (\<lambda>_ _ _. False)) OP_ROLL ?s =
        Inr (example_state (two_stacks 200 0 [[2], [3], [1]] []))"
      using table [where xs = "[[1], [2], [3]]" and t = "[2]" and n = 2 and E = "example_env 0 (\<lambda>_ _ _. False)"
          and bnval = "\<lambda>x. x"] example_total [of 0 "\<lambda>_ _ _. False"]
      by (simp add: yields_def v example_readable)
  qed
qed

subsection \<open>Too few elements\<close>

text \<open>The number of elements an opcode demands of the main stack before it does anything.\<close>

definition operands :: "nat \<Rightarrow> nat" where
  "operands opcode =
     (if opcode \<in> {OP_2ROT} then 6
      else if opcode \<in> {OP_2OVER, OP_2SWAP} then 4
      else if opcode \<in> {OP_3DUP, OP_ROT, OP_WITHIN} then 3
      else if opcode \<in> {OP_2DROP, OP_2DUP, OP_NIP, OP_OVER, OP_PICK, OP_ROLL, OP_SWAP, OP_TUCK, OP_AND,
        OP_OR, OP_XOR, OP_LSHIFT, OP_RSHIFT, OP_EQUAL, OP_EQUALVERIFY, OP_CHECKSIG, OP_CHECKSIGVERIFY,
        OP_CAT, OP_SPLIT, OP_NUM2BIN} \<union> binary_ops then 2
      else if opcode \<in> {OP_VERIFY, OP_TOALTSTACK, OP_IFDUP, OP_DROP, OP_DUP, OP_SIZE, OP_INVERT,
        OP_RIPEMD160, OP_SHA1, OP_SHA256, OP_HASH160, OP_HASH256, OP_CHECKMULTISIG,
        OP_CHECKMULTISIGVERIFY, OP_BIN2NUM} \<union> unary_ops then 1
      else 0)"

lemma need_fails: "depth s < n \<Longrightarrow> bindE (need s n) f = fail s SCRIPT_ERR_INVALID_STACK_OPERATION"
  by (simp add: need_def fail_def)

lemma arity_cases:
  "d < (if p6 then 6 else if p4 then 4 else if p3 then 3 else if p2 then 2 else if p1 then 1 else (0 :: nat)) \<Longrightarrow>
   p6 \<and> d < 6 \<or> p4 \<and> d < 4 \<or> p3 \<and> d < 3 \<or> p2 \<and> d < 2 \<or> p1 \<and> d < 1"
  by (auto split: if_splits)

lemma underflow_fails:
  assumes "depth s < operands opcode"
  shows "exec_opcode E script pc opcode fExec s = fail s SCRIPT_ERR_INVALID_STACK_OPERATION"
  using arity_cases [OF assms [unfolded operands_def]] unfolding Un_iff insert_iff empty_iff
  by (elim disjE conjE FalseE; hypsubst;
    simp add: exec_opcode_def need_fails op_2rot_def op_2over_def op_2swap_def op_3dup_def op_rot_def
      op_within_def op_2drop_def op_2dup_def op_nip_def op_over_def op_pick_roll_def op_swap_def op_tuck_def
      op_bitwise_def op_shift_def op_equal_def op_checksig_def op_cat_def op_split_def op_num2bin_def
      op_binary_def op_verify_def op_toaltstack_def op_ifdup_def op_drop_def op_dup_def op_size_def
      op_invert_def op_hash_def op_checkmultisig_def op_bin2num_def op_unary_def)

text \<open>The other way round: once the first check has passed, the stack calls of an opcode throw
  and its other checks have their own codes.\<close>

fun other_exit :: "early_exit \<Rightarrow> bool" where
  "other_exit (ExitFail s e) = (e \<noteq> SCRIPT_ERR_INVALID_STACK_OPERATION)"
| "other_exit x = True"

abbreviation otherwise :: "early_exit + 'a \<Rightarrow> bool" where
  "otherwise r \<equiv> results other_exit (\<lambda>_. True) r"

lemma otherwise_bind [intro]:
  "otherwise r \<Longrightarrow> (\<And>a. otherwise (f a)) \<Longrightarrow> otherwise (bindE r f)"
  by (cases r) simp_all

lemma otherwise_need: "n \<le> depth s \<Longrightarrow> need s n = Inr ()"
  by (simp add: need_def)

lemma otherwise_calls:
  "otherwise (throws s r)" "otherwise (top_index s k)" "otherwise (top_vector s k)" "otherwise (top_bytes s k)"
  "otherwise (on_heap s f)" "otherwise (push s v)" "otherwise (push_copy s w)" "otherwise (pop s)"
  "otherwise (swap_at s i j)" "otherwise (read_num E s v)" "otherwise (push_size E s n)" "otherwise (poll E s)"
proof -
  have t: "otherwise (throws s r)" for s and r :: "cxx_exn + 'x" by (cases r) simp_all
  then have h: "otherwise (on_heap s f)" for s f by (auto simp: on_heap_def)
  have i: "otherwise (top_index s k)" for s k using t by (simp add: top_index_def del: results_throws)
  show "otherwise (throws s r)" "otherwise (on_heap s f)" "otherwise (top_index s k)" by (rule t h i)+
  show "otherwise (top_vector s k)" "otherwise (top_bytes s k)"
    using i by (auto simp: top_vector_def top_bytes_def)
  show "otherwise (push s v)" "otherwise (push_copy s w)" "otherwise (pop s)" "otherwise (swap_at s i j)"
    unfolding push_def push_copy_def pop_def swap_at_def by (rule h)+
  show "otherwise (read_num E s v)" unfolding read_num_def by (rule t)
  show "otherwise (push_size E s n)" unfolding push_size_def push_def by (intro otherwise_bind t h)
  show "otherwise (poll E s)" by (simp add: poll_def Let_def)
qed

lemma results_otherwise: "otherwise r \<Longrightarrow> (\<And>a. Q a) \<Longrightarrow> results other_exit Q r"
  by (erule results_mono) simp

lemmas results_calls = otherwise_calls [THEN results_otherwise]

lemma otherwise_errors:
  "binary_num B opcode a b = Inr (Inl e) \<Longrightarrow> e \<noteq> SCRIPT_ERR_INVALID_STACK_OPERATION"
  "check_encodings E sig key = Inl e' \<Longrightarrow> e' \<noteq> SCRIPT_ERR_INVALID_STACK_OPERATION"
  by (auto simp: binary_num_def Let_def bindE_eq_Inr check_encodings_def bindE_eq_Inl
      CheckSignatureEncoding_def IsLowDERSignature_def CheckPubKeyEncoding_def split: if_splits)

lemma results_binary_codes:
  assumes "\<And>x. P x" "\<And>b. Q (Inr b)" "\<And>e. e \<noteq> SCRIPT_ERR_INVALID_STACK_OPERATION \<Longrightarrow> Q (Inl e)"
  shows "results P Q (binary_num B opcode u v)"
proof (rule resultsI)
  fix r assume "binary_num B opcode u v = Inr r"
  then show "Q r" using assms(2,3) otherwise_errors(1) [of B opcode u v] by (cases r) auto
qed (rule assms(1))

lemma results_encoding_codes:
  assumes "\<And>e. e \<noteq> SCRIPT_ERR_INVALID_STACK_OPERATION \<Longrightarrow> P e" "\<And>a. Q a"
  shows "results P Q (check_encodings E sig key)"
  using assms otherwise_errors(2) [of E sig key] by (auto intro!: resultsI)

lemma otherwise_shift_loop: "otherwise (shift_loop E shift fuel s v n)"
  by (induction fuel arbitrary: s v n)
    (auto simp: Let_def poll_def intro!: results_any)

lemma otherwise_ops_1:
  assumes "1 \<le> depth s"
  shows "otherwise (op_verify s)" "otherwise (op_toaltstack s)" "otherwise (op_ifdup s)" "otherwise (op_drop s)"
    "otherwise (op_dup s)" "otherwise (op_size E s)" "otherwise (op_invert s)" "otherwise (op_hash opcode s)"
    "otherwise (op_bin2num E s)" "otherwise (op_unary E opcode s)"
  using otherwise_need [OF assms]
  by (auto simp: op_verify_def op_toaltstack_def op_ifdup_def op_drop_def op_dup_def op_size_def op_invert_def
      op_hash_def op_bin2num_def op_unary_def intro!: results_calls results_any(1))

lemma otherwise_ops_2:
  assumes "2 \<le> depth s"
  shows "otherwise (op_2drop s)" "otherwise (op_2dup s)" "otherwise (op_nip s)" "otherwise (op_over s)"
    "otherwise (op_swap s)" "otherwise (op_tuck s)" "otherwise (op_bitwise opcode s)" "otherwise (op_shift E shift s)"
    "otherwise (op_equal opcode s)" "otherwise (op_checksig E script opcode s)" "otherwise (op_cat s)"
    "otherwise (op_split E s)" "otherwise (op_num2bin E s)"
  using otherwise_need [OF assms]
  by (auto simp: op_2drop_def op_2dup_def op_nip_def op_over_def op_swap_def op_tuck_def op_bitwise_def
      op_shift_def op_equal_def op_checksig_def op_cat_def op_split_def op_num2bin_def Let_def
      simp del: shift_loop.simps
      intro!: results_calls results_encoding_codes results_any(1) otherwise_shift_loop [THEN results_otherwise])

lemma otherwise_binary: "2 \<le> depth s \<Longrightarrow> otherwise (op_binary E opcode s)"
  by (auto simp: otherwise_need op_binary_def intro!: results_calls results_binary_codes)

lemma otherwise_ops_more:
  "3 \<le> depth s \<Longrightarrow> otherwise (op_3dup s)" "3 \<le> depth s \<Longrightarrow> otherwise (op_rot s)"
  "3 \<le> depth s \<Longrightarrow> otherwise (op_within E s)" "4 \<le> depth s \<Longrightarrow> otherwise (op_2over s)"
  "4 \<le> depth s \<Longrightarrow> otherwise (op_2swap s)" "6 \<le> depth s \<Longrightarrow> otherwise (op_2rot s)"
  "otherwise (op_push_number E opcode s)" "otherwise (op_upgradable_nop E s)" "otherwise (op_if E opcode fExec s)"
  "otherwise (op_else s)" "otherwise (op_endif s)" "otherwise (op_return s)" "otherwise (op_fromaltstack s)"
  "otherwise (op_depth E s)"
  by (auto simp: otherwise_need op_3dup_def op_rot_def op_within_def op_2over_def op_2swap_def op_2rot_def
      op_push_number_def op_upgradable_nop_def op_if_def op_else_def op_endif_def op_return_def
      op_fromaltstack_def op_depth_def Let_def intro!: results_calls results_any(1))


lemma underflow_only:
  assumes "operands opcode \<le> depth s"
    and "opcode \<notin> {OP_PICK, OP_ROLL, OP_CHECKMULTISIG, OP_CHECKMULTISIGVERIFY}"
  shows "otherwise (exec_opcode E script pc opcode fExec s)"
  unfolding exec_opcode_def
  by (intro results_ifI otherwise_ops_1 otherwise_ops_2 otherwise_binary otherwise_ops_more)
    (use assms in \<open>auto simp: operands_def\<close>)

text \<open>C11.  \<open>operands\<close> is exactly what the opcodes demand: outside \<open>OP_PICK\<close>, \<open>OP_ROLL\<close> and the multisignature
  opcodes, an opcode fails with \<open>SCRIPT_ERR_INVALID_STACK_OPERATION\<close> if and only if the main stack has
  fewer elements than that, and then leaves the state as it was.  The four exceptions do so
  too when their first check fails, and also report this error later on, when a count they read
  reaches below the stack.  \<open>OP_IF\<close> and \<open>OP_NOTIF\<close> report an empty main stack, and
  \<open>OP_FROMALTSTACK\<close> an empty alt stack, with codes of their own.\<close>

theorem stack_underflow:
  shows "(opcode \<notin> {OP_PICK, OP_ROLL, OP_CHECKMULTISIG, OP_CHECKMULTISIGVERIFY} \<longrightarrow>
      (exec_opcode E script pc opcode fExec s = Inl (ExitFail s' SCRIPT_ERR_INVALID_STACK_OPERATION) \<longleftrightarrow>
       depth s < operands opcode \<and> s' = s)) \<and>
    (depth s < operands opcode \<longrightarrow>
      exec_opcode E script pc opcode fExec s = Inl (ExitFail s SCRIPT_ERR_INVALID_STACK_OPERATION)) \<and>
    (opcode \<in> {OP_IF, OP_NOTIF} \<and> depth s = 0 \<longrightarrow>
      exec_opcode E script pc opcode True s = Inl (ExitFail s SCRIPT_ERR_UNBALANCED_CONDITIONAL)) \<and>
    (stack_size (heap s) alt_stack = 0 \<longrightarrow> exec_opcode E script pc OP_FROMALTSTACK fExec s =
      Inl (ExitFail s SCRIPT_ERR_INVALID_ALTSTACK_OPERATION))"
proof (intro conjI impI)
  show fails: "exec_opcode E script pc opcode fExec s = Inl (ExitFail s SCRIPT_ERR_INVALID_STACK_OPERATION)"
    if "depth s < operands opcode"
    using underflow_fails [OF that, of E script pc fExec] by (simp add: fail_def)
  assume op: "opcode \<notin> {OP_PICK, OP_ROLL, OP_CHECKMULTISIG, OP_CHECKMULTISIGVERIFY}"
  show "exec_opcode E script pc opcode fExec s = Inl (ExitFail s' SCRIPT_ERR_INVALID_STACK_OPERATION) \<longleftrightarrow>
      depth s < operands opcode \<and> s' = s"
  proof (cases "depth s < operands opcode")
    case True
    then show ?thesis using fails by auto
  next
    case False
    then show ?thesis
      using underflow_only [OF _ op, of s E script pc fExec]
      by (cases "exec_opcode E script pc opcode fExec s") auto
  qed
qed (auto simp: exec_opcode_def op_if_def op_fromaltstack_def fail_def)

theorem stack_underflow_witness:
  "exec_opcode (example_env 0 (\<lambda>_ _ _. False)) [0x7b] 1 OP_ROT True
     (example_state (two_stacks 100 0 [[1], [2]] [])) =
   Inl (ExitFail (example_state (two_stacks 100 0 [[1], [2]] [])) SCRIPT_ERR_INVALID_STACK_OPERATION)"
  using stack_underflow [of OP_ROT "example_env 0 (\<lambda>_ _ _. False)" "[0x7b]" 1 True
      "example_state (two_stacks 100 0 [[1], [2]] [])" "example_state (two_stacks 100 0 [[1], [2]] [])"]
  by (simp add: operands_def eval_simps)

subsection \<open>Numeric opcodes\<close>

lemma sm_bytes_0_1: "sm_bytes 0 = []" "sm_bytes 1 = [1]"
  by code_simp+

lemma sm_bytes_bool: "sm_bytes (bool_int p) = (if p then vchTrue else vchFalse)"
  by (simp add: bool_int_def sm_bytes_0_1)

lemma CastToBool_vch: "CastToBool vchTrue" "\<not> CastToBool vchFalse"
  by (simp_all add: CastToBool_def)

context openssl_bn_total
begin

lemma op_unary_exact:
  assumes "bignum E = B" "maxScriptNumLength E + 4 < 2 ^ 31" "opcode \<in> unary_ops"
    and "heap s = two_stacks m g (xs @ [v]) ys" "readable E v"
  shows "op_unary E opcode s =
    push (s\<lparr>heap := two_stacks m g xs ys\<rparr>) (sm_bytes (unary_spec opcode (sm_val v)))"
proof -
  obtain b where b: "read_num E s v = Inr (NumBig b)" "bnval b = sm_val v"
    using read_num_ex [OF assms(1,2), of v s] assms(5) by blast
  obtain r where "unary_num B opcode (NumBig b) = Inr r" "num_val bnval r = unary_spec opcode (sm_val v)"
    using unary_num_ex [OF assms(3), of b] b(2) by auto
  then show ?thesis using b assms(1,4) by (simp add: op_unary_def eval_simps)
qed

lemma op_binary_exact:
  assumes "bignum E = B" "maxScriptNumLength E + 4 < 2 ^ 31" "opcode \<in> binary_ops" "opcode \<noteq> OP_NUMEQUALVERIFY"
    and "heap s = two_stacks m g (xs @ [v, w]) ys" "readable E v" "readable E w"
  shows "op_binary E opcode s =
    (case binary_spec opcode (sm_val v) (sm_val w) of
       Inl e \<Rightarrow> fail s e
     | Inr r \<Rightarrow> push (s\<lparr>heap := two_stacks m g xs ys\<rparr>) (sm_bytes r))"
proof -
  obtain a where a: "read_num E s v = Inr (NumBig a)" "bnval a = sm_val v"
    using read_num_ex [OF assms(1,2), of v s] assms(6) by blast
  obtain b where b: "read_num E s w = Inr (NumBig b)" "bnval b = sm_val w"
    using read_num_ex [OF assms(1,2), of w s] assms(7) by blast
  have p: "bindE (push s' u) Inr = push s' u" for s' u by (cases "push s' u") simp_all
  show ?thesis
    using binary_num_ex [OF assms(3), of a b] a b assms(1,4,5)
    by (auto simp: op_binary_def eval_simps nth_append butlast_append p fail_def)
qed

lemma op_within_exact:
  assumes "bignum E = B" "maxScriptNumLength E + 4 < 2 ^ 31"
    and "heap s = two_stacks m g (xs @ [u, v, w]) ys" "readable E u" "readable E v" "readable E w"
  shows "op_within E s = push (s\<lparr>heap := two_stacks m g xs ys\<rparr>)
    (if sm_val v \<le> sm_val u \<and> sm_val u < sm_val w then vchTrue else vchFalse)"
proof -
  obtain a b c where "read_num E s u = Inr (NumBig a)" "bnval a = sm_val u"
    "read_num E s v = Inr (NumBig b)" "bnval b = sm_val v" "read_num E s w = Inr (NumBig c)" "bnval c = sm_val w"
    using read_num_ex [OF assms(1,2), of u s] read_num_ex [OF assms(1,2), of v s]
      read_num_ex [OF assms(1,2), of w s] assms(4-6) by blast
  then show ?thesis
    using assms(1,3) by (auto simp: op_within_def eval_simps nth_append butlast_append)
qed

lemma op_binary_verify_exact:
  assumes "bignum E = B" "maxScriptNumLength E + 4 < 2 ^ 31"
    and "heap s = two_stacks m g (xs @ [v, w]) ys" "readable E v" "readable E w"
    and "g + cost (xs @ [v, w]) + cost ys \<le> m"
  shows "op_binary E OP_NUMEQUALVERIFY s =
    (if sm_val v = sm_val w then Inr (s\<lparr>heap := two_stacks m g xs ys\<rparr>)
     else fail (s\<lparr>heap := two_stacks m g (xs @ [[]]) ys\<rparr>) SCRIPT_ERR_NUMEQUALVERIFY)"
proof -
  obtain a where a: "read_num E s v = Inr (NumBig a)" "bnval a = sm_val v"
    using read_num_ex [OF assms(1,2), of v s] assms(4) by blast
  obtain b where b: "read_num E s w = Inr (NumBig b)" "bnval b = sm_val w"
    using read_num_ex [OF assms(1,2), of w s] assms(5) by blast
  obtain r where r: "binary_num B OP_NUMEQUALVERIFY (NumBig a) (NumBig b) = Inr (Inr r)"
    "num_val bnval r = bool_int (sm_val v = sm_val w)"
    using binary_num_ex [of OP_NUMEQUALVERIFY a b] a(2) b(2) by (auto simp: binary_spec_def)
  then show ?thesis
    using a b assms
    by (auto simp: op_binary_def eval_simps nth_append butlast_append sm_bytes_bool CastToBool_vch)
qed

end

text \<open>C12.  The numeric opcodes (\<open>OP_1ADD\<close> to \<open>OP_WITHIN\<close>) are integer arithmetic: on operands that are
  accepted as numbers, which means at most \<open>maxScriptNumLength\<close> bytes (750000 by default, not the four
  bytes that a comment of \<open>script_num.h\<close> still gives) and minimally encoded where the flags demand it,
  they replace them by the encoding of the sum, difference, product, quotient or remainder
  truncated towards zero, comparison, minimum or maximum of the integers the operands
  encode, and fail on a zero divisor; \<open>OP_NUMEQUALVERIFY\<close> goes on with the operands removed when they are equal
  and fails otherwise.  OpenSSL does not run out of memory, and the length limit is below
  \<open>2 ^ 31 - 4\<close>.\<close>

theorem arithmetic_opcodes:
  assumes "openssl_bn_total (bignum E) bnval" "maxScriptNumLength E + 4 < 2 ^ 31"
    and "heap s = two_stacks m g (xs @ [v, w]) ys" "readable E v" "readable E w"
  shows "(opcode \<in> unary_ops \<longrightarrow> op_unary E opcode s =
      push (s\<lparr>heap := two_stacks m g (xs @ [v]) ys\<rparr>) (sm_bytes (unary_spec opcode (sm_val w)))) \<and>
    (opcode \<in> binary_ops - {OP_NUMEQUALVERIFY} \<longrightarrow> op_binary E opcode s =
      (case binary_spec opcode (sm_val v) (sm_val w) of
         Inl e \<Rightarrow> fail s e
       | Inr r \<Rightarrow> push (s\<lparr>heap := two_stacks m g xs ys\<rparr>) (sm_bytes r))) \<and>
    (g + cost (xs @ [v, w]) + cost ys \<le> m \<longrightarrow> op_binary E OP_NUMEQUALVERIFY s =
      (if sm_val v = sm_val w then Inr (s\<lparr>heap := two_stacks m g xs ys\<rparr>)
       else fail (s\<lparr>heap := two_stacks m g (xs @ [vchFalse]) ys\<rparr>) SCRIPT_ERR_NUMEQUALVERIFY)) \<and>
    (xs = us @ [u] \<and> readable E u \<longrightarrow> op_within E s = push (s\<lparr>heap := two_stacks m g us ys\<rparr>)
      (if sm_val v \<le> sm_val u \<and> sm_val u < sm_val w then vchTrue else vchFalse))"
proof -
  have "heap s = two_stacks m g ((xs @ [v]) @ [w]) ys" using assms(3) by simp
  then show ?thesis
    using assms(3-5)
    by (intro conjI impI openssl_bn_total.op_unary_exact [OF assms(1) refl assms(2)]
        openssl_bn_total.op_binary_exact [OF assms(1) refl assms(2)]
        openssl_bn_total.op_binary_verify_exact [OF assms(1) refl assms(2)]
        openssl_bn_total.op_within_exact [OF assms(1) refl assms(2)]) auto
qed

theorem arithmetic_opcodes_witness:
  "op_binary (example_env 0 (\<lambda>_ _ _. False)) OP_DIV (example_state (two_stacks 1000 0 [[0x87], [2]] [])) =
   push (example_state (two_stacks 1000 0 [] [])) [0x83]"
proof -
  have "binary_spec OP_DIV (sm_val [0x87]) (sm_val [2]) = Inr (- 3)" "sm_bytes (- 3) = [0x83]"
    by code_simp+
  then show ?thesis
    using arithmetic_opcodes [OF example_total, where s = "example_state (two_stacks 1000 0 [[0x87], [2]] [])"
        and xs = "[]" and v = "[0x87]" and w = "[2]" and opcode = OP_DIV]
    by (simp add: example_readable)
qed

subsection \<open>Shifts\<close>

lemma be_nat_inj: "length x = length y \<Longrightarrow> be_nat x = be_nat y \<Longrightarrow> x = y"
  by (metis be_bytes_be_nat)

lemma RShift_RShift: "RShift (RShift v a) b = RShift v (a + b)"
  by (rule be_nat_inj) (simp_all add: RShift_be_nat div_mult2_eq power_add)

lemma LShift_LShift: "LShift (LShift v a) b = LShift v (a + b)"
  by (rule be_nat_inj) (simp_all add: LShift_be_nat mod_mult_left_eq power_add mult.assoc)

lemma be_nat_zeros: "be_nat (replicate k 0) = 0"
  by (simp add: be_nat_def)

lemma RShift_all: "8 * length v \<le> n \<Longrightarrow> RShift v n = replicate (length v) 0"
proof (rule be_nat_inj)
  assume "8 * length v \<le> n"
  then have "(256 :: nat) ^ length v \<le> 2 ^ n" using power_increasing [of "8 * length v" n "2 :: nat"]
    by (simp add: power_mult)
  then show "be_nat (RShift v n) = be_nat (replicate (length v) 0)"
    using be_nat_bound [of v] by (simp add: RShift_be_nat be_nat_zeros)
qed simp

lemma LShift_all: "8 * length v \<le> n \<Longrightarrow> LShift v n = replicate (length v) 0"
proof (rule be_nat_inj)
  assume "8 * length v \<le> n"
  then have "(2 :: nat) ^ n = 2 ^ (8 * length v) * 2 ^ (n - 8 * length v)"
    by (simp flip: power_add)
  then have "(2 :: nat) ^ n = 256 ^ length v * 2 ^ (n - 8 * length v)" by (simp add: power_mult)
  then show "be_nat (LShift v n) = be_nat (replicate (length v) 0)"
    by (simp add: LShift_be_nat be_nat_zeros)
qed simp

context openssl_bn_total
begin

lemma shift_loop_exact:
  assumes "bignum E = B" "IsCanceled E = (\<lambda>_. False)" "0 \<le> bnval n" "bnval n < int fuel"
    and shift: "\<And>v a b. shift (shift v a) b = shift v (a + b)"
  shows "\<exists>p. shift_loop E shift fuel s v (NumBig n) = Inr (s\<lparr>polls := p\<rparr>, shift v (nat (bnval n)))"
  using assms(3,4)
proof (induction fuel arbitrary: s v n)
  case (Suc fuel)
  obtain mx where mx: "bint_of_int B INT_MAX = Inr mx" "bnval mx = INT_MAX"
    using bint_of_int_ex [of INT_MAX] by auto
  obtain d where d: "num_sub B (NumBig n) (NumBig mx) = Inr (NumBig d)" "bnval d = bnval n - INT_MAX"
    using num_arith_big_ex(2) [of n mx] mx(2) by auto
  have p: "poll E s = Inr (s\<lparr>polls := Suc (polls s)\<rparr>)" by (simp add: poll_def assms(2))
  show ?case
  proof (cases "bnval n \<le> INT_MAX")
    case True
    then show ?thesis
      using Suc.prems by (auto simp: assms(1) num_getint_total mx d p Let_def)
  next
    case False
    have "nat INT_MAX + nat (bnval d) = nat (bnval n)" using False d(2) by simp
    moreover have "0 \<le> bnval d" "bnval d < int fuel" using False d(2) Suc.prems by simp_all
    note Suc.IH [OF this, of "s\<lparr>polls := Suc (polls s)\<rparr>" "shift v (nat INT_MAX)"]
    ultimately show ?thesis
      using False d(2) by (auto simp: assms(1) num_getint_total mx d(1) p Let_def shift)
  qed
qed simp

lemma op_shift_exact:
  assumes "bignum E = B" "maxScriptNumLength E + 4 < 2 ^ 31" "IsCanceled E = (\<lambda>_. False)"
    and "heap s = two_stacks m g (xs @ [v, t]) ys" "readable E t" "0 \<le> sm_val t"
    and "g + cost (xs @ [v, t]) + cost ys \<le> m" "length v < 2 ^ 59"
    and shift: "\<And>v a b. shift (shift v a) b = shift v (a + b)"
    and all: "\<And>v n. 8 * length v \<le> n \<Longrightarrow> shift v n = replicate (length v) 0"
    and len: "\<And>v n. length (shift v n) = length v"
  shows "\<exists>p. op_shift E shift s =
    Inr (s\<lparr>heap := two_stacks m g (xs @ [shift v (nat (sm_val t))]) ys, polls := p\<rparr>)"
proof -
  let ?s = "s\<lparr>heap := two_stacks m g xs ys\<rparr>"
  obtain b where b: "read_num E s t = Inr (NumBig b)" "bnval b = sm_val t"
    using read_num_ex [OF assms(1,2), of t s] assms(5) by blast
  show ?thesis
  proof (cases "int (length v * 8) \<le> sm_val t")
    case True
    then have "shift v (nat (sm_val t)) = replicate (length v) 0" by (intro all) linarith
    then have "op_shift E shift s = Inr (s\<lparr>heap := two_stacks m g (xs @ [shift v (nat (sm_val t))]) ys\<rparr>)"
      using True b assms(1,4,6,7,8) by (simp add: op_shift_def eval_simps nth_append butlast_append)
    then show ?thesis by (intro exI [of _ "polls s"]) simp
  next
    case False
    then obtain p where "shift_loop E shift (length v * 8 + 1) ?s v (NumBig b) =
        Inr (?s\<lparr>polls := p\<rparr>, shift v (nat (sm_val t)))"
      using shift_loop_exact [where n = b and fuel = "length v * 8 + 1", OF assms(1,3) _ _ shift] b(2) assms(6) by auto
    then show ?thesis
      using False b assms(1,4,6,7,8) len
      by (intro exI [of _ p])
        (auto simp: op_shift_def eval_simps nth_append butlast_append simp del: shift_loop.simps)
  qed
qed

end

text \<open>C13.  The shift opcodes, whose loop shifts by at most \<open>INT32_MAX\<close> bits at a time, come to an end
  and leave the big-endian number divided by, or multiplied modulo its size with, two to the
  count, for every count that is accepted as a number and not negative.\<close>

theorem shift_opcodes:
  assumes "openssl_bn_total (bignum E) bnval" "maxScriptNumLength E + 4 < 2 ^ 31" "IsCanceled E = (\<lambda>_. False)"
    and "heap s = two_stacks m g (xs @ [v, t]) ys" "readable E t" "0 \<le> sm_val t"
    and "g + cost (xs @ [v, t]) + cost ys \<le> m" "length v < 2 ^ 59"
  shows "(\<exists>p w. op_shift E RShift s = Inr (s\<lparr>heap := two_stacks m g (xs @ [w]) ys, polls := p\<rparr>) \<and>
      length w = length v \<and> be_nat w = be_nat v div 2 ^ nat (sm_val t)) \<and>
    (\<exists>p w. op_shift E LShift s = Inr (s\<lparr>heap := two_stacks m g (xs @ [w]) ys, polls := p\<rparr>) \<and>
      length w = length v \<and> be_nat w = be_nat v * 2 ^ nat (sm_val t) mod 256 ^ length v)"
proof -
  note ex = openssl_bn_total.op_shift_exact [OF assms(1) refl assms(2-8)]
  obtain p q where
    "op_shift E RShift s = Inr (s\<lparr>heap := two_stacks m g (xs @ [RShift v (nat (sm_val t))]) ys, polls := p\<rparr>)"
    "op_shift E LShift s = Inr (s\<lparr>heap := two_stacks m g (xs @ [LShift v (nat (sm_val t))]) ys, polls := q\<rparr>)"
    using ex [OF RShift_RShift RShift_all] ex [OF LShift_LShift LShift_all] by auto
  then show ?thesis using RShift_be_nat LShift_be_nat length_shifts by blast
qed

theorem shift_opcodes_witness:
  "\<exists>p w. op_shift (example_env 0 (\<lambda>_ _ _. False)) RShift (example_state (two_stacks 1000 0 [[0x12, 0x34], [4]] [])) =
     Inr ((example_state (two_stacks 1000 0 [w] []))\<lparr>polls := p\<rparr>) \<and> be_nat w = 0x123"
proof -
  have "sm_val [4] = 4" "be_nat [0x12, 0x34] = 0x1234"
    by (simp_all add: sm_val_def sm_neg_def sm_mag_def be_nat_def)
  then show ?thesis
    using shift_opcodes [OF example_total [of 0 "\<lambda>_ _ _. False"], where s = "example_state (two_stacks 1000 0 [[0x12, 0x34], [4]] [])"
        and xs = "[]" and v = "[0x12, 0x34]" and t = "[4]" and m = 1000 and g = 0 and ys = "[]"]
    by (auto simp: example_readable)
qed

subsection \<open>Byte strings\<close>

lemma op_cat_exact:
  "heap s = two_stacks m g (xs @ [a, b]) ys \<Longrightarrow> g + cost (xs @ [a, b]) + cost ys \<le> m \<Longrightarrow>
   op_cat s = Inr (s\<lparr>heap := two_stacks m g (xs @ [a @ b]) ys\<rparr>)"
  by (simp add: op_cat_def eval_simps stack_simps nth_append list_update_append butlast_append)

context openssl_bn_total
begin

lemma op_split_exact:
  assumes "bignum E = B" "maxScriptNumLength E + 4 < 2 ^ 31" "sm_val t \<le> INT_MAX"
    and "heap s = two_stacks m g (xs @ [v, t]) ys" "readable E t" "0 \<le> sm_val t" "sm_val t \<le> int (length v)"
    and "g + cost (xs @ [v, t]) + cost ys \<le> m" "length v < 2 ^ 63"
  shows "op_split E s = Inr (s\<lparr>heap := two_stacks m g
    (xs @ [take (nat (sm_val t)) v, drop (nat (sm_val t)) v]) ys\<rparr>)"
proof -
  obtain b where b: "read_num E s t = Inr (NumBig b)" "bnval b = sm_val t"
    using read_num_ex [OF assms(1,2), of t s] assms(5) by blast
  then show ?thesis
    using assms
    by (auto simp: op_split_def eval_simps nth_append butlast_append num_to_size_t_limited_total)
qed

end

text \<open>At a position above \<open>INT32_MAX\<close> inside the element, \<open>OP_SPLIT\<close> runs into the assertion of
  \<open>to_size_t_limited\<close>; the interpreter's own range check lets it through.\<close>

lemma op_split_aborts:
  assumes "openssl_bn_total (bignum E) bnval" "maxScriptNumLength E + 4 < 2 ^ 31"
    and "heap s = two_stacks m g (xs @ [v, t]) ys" "readable E t" "INT_MAX < sm_val t"
    and "sm_val t \<le> int (length v)" "length v < 2 ^ 63"
  shows "op_split E s = Inl (ExitThrow s assert_failure)"
proof -
  note total = openssl_bn_total.num_lt_i64_total [OF assms(1)] openssl_bn_total.num_cmp_total(2) [OF assms(1)]
    openssl_bn_total.num_to_size_t_limited_total [OF assms(1)]
  obtain b where "read_num E s t = Inr (NumBig b)" "bnval b = sm_val t"
    using openssl_bn_total.read_num_ex [OF assms(1) refl assms(2), of t s] assms(4) by blast
  then show ?thesis
    using assms(3,5-7) by (auto simp: op_split_def eval_simps nth_append total)
qed

text \<open>\<open>OP_NUM2BIN\<close> on the two lists: the minimal encoding is padded with zeros before a byte that
  carries the sign.\<close>

definition padded :: "byte list \<Rightarrow> nat \<Rightarrow> byte list" where
  "padded e n =
     (if length e = n then e
      else if e = [] then replicate (n - 1) 0 @ [0]
      else butlast e @ [last e AND 0x7f] @ replicate (n - length e - 1) 0 @ [last e AND 0x80])"

lemma padded_value:
  assumes "length e \<le> n"
  shows "length (padded e n) = n \<and> sm_val (padded e n) = sm_val e"
proof (cases "length e = n")
  case False
  show ?thesis
  proof (cases e rule: rev_cases)
    case Nil
    then show ?thesis using False assms by (simp add: padded_def sm_val_def sm_mag_def sm_neg_def)
  next
    case (snoc es b)
    obtain z where "padded e n = z @ [b AND 0x80]" "length z + 1 = n"
      "le_nat z = le_nat es + 256 ^ length es * (unat b mod 128)"
    proof
      let ?z = "es @ [b AND 0x7f] @ replicate (n - length e - 1) 0"
      show "padded e n = ?z @ [b AND 0x80]" using snoc False by (simp add: padded_def)
      show "length ?z + 1 = n" using snoc False assms by simp
      show "le_nat ?z = le_nat es + 256 ^ length es * (unat b mod 128)" by (simp add: byte_and_7f)
    qed
    then show ?thesis
      using byte_and_80 [of b] by (auto simp: snoc sm_val_def sm_mag_snoc sm_neg_snoc)
  qed
qed (simp add: padded_def)

lemma op_bin2num_exact:
  assumes "heap s = two_stacks m g (xs @ [v]) ys" "g + cost (xs @ [v]) + cost ys \<le> m"
  shows "op_bin2num E s =
    (let e = sm_bytes (sm_val v); s' = s\<lparr>heap := two_stacks m g (xs @ [e]) ys\<rparr>
     in if length e \<le> maxScriptNumLength E then Inr s' else fail s' SCRIPT_ERR_INVALID_NUMBER_RANGE)"
  using assms
  by (simp add: op_bin2num_def eval_simps stack_simps nth_append list_update_append IsMinimallyEncoded_iff Let_def)

context openssl_bn_total
begin

lemma op_num2bin_exact:
  assumes "bignum E = B" "maxScriptNumLength E + 4 < 2 ^ 31"
    and "heap s = two_stacks m g (xs @ [v, t]) ys" "readable E t" "0 \<le> sm_val t" "sm_val t \<le> INT_MAX"
    and "g + cost (xs @ [v, t]) + cost ys \<le> m" "length (sm_bytes (sm_val v)) \<le> nat (sm_val t)"
  shows "yields s m g (xs @ [padded (sm_bytes (sm_val v)) (nat (sm_val t))]) ys (op_num2bin E s)"
proof -
  obtain b where b: "read_num E s t = Inr (NumBig b)" "bnval b = sm_val t"
    using read_num_ex [OF assms(1,2), of t s] assms(4) by blast
  let ?e = "sm_bytes (sm_val v)"
  have "length ?e \<le> length v" by (rule length_sm_bytes_sm_val)
  then show ?thesis
    using b assms
    by (cases ?e rule: rev_cases)
      (auto simp: op_num2bin_def eval_simps stack_simps nth_append butlast_append list_update_append
        num_to_size_t_limited_total Let_def yields_def padded_def)
qed

end

text \<open>C14.  \<open>OP_CAT\<close> followed by \<open>OP_SPLIT\<close> at the length of the first part gives the two parts back, under any
  memory limit, if the first part is shorter than \<open>2 ^ 31\<close> bytes (at \<open>2 ^ 31\<close> the assertion of
  \<open>to_size_t_limited\<close> fails), the two together than \<open>2 ^ 63\<close>, and that length is accepted as a number;
  OpenSSL does not run out of memory and the number length limit is below \<open>2 ^ 31 - 4\<close>.\<close>

theorem cat_split_roundtrip:
  assumes "openssl_bn_total (bignum E) bnval" "maxScriptNumLength E + 4 < 2 ^ 31" "length a < 2 ^ 31"
    and "heap s = two_stacks m g (xs @ [a, b]) ys" "g + cost (xs @ [a, b]) + cost ys \<le> m"
    and "readable E t" "sm_val t = int (length a)" "g + cost (xs @ [a @ b, t]) + cost ys \<le> m"
    and "length (a @ b) < 2 ^ 63"
  shows "bindE (op_cat s) (\<lambda>s. bindE (push s t) (op_split E)) = Inr s"
proof -
  let ?s = "s\<lparr>heap := two_stacks m g (xs @ [a @ b, t]) ys\<rparr>"
  have "op_cat s = Inr (s\<lparr>heap := two_stacks m g (xs @ [a @ b]) ys\<rparr>)"
    by (rule op_cat_exact [OF assms(4,5)])
  moreover have "op_split E ?s = Inr (?s\<lparr>heap := two_stacks m g (xs @ [a, b]) ys\<rparr>)"
    using openssl_bn_total.op_split_exact [OF assms(1) refl assms(2), of t ?s m g xs "a @ b" ys] assms(3,6-9)
    by simp
  moreover have "?s\<lparr>heap := two_stacks m g (xs @ [a, b]) ys\<rparr> = s" using assms(4) by simp
  ultimately show ?thesis using assms(8) by (simp add: eval_simps)
qed

theorem cat_split_roundtrip_witness:
  "bindE (op_cat (example_state (two_stacks 1000 0 [[1, 2], [3]] [])))
     (\<lambda>s. bindE (push s [2]) (op_split (example_env 0 (\<lambda>_ _ _. False)))) =
   Inr (example_state (two_stacks 1000 0 [[1, 2], [3]] []))"
  by (rule cat_split_roundtrip [OF example_total, where m = 1000 and g = 0 and xs = "[]" and a = "[1, 2]"
        and b = "[3]" and ys = "[]"])
    (simp_all add: example_readable sm_val_def sm_neg_def sm_mag_def)

text \<open>C15.  \<open>OP_NUM2BIN\<close> to any size the number fits into keeps its value, and \<open>OP_BIN2NUM\<close> then
  recovers the minimal encoding of the number.\<close>

theorem num2bin_bin2num_roundtrip:
  assumes "openssl_bn_total (bignum E) bnval" "maxScriptNumLength E + 4 < 2 ^ 31"
    and "heap s = two_stacks m g (xs @ [v, t]) ys" "readable E t" "sm_val t = int n" "int n \<le> INT_MAX"
    and "g + cost (xs @ [v, t]) + cost ys \<le> m" "length (sm_bytes (sm_val v)) \<le> n"
    and "g + cost xs + (n + 32) + cost ys \<le> m" "length (sm_bytes (sm_val v)) \<le> maxScriptNumLength E"
  shows "\<exists>w. length w = n \<and> sm_val w = sm_val v \<and>
    op_num2bin E s = Inr (s\<lparr>heap := two_stacks m g (xs @ [w]) ys\<rparr>) \<and>
    op_bin2num E (s\<lparr>heap := two_stacks m g (xs @ [w]) ys\<rparr>) =
      Inr (s\<lparr>heap := two_stacks m g (xs @ [sm_bytes (sm_val v)]) ys\<rparr>)"
proof -
  let ?w = "padded (sm_bytes (sm_val v)) n"
  have w: "length ?w = n" "sm_val ?w = sm_val v" using padded_value [OF assms(8)] by simp_all
  have "op_num2bin E s = Inr (s\<lparr>heap := two_stacks m g (xs @ [?w]) ys\<rparr>)"
    using openssl_bn_total.op_num2bin_exact [OF assms(1) refl assms(2-4)] assms(5-9) w(1)
    by (simp add: yields_def)
  then show ?thesis using w assms(9,10) by (auto simp: op_bin2num_exact)
qed

theorem num2bin_bin2num_roundtrip_witness:
  "\<exists>w. length w = 4 \<and> sm_val w = - 5 \<and>
    op_num2bin (example_env 0 (\<lambda>_ _ _. False)) (example_state (two_stacks 1000 0 [[0x85], [4]] [])) =
      Inr (example_state (two_stacks 1000 0 [w] []))"
proof -
  have v: "sm_val [0x85] = - 5" "sm_bytes (- 5) = [0x85]" "sm_val [4] = 4" by code_simp+
  show ?thesis
    using num2bin_bin2num_roundtrip [OF example_total [of 0 "\<lambda>_ _ _. False"],
        where s = "example_state (two_stacks 1000 0 [[0x85], [4]] [])" and xs = "[]" and v = "[0x85]"
          and t = "[4]" and m = 1000 and g = 0 and ys = "[]" and n = 4]
    by (auto simp: example_readable v)
qed

subsection \<open>Multi-signature checks\<close>

text \<open>The loop on lists taken from the top of the stack.\<close>

fun greedy :: "(valtype \<Rightarrow> valtype \<Rightarrow> bool) \<Rightarrow> valtype list \<Rightarrow> valtype list \<Rightarrow> bool" where
  "greedy chk [] K = True"
| "greedy chk S [] = False"
| "greedy chk (s # S) (k # K) =
     (let left = (if chk s k then S else s # S)
      in length left \<le> length K \<and> greedy chk left K)"

definition assignable :: "(valtype \<Rightarrow> valtype \<Rightarrow> bool) \<Rightarrow> valtype list \<Rightarrow> valtype list \<Rightarrow> bool" where
  "assignable chk S K \<longleftrightarrow> (\<exists>K'. subseq K' K \<and> list_all2 chk S K')"

lemma assignable_length: "assignable chk S K \<Longrightarrow> length S \<le> length K"
  unfolding assignable_def using list_all2_lengthD list_emb_length by fastforce

lemma assignable_Cons:
  "assignable chk (s # S) (k # K) \<longleftrightarrow> (if chk s k then assignable chk S K else assignable chk (s # S) K)"
proof (cases "chk s k")
  case True
  have "assignable chk S K" if K': "subseq K' (k # K)" "list_all2 chk (s # S) K'" for K'
  proof -
    obtain x L where L: "K' = x # L" "list_all2 chk S L" using K'(2) by (cases K') auto
    then have "subseq L K" using K'(1) by (auto split: if_splits dest: subseq_Cons')
    then show ?thesis using L(2) by (auto simp: assignable_def)
  qed
  moreover have "assignable chk (s # S) (k # K)" if "subseq L K" "list_all2 chk S L" for L
    using that True unfolding assignable_def by (intro exI [of _ "k # L"]) auto
  ultimately show ?thesis using True by (auto simp: assignable_def)
next
  case False
  then have "subseq K' (k # K) \<and> list_all2 chk (s # S) K' \<longleftrightarrow> subseq K' K \<and> list_all2 chk (s # S) K'" for K'
    by (cases K') (auto split: if_splits)
  then show ?thesis using False by (simp add: assignable_def)
qed

lemma greedy_assignable: "greedy chk S K \<longleftrightarrow> assignable chk S K"
proof (induction chk S K rule: greedy.induct)
  case (1 chk K)
  then show ?case by (auto simp: assignable_def)
next
  case (2 chk s S)
  then show ?case using assignable_length [of chk "s # S" "[]"] by auto
next
  case (3 chk s S k K)
  then show ?case
    using assignable_length [of chk S K] assignable_length [of chk "s # S" K]
    by (auto simp: assignable_Cons Let_def)
qed

lemma subseq_rev: "subseq xs ys \<Longrightarrow> subseq (rev xs) (rev ys)"
proof (induction rule: list_emb.induct)
  case (list_emb_Cons xs ys y)
  then show ?case by (simp add: subseq_rev_drop_many)
next
  case (list_emb_Cons2 x y xs ys)
  then show ?case by (simp add: list_emb_append_mono)
qed simp

lemma assignable_rev: "assignable chk (rev S) (rev K) \<longleftrightarrow> assignable chk S K"
proof -
  have "assignable chk (rev S) (rev K)" if "assignable chk S K" for S K
    using that unfolding assignable_def by (metis list_all2_rev subseq_rev)
  from this [of S K] this [of "rev S" "rev K"] show ?thesis by auto
qed

definition from_top :: "valtype list \<Rightarrow> nat \<Rightarrow> nat \<Rightarrow> valtype list" where
  "from_top xs i n = take n (drop (i - 1) (rev xs))"

lemma from_top_Cons:
  assumes "0 < i" "i + n \<le> length xs"
  shows "from_top xs i (Suc n) = xs ! (length xs - i) # from_top xs (Suc i) n"
proof -
  obtain j where "i = Suc j" using assms(1) by (cases i) auto
  then have "drop (i - 1) (rev xs) = rev xs ! (i - 1) # drop i (rev xs)"
    using assms by (simp add: Cons_nth_drop_Suc)
  moreover have "rev xs ! (i - 1) = xs ! (length xs - i)" using assms by (simp add: rev_nth)
  ultimately show ?thesis by (simp add: from_top_def)
qed

lemma length_from_top: "0 < i \<Longrightarrow> i + n \<le> Suc (length xs) \<Longrightarrow> length (from_top xs i n) = n"
  by (simp add: from_top_def)

lemma multisig_loop_exact:
  assumes "heap s = two_stacks m g xs ys" "length xs < 2 ^ 31" "IsCanceled E = (\<lambda>_. False)"
    and "\<And>a b. a \<in> set (from_top xs isig nSigs) \<Longrightarrow> b \<in> set (from_top xs ikey nKeys) \<Longrightarrow>
      check_encodings E a b = Inr ()"
    and "0 < isig" "isig + nSigs \<le> Suc (length xs)" "0 < ikey" "ikey + nKeys \<le> Suc (length xs)"
  shows "\<exists>p. multisig_loop E code isig ikey nSigs nKeys s =
    Inr (s\<lparr>polls := p\<rparr>, greedy (\<lambda>a b. CheckSig E a b code) (from_top xs isig nSigs) (from_top xs ikey nKeys))"
  using assms(1,4-8)
proof (induction nKeys arbitrary: isig ikey nSigs s)
  case 0
  show ?case
  proof (cases nSigs)
    case (Suc n)
    then obtain a S where "from_top xs isig nSigs = a # S"
      using "0.prems" length_from_top [of isig nSigs xs] by (cases "from_top xs isig nSigs") auto
    then show ?thesis
      using Suc by (intro exI [of _ "polls s"]) (simp add: from_top_def)
  qed (auto intro: exI [of _ "polls s"] simp: from_top_def)
next
  case (Suc k)
  show ?case
  proof (cases nSigs)
    case (Suc n)
    let ?s = "s\<lparr>polls := Suc (polls s)\<rparr>" and ?c = "\<lambda>a b. CheckSig E a b code"
    let ?a = "xs ! (length xs - isig)" and ?b = "xs ! (length xs - ikey)"
    have ix: "int_of_index (- int isig) = - int isig" "int_of_index (- int ikey) = - int ikey"
      using Suc.prems Suc assms(2) by (auto intro!: int_of_index_small)
    have p: "poll E s = Inr ?s" using assms(3) by (simp add: poll_def)
    have tops: "from_top xs isig nSigs = ?a # from_top xs (Suc isig) n"
        "from_top xs ikey (Suc k) = ?b # from_top xs (Suc ikey) k"
      using Suc.prems Suc by (auto intro!: from_top_Cons)
    have enc: "check_encodings E ?a ?b = Inr ()" using Suc.prems(2) by (simp add: tops)
    have lens: "length (from_top xs (Suc isig) n) = n" "length (from_top xs (Suc ikey) k) = k"
      using Suc.prems Suc by (auto intro!: length_from_top)
    have e: "check_encodings E a b = Inr ()"
      if "a \<in> set (from_top xs (Suc isig) n) \<or> a \<in> set (from_top xs isig nSigs)"
        "b \<in> set (from_top xs (Suc ikey) k)" for a b
      using that Suc.prems(2) [of a b] by (auto simp: tops)
    obtain q where q: "multisig_loop E code (Suc isig) (Suc ikey) n k ?s =
        Inr (?s\<lparr>polls := q\<rparr>, greedy ?c (from_top xs (Suc isig) n) (from_top xs (Suc ikey) k))"
      using Suc.IH [of ?s "Suc isig" n "Suc ikey"] Suc.prems(1,3-6) Suc e by auto
    obtain r where r: "multisig_loop E code isig (Suc ikey) nSigs k ?s =
        Inr (?s\<lparr>polls := r\<rparr>, greedy ?c (from_top xs isig nSigs) (from_top xs (Suc ikey) k))"
      using Suc.IH [of ?s isig nSigs "Suc ikey"] Suc.prems(1,3-6) e by auto
    have step: "multisig_loop E code isig ikey nSigs (Suc k) s =
        (if ?c ?a ?b then (if n > k then Inr (?s, False) else multisig_loop E code (Suc isig) (Suc ikey) n k ?s)
         else (if nSigs > k then Inr (?s, False) else multisig_loop E code isig (Suc ikey) nSigs k ?s))"
      using Suc.prems by (simp add: Suc eval_simps ix p enc Let_def)
    have "\<exists>p. ?s\<lparr>polls := r\<rparr> = s\<lparr>polls := p\<rparr>" "\<exists>p. ?s = s\<lparr>polls := p\<rparr>" for r by auto
    then show ?thesis
      unfolding step q r unfolding tops(2)
      by (cases "?c ?a ?b") (auto simp: tops(1) [unfolded Suc] lens Let_def Suc)
  qed (auto intro: exI [of _ "polls s"] simp: from_top_def)
qed

text \<open>The removal of the arguments: with \<open>SCRIPT_VERIFY_NULLFAIL\<close>, after a failed check, the elements
  below the first \<open>ikey2\<close> must be empty.\<close>

definition nullfail :: "'b eval_env \<Rightarrow> bool \<Rightarrow> valtype list \<Rightarrow> bool" where
  "nullfail E fSuccess sigs \<longleftrightarrow>
     \<not> fSuccess \<and> has_flag (verify_flags E) SCRIPT_VERIFY_NULLFAIL \<and> (\<exists>v \<in> set sigs. v \<noteq> [])"

lemma multisig_cleanup_exact:
  assumes "heap s = two_stacks m g (zs @ sigs @ rest) ys"
  shows "if nullfail E fSuccess sigs
    then \<exists>s'. multisig_cleanup E fSuccess (length rest + length sigs) (length rest) s =
      fail s' SCRIPT_ERR_SIG_NULLFAIL
    else multisig_cleanup E fSuccess (length rest + length sigs) (length rest) s =
      Inr (s\<lparr>heap := two_stacks m g zs ys\<rparr>)"
  using assms
proof (induction rest arbitrary: s rule: rev_induct)
  case Nil
  then show ?case
  proof (induction sigs arbitrary: s rule: rev_induct)
    case (snoc v sigs)
    let ?s = "s\<lparr>heap := two_stacks m g (zs @ sigs) ys\<rparr>"
    have h: "heap s = two_stacks m g ((zs @ sigs) @ [v]) ys" using snoc.prems by simp
    have "heap ?s = two_stacks m g (zs @ sigs @ []) ys" by simp
    from snoc.IH [OF this] show ?case
      using h by (auto simp: nullfail_def eval_simps fail_def simp flip: append_assoc split: if_splits)
  qed (simp add: nullfail_def)
next
  case (snoc v rest)
  let ?s = "s\<lparr>heap := two_stacks m g (zs @ sigs @ rest) ys\<rparr>"
  have h: "heap s = two_stacks m g ((zs @ sigs @ rest) @ [v]) ys" using snoc.prems by simp
  have "heap ?s = two_stacks m g (zs @ sigs @ rest) ys" by simp
  from snoc.IH [OF this] show ?case
    using h by (simp add: eval_simps butlast_append split: if_splits)
qed

definition counts :: "'b eval_env \<Rightarrow> valtype \<Rightarrow> nat \<Rightarrow> bool" where
  "counts E v n \<longleftrightarrow> length v \<le> 4 \<and> (fRequireMinimal E \<longrightarrow> IsMinimallyEncoded v 4) \<and> sm_val v = int n"

lemma read_count_exact:
  assumes "heap s = two_stacks m g xs ys" "0 < i" "i \<le> length xs" "length xs < 2 ^ 31"
    and "counts E (xs ! (length xs - i)) n"
  shows "read_count E s i = Inr (int n)"
proof -
  let ?v = "xs ! (length xs - i)"
  have "int_of_index (- int i) = - int i" using assms(3,4) by (intro int_of_index_small) auto
  moreover have "num_of_bytes (bignum E) ?v (fRequireMinimal E) 4 False = Inr (Num64 (word_of_int (int n)))"
    using assms(5) by (auto simp: counts_def num_of_bytes_def deserialize_i64_short)
  moreover have "int n \<le> 2147483647" using four_byte_range [of ?v] assms(5) by (auto simp: counts_def)
  moreover from this have "sint (word_of_nat n :: i64) = int n" using sint_word_of_int_i64 [of "int n"] by simp
  ultimately show ?thesis
    using assms(1-3) by (simp add: read_count_def eval_simps num_getint_def)
qed

lemma checkmultisig_matches:
  fixes xs dummy sigs ns keys nk
  defines "zs \<equiv> xs @ [dummy] @ sigs @ [ns] @ keys @ [nk]"
  assumes s: "heap s = two_stacks m g zs ys" "length zs < 2 ^ 31"
    and env: "IsCanceled E = (\<lambda>_. False)"
      "\<forall>a \<in> set sigs. \<forall>b \<in> set keys. check_encodings E a b = Inr ()"
    and cnt: "counts E nk (length keys)" "counts E ns (length sigs)" "length sigs \<le> length keys"
      "length keys \<le> GetMaxPubKeysPerMultiSig (config E) (consensus E)"
      "nOpCount s + length keys \<le> GetMaxOpsPerScript (config E) (consensus E)"
  shows "\<exists>p. op_checkmultisig E script opcode s =
    (let ok = assignable (\<lambda>a b. CheckSig E a b (drop (pbegincodehash s) script)) sigs keys;
         s' = s\<lparr>nOpCount := nOpCount s + length keys, polls := p\<rparr>
     in bindE (multisig_cleanup E ok (length keys + 2 + length sigs) (length keys + 2) s')
          (multisig_result E opcode ok))"
proof -
  let ?k = "length keys" and ?n = "length sigs"
  let ?code = "drop (pbegincodehash s) script" and ?s = "s\<lparr>nOpCount := nOpCount s + length keys\<rparr>"
  let ?ok = "assignable (\<lambda>a b. CheckSig E a b ?code) sigs keys"
  have l: "length zs = length xs + ?n + ?k + 3" by (simp add: zs_def)
  have h: "heap ?s = two_stacks m g zs ys" using s(1) by simp
  have "counts E (zs ! (length zs - 1)) ?k" "counts E (zs ! (length zs - (?k + 2))) ?n"
    using cnt l by (simp_all add: zs_def nth_append)
  then have c: "read_count E s 1 = Inr (int ?k)" "read_count E ?s (?k + 2) = Inr (int ?n)"
    using read_count_exact [OF s(1) _ _ s(2), of 1] read_count_exact [OF h _ _ s(2), of "?k + 2"] l by auto
  have tops: "from_top zs (?k + 3) ?n = rev sigs" "from_top zs 2 ?k = rev keys"
    by (simp_all add: from_top_def zs_def)
  obtain p where p: "multisig_loop E ?code (?k + 3) 2 ?n ?k ?s = Inr (?s\<lparr>polls := p\<rparr>, ?ok)"
    using multisig_loop_exact [OF h s(2) env(1), of "?k + 3" ?n 2 ?k ?code] env(2) l
    by (auto simp: tops greedy_assignable assignable_rev)
  have "op_checkmultisig E script opcode s =
      bindE (multisig_cleanup E ?ok (?k + 2 + ?n) (?k + 2) (?s\<lparr>polls := p\<rparr>)) (multisig_result E opcode ?ok)"
    using c cnt l s(1) h p unfolding op_checkmultisig_def multisig_finish_def Let_def
    by (simp add: eval_simps IsValidMaxOpsPerScript_def del: multisig_loop.simps multisig_cleanup.simps)
  then show ?thesis by (intro exI [of _ p]) (simp add: Let_def)
qed

lemma checkmultisig_exact:
  fixes xs dummy sigs ns keys nk script
  defines "zs \<equiv> xs @ [dummy] @ sigs @ [ns] @ keys @ [nk]"
  assumes s: "heap s = two_stacks m g zs ys" "length zs < 2 ^ 31"
    and env: "IsCanceled E = (\<lambda>_. False)"
      "\<forall>a \<in> set sigs. \<forall>b \<in> set keys. check_encodings E a b = Inr ()"
    and cnt: "counts E nk (length keys)" "counts E ns (length sigs)" "length sigs \<le> length keys"
      "length keys \<le> GetMaxPubKeysPerMultiSig (config E) (consensus E)"
      "nOpCount s + length keys \<le> GetMaxOpsPerScript (config E) (consensus E)"
    and lim: "g + cost zs + cost ys \<le> m"
      "has_flag (verify_flags E) SCRIPT_VERIFY_NULLDUMMY \<longrightarrow> dummy = []"
  defines "ok \<equiv> assignable (\<lambda>a b. CheckSig E a b (drop (pbegincodehash s) script)) sigs keys"
  shows "if nullfail E ok sigs
    then \<exists>s'. op_checkmultisig E script OP_CHECKMULTISIG s = fail s' SCRIPT_ERR_SIG_NULLFAIL
    else \<exists>p. op_checkmultisig E script OP_CHECKMULTISIG s = Inr (s\<lparr>heap := two_stacks m g
        (xs @ [if ok then vchTrue else vchFalse]) ys, nOpCount := nOpCount s + length keys, polls := p\<rparr>)"
proof -
  let ?rest = "[ns] @ keys @ [nk]"
  obtain p where p: "op_checkmultisig E script OP_CHECKMULTISIG s =
      bindE (multisig_cleanup E ok (length ?rest + length sigs) (length ?rest)
        (s\<lparr>nOpCount := nOpCount s + length keys, polls := p\<rparr>)) (multisig_result E OP_CHECKMULTISIG ok)"
    using checkmultisig_matches [OF s [unfolded zs_def] env cnt, of script OP_CHECKMULTISIG]
    by (auto simp: Let_def ok_def)
  let ?s = "s\<lparr>nOpCount := nOpCount s + length keys, polls := p\<rparr>"
  let ?t = "?s\<lparr>heap := two_stacks m g (xs @ [dummy]) ys\<rparr>"
  have h: "heap ?s = two_stacks m g ((xs @ [dummy]) @ sigs @ ?rest) ys" using s(1) by (simp add: zs_def)
  have "multisig_result E OP_CHECKMULTISIG ok ?t =
      Inr (?t\<lparr>heap := two_stacks m g (xs @ [if ok then vchTrue else vchFalse]) ys\<rparr>)"
    using lim by (auto simp: multisig_result_def eval_simps zs_def)
  note result = this
  have order: "?s\<lparr>heap := h\<rparr> = s\<lparr>heap := h, nOpCount := nOpCount s + length keys, polls := p\<rparr>" for h
    by (rule eval_state.equality) simp_all
  show ?thesis
  proof (cases "nullfail E ok sigs")
    case True
    then show ?thesis
      using multisig_cleanup_exact [OF h, of E ok] unfolding p by (auto simp: fail_def simp del: multisig_cleanup.simps)
  next
    case False
    then have "multisig_cleanup E ok (length ?rest + length sigs) (length ?rest) ?s = Inr ?t"
      using multisig_cleanup_exact [OF h, of E ok] by simp
    then have "op_checkmultisig E script OP_CHECKMULTISIG s =
        Inr (?s\<lparr>heap := two_stacks m g (xs @ [if ok then vchTrue else vchFalse]) ys\<rparr>)"
      unfolding p using result by simp
    then show ?thesis unfolding order using False by auto
  qed
qed

text \<open>C3.  On a dummy element, signatures, their count, keys and their count, \<open>OP_CHECKMULTISIG\<close> leaves
  true exactly when the signatures can be assigned, in order, to some of the keys so that
  each signature is good for its key: the single pass over the keys with early exit does not
  miss any assignment.  When they cannot and \<open>SCRIPT_VERIFY_NULLFAIL\<close> is set, as it is for blocks and relayed
  transactions, any non-empty signature makes the script fail with \<open>SCRIPT_ERR_SIG_NULLFAIL\<close>; all
  signatures empty, or the flag unset, leave false.  The signatures and keys pass the encoding checks, the
  dummy is empty where \<open>SCRIPT_VERIFY_NULLDUMMY\<close> is set, the counts are within the limits on keys and
  operations, the stacks are within any memory limit and fewer than \<open>2 ^ 31\<close> deep, and the
  check is not canceled.\<close>

theorem checkmultisig_complete:
  assumes "heap s = two_stacks m g (xs @ [dummy] @ sigs @ [ns] @ keys @ [nk]) ys"
    and "length (xs @ [dummy] @ sigs @ [ns] @ keys @ [nk]) < 2 ^ 31"
    and "IsCanceled E = (\<lambda>_. False)"
    and "\<forall>a \<in> set sigs. \<forall>b \<in> set keys. check_encodings E a b = Inr ()"
    and "counts E nk (length keys)" "counts E ns (length sigs)" "length sigs \<le> length keys"
    and "length keys \<le> GetMaxPubKeysPerMultiSig (config E) (consensus E)"
    and "nOpCount s + length keys \<le> GetMaxOpsPerScript (config E) (consensus E)"
    and "g + cost (xs @ [dummy] @ sigs @ [ns] @ keys @ [nk]) + cost ys \<le> m"
    and "has_flag (verify_flags E) SCRIPT_VERIFY_NULLDUMMY \<longrightarrow> dummy = []"
  shows "if \<exists>keys'. subseq keys' keys \<and>
      list_all2 (\<lambda>a b. CheckSig E a b (drop (pbegincodehash s) script)) sigs keys'
    then \<exists>p. op_checkmultisig E script OP_CHECKMULTISIG s = Inr (s\<lparr>heap := two_stacks m g (xs @ [vchTrue]) ys,
      nOpCount := nOpCount s + length keys, polls := p\<rparr>)
    else if has_flag (verify_flags E) SCRIPT_VERIFY_NULLFAIL \<and> (\<exists>a \<in> set sigs. a \<noteq> [])
    then \<exists>s'. op_checkmultisig E script OP_CHECKMULTISIG s = Inl (ExitFail s' SCRIPT_ERR_SIG_NULLFAIL)
    else \<exists>p. op_checkmultisig E script OP_CHECKMULTISIG s = Inr (s\<lparr>heap := two_stacks m g (xs @ [vchFalse]) ys,
      nOpCount := nOpCount s + length keys, polls := p\<rparr>)"
proof -
  define ok where "ok \<longleftrightarrow> assignable (\<lambda>a b. CheckSig E a b (drop (pbegincodehash s) script)) sigs keys"
  show ?thesis
    using checkmultisig_exact [OF assms, of script] unfolding assignable_def [symmetric] ok_def [symmetric]
    by (cases ok) (auto simp: nullfail_def fail_def split: if_splits)
qed

lemma example_encodings:
  "f \<in> {0, SCRIPT_VERIFY_NULLFAIL} \<Longrightarrow> check_encodings (example_env f c) a b = Inr ()"
  by (auto simp: check_encodings_def CheckSignatureEncoding_def CheckPubKeyEncoding_def has_flag_def)

theorem checkmultisig_complete_witness:
  "(\<exists>s'. op_checkmultisig (example_env 0 (\<lambda>a b _. a = b)) [0xae] OP_CHECKMULTISIG
     (example_state (two_stacks 1000 0 [[], [8], [1], [7], [8], [2]] [])) = Inr s' \<and>
     heap s' = two_stacks 1000 0 [[1]] []) \<and>
   (\<exists>s'. op_checkmultisig (example_env SCRIPT_VERIFY_NULLFAIL (\<lambda>a b _. a = b)) [0xae] OP_CHECKMULTISIG
     (example_state (two_stacks 1000 0 [[], [9], [1], [7], [8], [2]] [])) =
     Inl (ExitFail s' SCRIPT_ERR_SIG_NULLFAIL))"
proof -
  let ?E = "\<lambda>f. example_env f (\<lambda>a b _. a = b)"
  let ?s = "\<lambda>v. example_state (two_stacks 1000 0 [[], [v], [1], [7], [8], [2]] [])"
  have 1: "\<exists>K'. subseq K' [[7], [8 :: byte]] \<and> list_all2 (=) [[8]] K'"
    by (rule exI [of _ "[[8]]"]) simp
  have 2: "\<not> (\<exists>K'. subseq K' [[7], [8 :: byte]] \<and> list_all2 (=) [[9]] K')"
    by (auto simp: list_all2_Cons1)
  have cnt: "counts (?E f) [2] (Suc (Suc 0))" "counts (?E f) [1] (Suc 0)" if "f \<in> {0, SCRIPT_VERIFY_NULLFAIL}" for f
    using that by (auto simp: counts_def has_flag_def sm_val_def sm_neg_def sm_mag_def)
  note complete = checkmultisig_complete [where m = 1000 and g = 0 and ys = "[]" and script = "[0xae]"
      and xs = "[]" and dummy = "[]" and ns = "[1]" and keys = "[[7], [8]]" and nk = "[2]"]
  show ?thesis
    using complete [where s = "?s 8" and E = "?E 0" and sigs = "[[8]]"]
      complete [where s = "?s 9" and E = "?E SCRIPT_VERIFY_NULLFAIL" and sigs = "[[9]]"] 1 2 cnt
    by (auto simp: example_encodings has_flag_def example_state_def)
qed

subsection \<open>Pay to public key hash\<close>

lemma GetOp2_direct:
  assumes "length d < OP_PUSHDATA1" "length (pre @ word_of_nat (length d) # d @ post) < 4294967296" "n = length pre"
  shows "GetOp2 (pre @ word_of_nat (length d) # d @ post) n = Some (Suc (n + length d), length d, d)"
proof -
  have "unat (word_of_nat (length d) :: byte) = length d" using assms(1) by (simp add: unat_of_nat)
  then show ?thesis
    using assms by (simp add: GetOp2_def immediate_def nth_append Let_def)
qed

lemma GetOp2_plain:
  "OP_PUSHDATA4 < unat b \<Longrightarrow> n = length pre \<Longrightarrow>
   GetOp2 (pre @ b # post) n = Some (Suc n, unat b, [])"
  by (simp add: GetOp2_def nth_append Let_def)

lemma eval_loop_step:
  assumes "GetOp2 script pc = Some (pc', opcode, v)" "IsCanceled E = (\<lambda>_. False)"
  shows "eval_loop E script pc s =
    bindE (exec_instruction E script pc' opcode v (s\<lparr>polls := Suc (polls s), ipc := pc'\<rparr>))
      (\<lambda>s. eval_loop E script pc' s)"
  using GetOp2_pc(3) [OF assms(1)] assms
  by (subst eval_loop.simps) (simp add: eval_step_def poll_def bindE_assoc)

lemma eval_loop_end: "length script \<le> pc \<Longrightarrow> eval_loop E script pc s = Inr s"
  by (subst eval_loop.simps) simp

text \<open>A state in which instructions are executed.\<close>

definition executing :: "eval_state \<Rightarrow> bool" where
  "executing s \<longleftrightarrow> vfExec s = [] \<and> \<not> nonTopLevelReturn s"

lemma executing_fields [simp]:
  "executing (s\<lparr>heap := h\<rparr>) = executing s" "executing (s\<lparr>polls := n\<rparr>) = executing s"
  "executing (s\<lparr>ipc := n\<rparr>) = executing s" "executing (s\<lparr>nOpCount := n\<rparr>) = executing s"
  by (simp_all add: executing_def)

lemma exec_push:
  "executing s \<Longrightarrow> opcode \<le> OP_PUSHDATA4 \<Longrightarrow> (fRequireMinimal E \<longrightarrow> CheckMinimalPush v opcode) \<Longrightarrow>
   exec_instruction E script pc opcode v s = push s v"
  by (auto simp: exec_instruction_def executing_def IsOpcodeDisabled_def)

lemma exec_op:
  "executing s \<Longrightarrow> OP_16 < opcode \<Longrightarrow> opcode \<notin> {OP_2MUL, OP_2DIV} \<Longrightarrow>
   Suc (nOpCount s) \<le> GetMaxOpsPerScript (config E) (consensus E) \<Longrightarrow>
   exec_instruction E script pc opcode v s =
     exec_opcode E script pc opcode True (s\<lparr>nOpCount := Suc (nOpCount s)\<rparr>)"
  by (auto simp: exec_instruction_def executing_def IsOpcodeDisabled_def IsValidMaxOpsPerScript_def)

lemma minimal_direct: "2 \<le> length v \<Longrightarrow> length v \<le> 75 \<Longrightarrow> CheckMinimalPush v (length v)"
  by (auto simp: CheckMinimalPush_def)

text \<open>Two pushes, as the unlocking script of a key hash output.\<close>

lemma two_push_ops:
  fixes a b :: valtype
  defines "script \<equiv> script_push (script_push [] a) b"
  assumes "length a \<le> 75" "length b \<le> 75"
  shows "GetOp2 script 0 = Some (Suc (length a), length a, a)"
    "GetOp2 script (Suc (length a)) = Some (Suc (Suc (length a + length b)), length b, b)"
    "length script = Suc (Suc (length a + length b))"
proof -
  have sc: "script = [] @ word_of_nat (length a) # a @ (word_of_nat (length b) # b @ [])"
    "script = (word_of_nat (length a) # a) @ word_of_nat (length b) # b @ []"
    using assms by (simp_all add: script_push_def)
  show "GetOp2 script 0 = Some (Suc (length a), length a, a)"
    using GetOp2_direct [of a "[]" "word_of_nat (length b) # b @ []" 0] assms(2,3) unfolding sc(1) by simp
  show "GetOp2 script (Suc (length a)) = Some (Suc (Suc (length a + length b)), length b, b)"
    using GetOp2_direct [of b "word_of_nat (length a) # a" "[]" "Suc (length a)"] assms(2,3)
    unfolding sc(2) by simp
  show "length script = Suc (Suc (length a + length b))" unfolding sc(1) by simp
qed

lemma two_pushes_push_only:
  "length a \<le> 75 \<Longrightarrow> length b \<le> 75 \<Longrightarrow> IsPushOnly (script_push (script_push [] a) b)"
  using IsPushOnly_from.simps [of "script_push (script_push [] a) b" 0]
    IsPushOnly_from.simps [of "script_push (script_push [] a) b" "Suc (length a)"]
    IsPushOnly_from.simps [of "script_push (script_push [] a) b" "Suc (Suc (length a + length b))"]
  by (simp add: IsPushOnly_def two_push_ops del: IsPushOnly_from.simps)

lemma eval_two_pushes:
  assumes "IsCanceled E = (\<lambda>_. False)" "2 \<le> length a" "length a \<le> 75" "2 \<le> length b" "length b \<le> 75"
    and "heap s = two_stacks m g [] ys" "executing s" "g + cost [a, b] + cost ys \<le> m"
  shows "\<exists>s'. eval_loop E (script_push (script_push [] a) b) 0 s = Inr s' \<and>
    heap s' = two_stacks m g [a, b] ys \<and> executing s'"
proof -
  note ops = two_push_ops [OF assms(3,5)]
  have "eval_loop E (script_push (script_push [] a) b) (Suc (Suc (length a + length b))) s = Inr s" for s
    by (simp add: eval_loop_end ops)
  then show ?thesis
    using assms(2-8)
    by (simp add: ops(1,2) [THEN eval_loop_step, OF assms(1)] exec_push minimal_direct eval_simps)
qed

definition p2pkh_script :: "valtype \<Rightarrow> CScript" where
  "p2pkh_script h = [0x76, 0xa9, 0x14] @ h @ [0x88, 0xac]"

lemma p2pkh_ops:
  assumes "length h = 20"
  shows "GetOp2 (p2pkh_script h) 0 = Some (Suc 0, OP_DUP, [])" "GetOp2 (p2pkh_script h) (Suc 0) = Some (2, OP_HASH160, [])"
    "GetOp2 (p2pkh_script h) 2 = Some (23, 20, h)" "GetOp2 (p2pkh_script h) 23 = Some (24, OP_EQUALVERIFY, [])"
    "GetOp2 (p2pkh_script h) 24 = Some (25, OP_CHECKSIG, [])"
    "length (p2pkh_script h) = 25"
  using assms
    GetOp2_plain [where b = "0x76" and n = 0 and pre = "[]" and post = "[0xa9, 0x14] @ h @ [0x88, 0xac]"]
    GetOp2_plain [where b = "0xa9" and n = 1 and pre = "[0x76]" and post = "[0x14] @ h @ [0x88, 0xac]"]
    GetOp2_direct [of h "[0x76, 0xa9]" "[0x88, 0xac]" 2]
    GetOp2_plain [where b = "0x88" and n = 23 and pre = "[0x76, 0xa9, 0x14] @ h" and post = "[0xac]"]
    GetOp2_plain [where b = "0xac" and n = 24 and pre = "[0x76, 0xa9, 0x14] @ h @ [0x88]" and post = "[]"]
  by (simp_all add: p2pkh_script_def)

text \<open>What the locking script makes of a signature and a key.\<close>

definition p2pkh_result :: "'b eval_env \<Rightarrow> valtype \<Rightarrow> valtype \<Rightarrow> valtype \<Rightarrow> ScriptError + bool" where
  "p2pkh_result E h sig key =
     (if Hash160 key \<noteq> h then Inl SCRIPT_ERR_EQUALVERIFY
      else bindE (check_encodings E sig key) (\<lambda>_.
        let ok = CheckSig E sig key (p2pkh_script h)
        in if \<not> ok \<and> has_flag (verify_flags E) SCRIPT_VERIFY_NULLFAIL \<and> sig \<noteq> []
           then Inl SCRIPT_ERR_SIG_NULLFAIL else Inr ok))"

lemma eval_p2pkh:
  assumes "IsCanceled E = (\<lambda>_. False)" "length h = 20" "4 \<le> GetMaxOpsPerScript (config E) (consensus E)"
    and s: "heap s = two_stacks m g [sig, key] ys" "executing s" "nOpCount s = 0" "pbegincodehash s = 0"
    and "g + cost [sig, key, key] + 104 + cost ys \<le> m"
  shows "(case p2pkh_result E h sig key of
      Inl e \<Rightarrow> \<exists>s'. eval_loop E (p2pkh_script h) 0 s = Inl (ExitFail s' e)
    | Inr ok \<Rightarrow> \<exists>s'. eval_loop E (p2pkh_script h) 0 s = Inr s' \<and> executing s' \<and>
        heap s' = two_stacks m g [if ok then vchTrue else vchFalse] ys)"
proof -
  note step = p2pkh_ops(1-5) [OF assms(2), THEN eval_loop_step, OF assms(1)]
  have fin: "eval_loop E (p2pkh_script h) 25 s = Inr s" for s
    by (simp add: eval_loop_end p2pkh_ops(6) [OF assms(2)])
  have hash: "opcode_hash OP_HASH160 v = Hash160 v" "length (Hash160 v) = 20" for v
    by (simp add: opcode_hash_def Hash160_def, simp add: Hash160_digest)
  have mh: "CheckMinimalPush h 20" using minimal_direct [of h] assms(2) by simp
  note ex = step fin exec_push exec_op exec_opcode_def op_dup_def op_hash_def hash eval_simps op_equal_def
    op_checksig_def p2pkh_result_def
  show ?thesis
  proof (cases "Hash160 key = h")
    case False
    then show ?thesis using assms(2,3,8) s mh by (simp add: ex fail_def)
  next
    case True
    then show ?thesis
      using assms(2,3,8) s mh
      by (cases "check_encodings E sig key"; cases "CheckSig E sig key (p2pkh_script h)";
          cases "has_flag (verify_flags E) SCRIPT_VERIFY_NULLFAIL \<and> sig \<noteq> []")
        (auto simp: ex fail_def)
  qed
qed

lemma EvalScript_true:
  assumes "eval_loop E script 0 \<lparr>heap = two_stacks m (g + cost ys) xs [], ipc = 0, pbegincodehash = 0,
      vfExec = [], vfElse = [], nOpCount = 0, nonTopLevelReturn = False, polls = n\<rparr> = Inr s" "executing s"
    and "length script \<le> GetMaxScriptSize (config E) (consensus E)"
  shows "EvalScript E (two_stacks m g xs ys) n script = (EvalTrue, s)"
  using assms by (simp add: EvalScript_def EvalScript_on_def stack_simps executing_def)

lemma VerifyScript_p2pkh:
  assumes "IsCanceled E = (\<lambda>_. False)" "length h = 20" "2 \<le> length sig" "length sig \<le> 75"
    and "2 \<le> length key" "length key \<le> 75"
    and "4 \<le> GetMaxOpsPerScript (config E) (consensus E)" "152 \<le> GetMaxScriptSize (config E) (consensus E)"
    and "500 \<le> GetMaxStackMemoryUsage (config E) (consensus E)"
  shows "VerifyScript E (script_push (script_push [] sig) key) (p2pkh_script h) =
    (case p2pkh_result E h sig key of
       Inl e \<Rightarrow> EvalFalse e | Inr ok \<Rightarrow> if ok then EvalTrue else EvalFalse SCRIPT_ERR_EVAL_FALSE)"
proof -
  let ?m = "GetMaxStackMemoryUsage (config E) (consensus E)"
  let ?unlock = "script_push (script_push [] sig) key"
  let ?start = "\<lambda>h n. \<lparr>heap = h, ipc = 0, pbegincodehash = 0, vfExec = [], vfElse = [], nOpCount = 0,
    nonTopLevelReturn = False, polls = n\<rparr>"
  have len: "length ?unlock = length sig + length key + 2" using assms by (simp add: script_push_def)
  have po: "IsPushOnly ?unlock" using assms by (simp add: two_pushes_push_only)
  have "heap (?start (two_stacks ?m 0 [] []) 0) = two_stacks ?m 0 [] []"
    "executing (?start (two_stacks ?m 0 [] []) 0)" "0 + cost [sig, key] + cost [] \<le> ?m"
    using assms by (simp_all add: executing_def)
  from eval_two_pushes [OF assms(1,3-6) this] obtain s where
    s: "eval_loop E ?unlock 0 (?start (two_stacks ?m 0 [] []) 0) = Inr s" "heap s = two_stacks ?m 0 [sig, key] []"
      "executing s" by blast
  have 1: "EvalScript E (two_stacks ?m 0 [] []) 0 ?unlock = (EvalTrue, s)"
    using s assms len by (intro EvalScript_true) simp_all
  let ?t = "?start (two_stacks ?m 0 [sig, key] []) (polls s)"
  have 2: "EvalScript E (heap s) (polls s) (p2pkh_script h) =
      (case eval_loop E (p2pkh_script h) 0 ?t of Inl x \<Rightarrow> leave x
       | Inr s \<Rightarrow> if vfExec s \<noteq> [] then (EvalFalse SCRIPT_ERR_UNBALANCED_CONDITIONAL, s) else (EvalTrue, s))"
    using assms(8) p2pkh_ops(6) [OF assms(2)] by (simp add: EvalScript_def EvalScript_on_def stack_simps s(2))
  have "heap ?t = two_stacks ?m 0 [sig, key] []" "executing ?t" "nOpCount ?t = 0" "pbegincodehash ?t = 0"
    "0 + cost [sig, key, key] + 104 + cost [] \<le> ?m" using assms by (simp_all add: executing_def)
  note res = eval_p2pkh [OF assms(1,2,7) this]
  show ?thesis
    unfolding VerifyScript_def new_stack 1 prod.case 2
    using res po
    by (cases "p2pkh_result E h sig key") (auto simp: executing_def eval_simps stack_simps CastToBool_vch vecs_def)
qed

text \<open>A pay-to-public-key-hash output is spent, with a pushed signature and key of usual sizes, exactly
  when the key has the hash of the output, signature and key are well formed under the flags, and
  the signature is good for the key and the locking script.\<close>

lemma p2pkh_spend:
  assumes "IsCanceled E = (\<lambda>_. False)" "length h = 20" "2 \<le> length sig" "length sig \<le> 75"
    and "2 \<le> length key" "length key \<le> 75"
    and "4 \<le> GetMaxOpsPerScript (config E) (consensus E)" "152 \<le> GetMaxScriptSize (config E) (consensus E)"
    and "500 \<le> GetMaxStackMemoryUsage (config E) (consensus E)"
  shows "VerifyScript E (script_push (script_push [] sig) key) (p2pkh_script h) = EvalTrue \<longleftrightarrow>
    rmd_digest (sha256_digest key) = h \<and> check_encodings E sig key = Inr () \<and>
    CheckSig E sig key (p2pkh_script h)"
  unfolding VerifyScript_p2pkh [OF assms] p2pkh_result_def Hash160_digest
  by (cases "check_encodings E sig key") (auto simp: Let_def split: if_splits)

end
