(* ===== verification/Interpreter_Limits.thy ===== *)
theory Interpreter_Limits
  imports Interpreter_Ops
begin

text \<open>
  The operation limit of \<open>EvalScript\<close>: every opcode above \<open>OP_16\<close> is counted, executed or not, and
  a script that runs to its end has no more of them than \<open>GetMaxOpsPerScript\<close>.
\<close>

subsection \<open>Opcodes and the operation counter\<close>

definition keeps :: "('a \<Rightarrow> eval_state) \<Rightarrow> nat \<Rightarrow> early_exit + 'a \<Rightarrow> bool" where
  "keeps get n r = (\<forall>a. r = Inr a \<longrightarrow> nOpCount (get a) = n)"

abbreviation keeps_count :: "nat \<Rightarrow> early_exit + eval_state \<Rightarrow> bool" where
  "keeps_count \<equiv> keeps id"

lemma keeps_chain:
  "keeps_count n r \<Longrightarrow> (\<And>s. nOpCount s = n \<Longrightarrow> keeps get n (f s)) \<Longrightarrow> keeps get n (bindE r f)"
  unfolding keeps_def bindE_eq_Inr id_def by blast

lemma keeps_pair:
  "keeps fst n r \<Longrightarrow> (\<And>s b. nOpCount s = n \<Longrightarrow> keeps get n (f (s, b))) \<Longrightarrow> keeps get n (bindE r f)"
  unfolding keeps_def bindE_eq_Inr by force

lemma keeps_skip: "(\<And>a. keeps get n (f a)) \<Longrightarrow> keeps get n (bindE r f)"
  by (cases r) (simp_all add: keeps_def)

lemma keeps_if: "(c \<Longrightarrow> keeps get n a) \<Longrightarrow> (\<not> c \<Longrightarrow> keeps get n b) \<Longrightarrow> keeps get n (if c then a else b)"
  by simp

lemma keeps_let: "keeps get n (f a) \<Longrightarrow> keeps get n (Let a f)"
  by simp

lemma keeps_case_prod: "keeps get n (f s b) \<Longrightarrow> keeps get n (case (s, b) of (s, b) \<Rightarrow> f s b)"
  by simp

lemma keeps_fail: "keeps get n (fail s e)"
  by (simp add: keeps_def fail_def)

lemma keeps_Inl: "keeps get n (Inl x)"
  by (simp add: keeps_def)

lemma keeps_Inr: "nOpCount (get a) = n \<Longrightarrow> keeps get n (Inr a)"
  by (simp add: keeps_def)

lemma keeps_on_heap: "nOpCount s = n \<Longrightarrow> keeps_count n (on_heap s f)"
  unfolding on_heap_def by (rule keeps_skip) (simp add: keeps_def)

lemma keeps_poll: "nOpCount s = n \<Longrightarrow> keeps_count n (poll E s)"
  by (simp add: keeps_def poll_def Let_def)

lemmas keeps_leaf = keeps_fail keeps_Inl keeps_Inr keeps_on_heap keeps_poll keeps_if keeps_let keeps_case_prod

lemmas heap_calls = push_def push_copy_def pop_def swap_at_def

lemma stack_op_count:
  assumes "nOpCount s = n"
  shows "keeps_count n (op_push_number E opcode s)" "keeps_count n (op_upgradable_nop E s)"
    "keeps_count n (op_if E opcode fExec s)" "keeps_count n (op_else s)" "keeps_count n (op_endif s)"
    "keeps_count n (op_verify s)" "keeps_count n (op_return s)" "keeps_count n (op_toaltstack s)"
    "keeps_count n (op_fromaltstack s)" "keeps_count n (op_2drop s)" "keeps_count n (op_2dup s)"
    "keeps_count n (op_3dup s)" "keeps_count n (op_2over s)" "keeps_count n (op_2rot s)"
    "keeps_count n (op_2swap s)" "keeps_count n (op_ifdup s)" "keeps_count n (op_depth E s)"
    "keeps_count n (op_drop s)" "keeps_count n (op_dup s)" "keeps_count n (op_nip s)" "keeps_count n (op_over s)"
    "keeps_count n (op_pick_roll E opcode s)" "keeps_count n (op_rot s)" "keeps_count n (op_swap s)"
    "keeps_count n (op_tuck s)" "keeps_count n (op_size E s)"
  unfolding op_push_number_def op_upgradable_nop_def op_if_def op_else_def op_endif_def op_verify_def
      op_return_def op_toaltstack_def op_fromaltstack_def op_2drop_def op_2dup_def op_3dup_def op_2over_def
      op_2rot_def op_2swap_def op_ifdup_def op_depth_def push_size_def op_drop_def op_dup_def op_nip_def
      op_over_def op_pick_roll_def pick_roll_def op_rot_def op_swap_def op_tuck_def op_size_def heap_calls
  by (rule keeps_leaf | rule keeps_chain | rule keeps_pair | rule keeps_skip | (simp add: assms; fail))+

lemma shift_loop_count: "nOpCount s = n \<Longrightarrow> keeps fst n (shift_loop E shift fuel s v k)"
proof (induction fuel arbitrary: s v k)
  case (Suc fuel)
  show ?case unfolding shift_loop.simps
    by (rule Suc.IH | rule keeps_leaf | rule keeps_chain | rule keeps_pair | rule keeps_skip
        | (simp add: Suc.prems; fail))+
qed (simp add: keeps_def)

lemma data_op_count:
  assumes "nOpCount s = n"
  shows "keeps_count n (op_bitwise opcode s)" "keeps_count n (op_invert s)" "keeps_count n (op_shift E shift s)"
    "keeps_count n (op_equal opcode s)" "keeps_count n (op_unary E opcode s)" "keeps_count n (op_binary E opcode s)"
    "keeps_count n (op_within E s)" "keeps_count n (op_hash opcode s)" "keeps_count n (op_checksig E script opcode s)"
    "keeps_count n (op_cat s)" "keeps_count n (op_split E s)" "keeps_count n (op_num2bin E s)"
    "keeps_count n (op_bin2num E s)"
  unfolding op_bitwise_def op_invert_def op_shift_def op_equal_def op_unary_def op_binary_def op_within_def
      op_hash_def op_checksig_def op_cat_def op_split_def op_num2bin_def op_bin2num_def heap_calls
  by (rule shift_loop_count | rule keeps_leaf | rule keeps_chain | rule keeps_pair | rule keeps_skip | (simp add: assms; fail))+

lemma multisig_loop_count: "nOpCount s = n \<Longrightarrow> keeps fst n (multisig_loop E code isig ikey k l s)"
proof (induction l arbitrary: isig ikey k s)
  case 0
  then show ?case by (cases k) (simp_all add: keeps_def)
next
  case (Suc l)
  then show ?case
  proof (cases k)
    case (Suc k')
    show ?thesis unfolding Suc multisig_loop.simps
      by (rule Suc.IH | rule keeps_leaf | rule keeps_chain | rule keeps_pair | rule keeps_skip
          | (simp add: Suc.prems; fail))+
  qed (simp add: keeps_def)
qed

lemma multisig_cleanup_count: "nOpCount s = n \<Longrightarrow> keeps_count n (multisig_cleanup E ok k i s)"
proof (induction k arbitrary: i s)
  case (Suc k)
  show ?case unfolding multisig_cleanup.simps heap_calls
    by (rule Suc.IH | rule keeps_leaf | rule keeps_chain | rule keeps_pair | rule keeps_skip | (simp add: Suc.prems; fail))+
qed (simp add: keeps_def)

lemma multisig_finish_count: "nOpCount s = n \<Longrightarrow> keeps_count n (multisig_finish E script opcode k l s)"
  unfolding multisig_finish_def multisig_result_def heap_calls
  by (rule multisig_loop_count multisig_cleanup_count | rule keeps_leaf | rule keeps_chain | rule keeps_pair | rule keeps_skip | (simp; fail))+

definition within :: "nat \<Rightarrow> nat \<Rightarrow> early_exit + eval_state \<Rightarrow> bool" where
  "within n L r = (\<forall>s'. r = Inr s' \<longrightarrow> n \<le> nOpCount s' \<and> nOpCount s' \<le> L)"

lemma within_keeps: "keeps_count k r \<Longrightarrow> n \<le> k \<Longrightarrow> k \<le> L \<Longrightarrow> within n L r"
  by (auto simp: keeps_def within_def)

lemma within_skip: "(\<And>a. within n L (f a)) \<Longrightarrow> within n L (bindE r f)"
  by (cases r) (simp_all add: within_def)

lemma within_if: "(c \<Longrightarrow> within n L a) \<Longrightarrow> (\<not> c \<Longrightarrow> within n L b) \<Longrightarrow> within n L (if c then a else b)"
  by simp

lemma within_let: "within n L (f a) \<Longrightarrow> within n L (Let a f)"
  by simp

lemma within_fail: "within n L (fail s e)"
  by (simp add: within_def fail_def)

abbreviation op_limit :: "'b eval_env \<Rightarrow> nat" where
  "op_limit E \<equiv> GetMaxOpsPerScript (config E) (consensus E)"

lemma op_checkmultisig_count: "within (nOpCount s) (op_limit E) (op_checkmultisig E script opcode s)"
  unfolding op_checkmultisig_def
  by (rule within_fail | rule within_if | rule within_let | rule within_skip
      | (rule within_keeps, rule multisig_finish_count [OF refl])
      | (simp add: IsValidMaxOpsPerScript_def; fail))+

lemma exec_opcode_count:
  assumes "nOpCount s \<le> op_limit E"
  shows "within (nOpCount s) (op_limit E) (exec_opcode E script pc opcode fExec s)"
  unfolding exec_opcode_def
  by (rule within_if | rule within_fail | rule op_checkmultisig_count
      | (rule within_keeps, rule stack_op_count [OF refl] data_op_count [OF refl] keeps_Inr [OF refl])
      | (simp add: assms; fail))+

lemma within_exec:
  assumes "n \<le> nOpCount t" "nOpCount t \<le> op_limit E"
  shows "within n (op_limit E)
    (if d then fail t SCRIPT_ERR_DISABLED_OPCODE
     else if p then (if q then fail t SCRIPT_ERR_MINIMALDATA else push t v)
     else if x then exec_opcode E script pc opcode fExec t else Inr t)"
proof -
  have "within n (op_limit E) (exec_opcode E script pc opcode fExec t)"
    using exec_opcode_count [OF assms(2), of script pc opcode fExec] assms(1) by (auto simp: within_def)
  moreover have "within n (op_limit E) (push t v)"
    unfolding push_def by (rule within_keeps [OF keeps_on_heap [OF refl] assms])
  moreover have "within n (op_limit E) (Inr t)" using assms by (simp add: within_def)
  ultimately show ?thesis by (simp add: within_fail)
qed

lemma exec_instruction_count:
  assumes "nOpCount s \<le> op_limit E"
  shows "within (nOpCount s + of_bool (opcode > OP_16)) (op_limit E) (exec_instruction E script pc opcode v s)"
proof (cases "opcode > OP_16")
  case True
  then show ?thesis
    unfolding exec_instruction_def Let_def
    by (simp add: within_fail within_exec IsValidMaxOpsPerScript_def del: if_split)
next
  case False
  then show ?thesis
    unfolding exec_instruction_def Let_def by (simp add: within_exec assms del: if_split)
qed

text \<open>C9. The operation limit holds of every script that runs to its end: each opcode above
  \<open>OP_16\<close> is counted once, whether its branch is executed or skipped, \<open>OP_CHECKMULTISIG\<close> can only add
  to the count, and the final count is within \<open>GetMaxOpsPerScript\<close>.  So the script has no more than that
  many such opcodes.\<close>

theorem script_operation_limit:
  assumes "eval_loop E script pc s = Inr s'" "nOpCount s \<le> GetMaxOpsPerScript (config E) (consensus E)"
  shows "nOpCount s + length (filter (\<lambda>(opcode, _). opcode > OP_16) (script_ops script pc)) \<le> nOpCount s' \<and>
    nOpCount s' \<le> GetMaxOpsPerScript (config E) (consensus E)"
  using assms
proof (induction script pc arbitrary: s rule: script_ops.induct)
  case (1 script pc)
  show ?case
  proof (cases "pc < length script")
    case True
    then obtain pc' t where t: "eval_step E script pc s = Inr (pc', t)" "eval_loop E script pc' t = Inr s'"
      using 1(2) by (auto simp: eval_loop.simps [of E script pc] bindE_eq_Inr)
    from t(1) obtain u where p: "poll E s = Inr u"
        and r: "(case GetOp2 script pc of None \<Rightarrow> fail u SCRIPT_ERR_BAD_OPCODE
          | Some (pc, opcode, v) \<Rightarrow> bindE (exec_instruction E script pc opcode v (u\<lparr>ipc := pc\<rparr>))
              (\<lambda>s. Inr (pc, s))) = Inr (pc', t)"
      unfolding eval_step_def bindE_eq_Inr by blast
    then obtain opcode v where u: "GetOp2 script pc = Some (pc', opcode, v)"
        "exec_instruction E script pc' opcode v (u\<lparr>ipc := pc'\<rparr>) = Inr t"
      by (cases "GetOp2 script pc") (auto simp: fail_def bindE_eq_Inr)
    from p keeps_poll [of s "nOpCount s" E] have n: "nOpCount u = nOpCount s" by (simp add: keeps_def)
    with exec_instruction_count [of "u\<lparr>ipc := pc'\<rparr>" E opcode script pc' v] u(2) 1(3)
    have "nOpCount s + of_bool (opcode > OP_16) \<le> nOpCount t" "nOpCount t \<le> op_limit E"
      by (simp_all add: within_def)
    with 1(1) [OF u(1) refl refl t(2)] u(1) show ?thesis
      by (auto simp: script_ops.simps [of script pc])
  next
    case False
    with 1(2,3) show ?thesis
      by (simp add: eval_loop.simps [of E script pc] script_ops.simps [of script pc] GetOp2_def)
  qed
qed

theorem script_operation_limit_witness:
  "\<exists>s'. eval_loop (example_env 0 (\<lambda>_ _ _. False)) [0x61, 0x61] 0 (example_state (two_stacks 1000 0 [] [])) = Inr s' \<and>
   length (filter (\<lambda>(opcode, _). opcode > OP_16) (script_ops [0x61, 0x61] 0)) \<le> nOpCount s' \<and> nOpCount s' \<le> 500"
proof -
  let ?E = "example_env 0 (\<lambda>_ _ _. False)" and ?s = "example_state (two_stacks 1000 0 [] [])"
  have g: "GetOp2 [0x61, 0x61] 0 = Some (1, 0x61, [])" "GetOp2 [0x61, 0x61] 1 = Some (2, 0x61, [])"
    by code_simp+
  have "\<exists>s'. eval_loop ?E [0x61, 0x61] 0 ?s = Inr s'"
    by (simp add: eval_loop_step [OF g(1)] eval_loop_step [OF g(2), simplified] eval_loop_end exec_op executing_def
        exec_opcode_def example_state_def)
  then obtain s' where s': "eval_loop ?E [0x61, 0x61] 0 ?s = Inr s'" ..
  then show ?thesis
    using script_operation_limit [OF s'] by (simp add: example_state_def)
qed

end
