(* ===== verification/Serialize.thy ===== *)
theory Serialize
  imports Crypto_Common
begin

text \<open>
  \<open>src/src/serialize.h\<close> and the byte stream of \<open>src/src/streams.h\<close>.  Writing to a stream
  yields the bytes written, or the exception; reading takes the unread bytes and yields a value with
  what is left of them, or the exception.  The templates over the element type of a
  container take the element's functions as arguments.  Container sizes (\<open>size_t\<close>) are natural
  numbers.  The locale \<open>codec\<close> is the contract of a pair of \<open>Serialize\<close> and
  \<open>Unserialize\<close>: reading what was written gives the value back, and only what
  was written can be read.
\<close>

declare bindE_cong [fundef_cong]

subsection \<open>Errors and byte input\<close>

datatype ser_error =
  EndOfData
| SizeTooLarge
| NonCanonical
| VarIntError
| LimitExceeded
| OutOfBounds \<comment> \<open>an access outside of the buffer\<close>

type_synonym 'a reader = "byte list \<Rightarrow> ser_error + 'a \<times> byte list"

definition MAX_SIZE :: nat where
  "MAX_SIZE = 2 ^ 32 - 1"

definition stream_read :: "nat \<Rightarrow> valtype reader" where
  "stream_read n s = (if length s < n then Inl EndOfData else Inr (take n s, drop n s))"

definition ser_readdata8 :: "byte reader" where
  "ser_readdata8 s = bindE (stream_read 1 s) (\<lambda>(b, s). Inr (hd b, s))"

definition ser_readdata16 :: "u16 reader" where
  "ser_readdata16 s = bindE (stream_read 2 s) (\<lambda>(b, s). Inr (ReadLE16 b, s))"

definition ser_readdata32 :: "u32 reader" where
  "ser_readdata32 s = bindE (stream_read 4 s) (\<lambda>(b, s). Inr (ReadLE32 b, s))"

definition ser_readdata64 :: "u64 reader" where
  "ser_readdata64 s = bindE (stream_read 8 s) (\<lambda>(b, s). Inr (ReadLE64 b, s))"

subsection \<open>Compact sizes\<close>

definition GetSizeOfCompactSize :: "nat \<Rightarrow> nat" where
  "GetSizeOfCompactSize nSize =
     (if nSize < 253 then 1 else if nSize \<le> 0xffff then 3 else if nSize \<le> 0xffffffff then 5 else 9)"

definition WriteCompactSize :: "nat \<Rightarrow> ser_error + byte list" where
  "WriteCompactSize nSize =
     (if nSize > MAX_SIZE then Inl SizeTooLarge
      else if nSize < 253 then Inr [word_of_nat nSize]
      else if nSize \<le> 0xffff then Inr (253 # WriteLE16 (word_of_nat nSize))
      else if nSize \<le> 0xffffffff then Inr (254 # WriteLE32 (word_of_nat nSize))
      else Inr (255 # WriteLE64 (word_of_nat nSize)))"

definition ReadCompactSize :: "nat reader" where
  "ReadCompactSize s =
     bindE (ser_readdata8 s) (\<lambda>(chSize, s).
       bindE
         (if chSize < 253 then Inr (unat chSize, s)
          else if chSize = 253 then bindE (ser_readdata16 s) (\<lambda>(n, s).
            if unat n < 253 then Inl NonCanonical else Inr (unat n, s))
          else if chSize = 254 then bindE (ser_readdata32 s) (\<lambda>(n, s).
            if unat n < 0x10000 then Inl NonCanonical else Inr (unat n, s))
          else bindE (ser_readdata64 s) (\<lambda>(n, s).
            if unat n < 0x100000000 then Inl NonCanonical else Inr (unat n, s)))
         (\<lambda>(nSizeRet, s). if nSizeRet > MAX_SIZE then Inl SizeTooLarge else Inr (nSizeRet, s)))"

subsection \<open>Variable-length integers\<close>

text \<open>\<open>WriteVarInt\<close> fills \<open>tmp\<close> from the low digit and writes it backwards.  The
  integer type of \<open>ReadVarInt\<close> enters by its largest value; the accumulator is
  \<open>uintmax_t\<close>.\<close>

function varint_digits :: "nat \<Rightarrow> byte list \<Rightarrow> byte list" where
  "varint_digits n tmp =
     (let tmp = tmp @ [word_of_nat (n AND 0x7F) OR (if tmp = [] then 0 else 0x80)]
      in if n \<le> 0x7F then tmp else varint_digits (drop_bit 7 n - 1) tmp)"
  by pat_completeness auto
termination
  by (relation "measure fst") (auto simp: drop_bit_eq_div)

declare varint_digits.simps [simp del]

definition WriteVarInt :: "nat \<Rightarrow> byte list" where
  "WriteVarInt n = rev (varint_digits n [])"

function GetSizeOfVarInt_loop :: "nat \<Rightarrow> nat \<Rightarrow> nat" where
  "GetSizeOfVarInt_loop n nRet =
     (if n \<le> 0x7F then nRet + 1 else GetSizeOfVarInt_loop (drop_bit 7 n - 1) (nRet + 1))"
  by pat_completeness auto
termination
  by (relation "measure fst") (auto simp: drop_bit_eq_div)

declare GetSizeOfVarInt_loop.simps [simp del]

definition GetSizeOfVarInt :: "nat \<Rightarrow> nat" where
  "GetSizeOfVarInt n = GetSizeOfVarInt_loop n 0"

fun ReadVarInt_loop :: "nat \<Rightarrow> nat \<Rightarrow> u64 \<Rightarrow> u64 reader" where
  "ReadVarInt_loop maxI 0 n s = Inl VarIntError"
| "ReadVarInt_loop maxI (Suc i) n s =
     (if unat n > drop_bit 7 maxI then Inl VarIntError
      else bindE (ser_readdata8 s) (\<lambda>(chData, s).
        let n = push_bit 7 n OR ucast (chData AND 0x7F)
        in if chData AND 0x80 = 0 then Inr (n, s) else ReadVarInt_loop maxI i (n + 1) s))"

definition ReadVarInt :: "nat \<Rightarrow> nat reader" where
  "ReadVarInt maxI s = bindE (ReadVarInt_loop maxI ((64 + 6) div 7) 0 s) (\<lambda>(n, s). Inr (unat n, s))"

subsection \<open>Byte vectors, strings and vectors of objects\<close>

definition STARTING_CHUNK_SIZE :: nat where "STARTING_CHUNK_SIZE = 16000000"
definition CHUNK_GROWTH_RATE :: nat where "CHUNK_GROWTH_RATE = 3"

definition Serialize_bytes :: "valtype \<Rightarrow> ser_error + byte list" where
  "Serialize_bytes v = bindE (WriteCompactSize (length v)) (\<lambda>h. Inr (h @ v))"

function read_chunks :: "nat \<Rightarrow> nat \<Rightarrow> valtype \<Rightarrow> valtype reader" where
  "read_chunks nSize chunkSize v s =
     (if length v < nSize then
        let blk = min (nSize - length v) (1 + (chunkSize - 1) div 1)
        in bindE (stream_read blk s) (\<lambda>(b, s).
             read_chunks nSize (chunkSize * CHUNK_GROWTH_RATE) (v @ b) s)
      else Inr (v, s))"
  by pat_completeness auto
termination
  by (relation "measure (\<lambda>(nSize, chunkSize, v, s). nSize - length v)")
    (auto simp: stream_read_def split: if_splits)

declare read_chunks.simps [simp del]

definition Unserialize_bytes :: "valtype reader" where
  "Unserialize_bytes s =
     bindE (ReadCompactSize s) (\<lambda>(nSize, s). read_chunks nSize STARTING_CHUNK_SIZE [] s)"

definition Unserialize_string :: "valtype reader" where
  "Unserialize_string s =
     bindE (ReadCompactSize s) (\<lambda>(nSize, s). if nSize \<noteq> 0 then stream_read nSize s else Inr ([], s))"

definition Unserialize_LimitedBytes :: "nat \<Rightarrow> valtype reader" where
  "Unserialize_LimitedBytes Limit s =
     bindE (ReadCompactSize s) (\<lambda>(size, s).
       if size > Limit then Inl LimitExceeded
       else if size \<noteq> 0 then stream_read size s else Inr ([], s))"

fun serialize_all :: "('a \<Rightarrow> ser_error + byte list) \<Rightarrow> 'a list \<Rightarrow> ser_error + byte list" where
  "serialize_all ser [] = Inr []"
| "serialize_all ser (a # v) = bindE (ser a) (\<lambda>x. bindE (serialize_all ser v) (\<lambda>y. Inr (x @ y)))"

definition Serialize_vector :: "('a \<Rightarrow> ser_error + byte list) \<Rightarrow> 'a list \<Rightarrow> ser_error + byte list" where
  "Serialize_vector ser v =
     bindE (WriteCompactSize (length v)) (\<lambda>h. bindE (serialize_all ser v) (\<lambda>b. Inr (h @ b)))"

fun read_elements :: "'a reader \<Rightarrow> nat \<Rightarrow> 'a list \<Rightarrow> 'a list reader" where
  "read_elements unser 0 v s = Inr (v, s)"
| "read_elements unser (Suc n) v s =
     bindE (unser s) (\<lambda>(a, s). read_elements unser n (v @ [a]) s)"

text \<open>The outer loop extends the vector to \<open>nMid\<close> elements, the inner one reads them; \<open>sz\<close> is
  \<open>sizeof(T)\<close>.\<close>

function read_blocks :: "nat \<Rightarrow> 'a reader \<Rightarrow> nat \<Rightarrow> nat \<Rightarrow> nat \<Rightarrow> 'a list \<Rightarrow> 'a list reader" where
  "read_blocks sz unser nSize chunkSize nMid v s =
     (if nMid < nSize then
        let next = nMid + min nSize (1 + (chunkSize - 1) div sz);
            next = (if next > nSize then nSize else next)
        in bindE (read_elements unser (next - nMid) v s) (\<lambda>(v, s).
             read_blocks sz unser nSize (chunkSize * CHUNK_GROWTH_RATE) next v s)
      else Inr (v, s))"
  by pat_completeness auto
termination
  by (relation "measure (\<lambda>(sz, unser, nSize, chunkSize, nMid, v, s). nSize - nMid)") auto

declare read_blocks.simps [simp del]

definition Unserialize_vector :: "nat \<Rightarrow> 'a reader \<Rightarrow> 'a list reader" where
  "Unserialize_vector sz unser s =
     bindE (ReadCompactSize s) (\<lambda>(nSize, s). read_blocks sz unser nSize STARTING_CHUNK_SIZE 0 [] s)"

subsection \<open>\<open>CDataStream\<close>\<close>

record CDataStream =
  vch :: "byte list"
  nReadPos :: u32

definition unread :: "CDataStream \<Rightarrow> byte list" where
  "unread s = drop (unat (nReadPos s)) (vch s)"

definition stream_eof :: "CDataStream \<Rightarrow> bool" where
  "stream_eof s \<longleftrightarrow> length (vch s) = unat (nReadPos s)"

definition memcpy_from :: "CDataStream \<Rightarrow> nat \<Rightarrow> CDataStream \<Rightarrow> ser_error + valtype \<times> CDataStream" where
  "memcpy_from s nSize s' =
     (if unat (nReadPos s) + nSize > length (vch s) then Inl OutOfBounds else Inr (take nSize (unread s), s'))"

definition CDataStream_read :: "nat \<Rightarrow> CDataStream \<Rightarrow> ser_error + valtype \<times> CDataStream" where
  "CDataStream_read nSize s =
     (if nSize = 0 then Inr ([], s)
      else let nReadPosNext = nReadPos s + word_of_nat nSize
        in if unat nReadPosNext \<ge> length (vch s) then
             if unat nReadPosNext > length (vch s) then Inl EndOfData
             else memcpy_from s nSize (s\<lparr>nReadPos := 0, vch := []\<rparr>)
           else memcpy_from s nSize (s\<lparr>nReadPos := nReadPosNext\<rparr>))"

definition CDataStream_ignore :: "int \<Rightarrow> CDataStream \<Rightarrow> ser_error + CDataStream" where
  "CDataStream_ignore nSize s =
     (if nSize < 0 then Inl EndOfData
      else let nReadPosNext = nReadPos s + word_of_int nSize
        in if unat nReadPosNext \<ge> length (vch s) then
             if unat nReadPosNext > length (vch s) then Inl EndOfData
             else Inr (s\<lparr>nReadPos := 0, vch := []\<rparr>)
           else Inr (s\<lparr>nReadPos := nReadPosNext\<rparr>))"

definition CDataStream_write :: "byte list \<Rightarrow> CDataStream \<Rightarrow> CDataStream" where
  "CDataStream_write p s = s\<lparr>vch := vch s @ p\<rparr>"

definition CDataStream_Compact :: "CDataStream \<Rightarrow> CDataStream" where
  "CDataStream_Compact s = s\<lparr>vch := drop (unat (nReadPos s)) (vch s), nReadPos := 0\<rparr>"

definition CDataStream_Rewind :: "nat \<Rightarrow> CDataStream \<Rightarrow> bool \<times> CDataStream" where
  "CDataStream_Rewind n s =
     (if n > unat (nReadPos s) then (False, s) else (True, s\<lparr>nReadPos := nReadPos s - word_of_nat n\<rparr>))"

subsection \<open>The contract of a codec\<close>

locale codec =
  fixes valid :: "'a \<Rightarrow> bool"
    and ser :: "'a \<Rightarrow> ser_error + byte list"
    and unser :: "'a reader"
  assumes unser_ser: "valid a \<Longrightarrow> ser a = Inr bs \<Longrightarrow> unser (bs @ r) = Inr (a, r)"
    and ser_unser: "unser s = Inr (a, r) \<Longrightarrow> valid a \<and> (\<exists>bs. ser a = Inr bs \<and> s = bs @ r)"
begin

lemma unser_iff:
  assumes "valid a"
  shows "unser s = Inr (a, r) \<longleftrightarrow> (\<exists>bs. ser a = Inr bs \<and> s = bs @ r)"
  using assms unser_ser ser_unser by blast

lemma ser_prefix_free:
  assumes "valid a" "valid b" "ser a = Inr x" "ser b = Inr y" "x @ r = y @ q"
  shows "a = b \<and> r = q"
  using unser_ser [OF assms(1,3), of r] unser_ser [OF assms(2,4), of q] assms(5) by simp

lemma serialize_all_elements:
  assumes "list_all valid v" "serialize_all ser v = Inr bs"
  shows "read_elements unser (length v) acc (bs @ r) = Inr (acc @ v, r)"
  using assms
proof (induction v arbitrary: acc bs)
  case (Cons a v)
  then obtain x y where x: "ser a = Inr x" "serialize_all ser v = Inr y" "bs = x @ y"
    by (auto simp: bindE_eq_Inr)
  with Cons.prems Cons.IH [OF _ x(2), of "acc @ [a]"] unser_ser [OF _ x(1), of "y @ r"] show ?case by simp
qed simp

lemma read_elements_serialize_all:
  assumes "read_elements unser n acc s = Inr (v, r)"
  shows "\<exists>w bs. v = acc @ w \<and> length w = n \<and> list_all valid w \<and> serialize_all ser w = Inr bs \<and> s = bs @ r"
  using assms
proof (induction n arbitrary: acc s)
  case (Suc n)
  then obtain a t where u: "unser s = Inr (a, t)" "read_elements unser n (acc @ [a]) t = Inr (v, r)"
    by (auto simp: bindE_eq_Inr)
  from Suc.IH [OF u(2)] obtain w bs where w: "v = (acc @ [a]) @ w" "length w = n" "list_all valid w"
      "serialize_all ser w = Inr bs" "t = bs @ r" by blast
  from ser_unser [OF u(1)] obtain x where "valid a" "ser a = Inr x" "s = x @ t" by blast
  with w show ?case by (intro exI [of _ "a # w"] exI [of _ "x @ bs"]) simp
qed simp

end

subsection \<open>Fixed-width values\<close>

lemma stream_read_append [simp]: "length a = n \<Longrightarrow> stream_read n (a @ s) = Inr (a, s)"
  by (simp add: stream_read_def)

lemma stream_read_eq_Inr: "stream_read n s = Inr (a, r) \<longleftrightarrow> length a = n \<and> s = a @ r"
  by (auto simp: stream_read_def)

lemma WriteLE_ReadLE:
  "length bs = 2 \<Longrightarrow> WriteLE16 (ReadLE16 bs) = bs" "length bs = 4 \<Longrightarrow> WriteLE32 (ReadLE32 bs) = bs"
  "length bs = 8 \<Longrightarrow> WriteLE64 (ReadLE64 bs) = bs"
  using le_nat_bound [of bs] le_bytes_le_nat [of bs]
  by (simp_all add: WriteLE16_def ReadLE16_def WriteLE32_def ReadLE32_def WriteLE64_def ReadLE64_def unat_of_nat)

lemma stream_read_1: "stream_read (Suc 0) (b # r) = Inr ([b], r)"
  by (simp add: stream_read_def)

interpretation u8_codec: codec "\<lambda>_. True" "\<lambda>b. Inr [b]" ser_readdata8
  by unfold_locales
    (auto simp: ser_readdata8_def bindE_eq_Inr stream_read_eq_Inr length_Suc_conv stream_read_1)

interpretation u16_codec: codec "\<lambda>_. True" "\<lambda>x. Inr (WriteLE16 x)" ser_readdata16
  by unfold_locales
    (use read_write(1) [where r = "[]"] in \<open>auto simp: ser_readdata16_def bindE_eq_Inr stream_read_eq_Inr WriteLE_ReadLE\<close>)

interpretation u32_codec: codec "\<lambda>_. True" "\<lambda>x. Inr (WriteLE32 x)" ser_readdata32
  by unfold_locales
    (use read_write(2) [where r = "[]"] in \<open>auto simp: ser_readdata32_def bindE_eq_Inr stream_read_eq_Inr WriteLE_ReadLE\<close>)

interpretation u64_codec: codec "\<lambda>_. True" "\<lambda>x. Inr (WriteLE64 x)" ser_readdata64
  by unfold_locales
    (use read_write(3) [where r = "[]"] in \<open>auto simp: ser_readdata64_def bindE_eq_Inr stream_read_eq_Inr WriteLE_ReadLE\<close>)

interpretation uint256_codec: codec "\<lambda>h. length h = 32" Inr "stream_read 32"
  by unfold_locales (auto simp: stream_read_eq_Inr)

lemma read_fixed [simp]:
  "ser_readdata8 (b # r) = Inr (b, r)" "ser_readdata16 (WriteLE16 w @ r) = Inr (w, r)"
  "ser_readdata32 (WriteLE32 x @ r) = Inr (x, r)" "ser_readdata64 (WriteLE64 y @ r) = Inr (y, r)"
  using u8_codec.unser_ser [of b "[b]"] u16_codec.unser_ser [of w "WriteLE16 w"]
    u32_codec.unser_ser [of x "WriteLE32 x"] u64_codec.unser_ser [of y "WriteLE64 y"]
  by simp_all

lemma read_fixed_eq_Inr:
  "ser_readdata8 s = Inr (b, r) \<longleftrightarrow> s = b # r" "ser_readdata16 s = Inr (w, r) \<longleftrightarrow> s = WriteLE16 w @ r"
  "ser_readdata32 s = Inr (x, r) \<longleftrightarrow> s = WriteLE32 x @ r" "ser_readdata64 s = Inr (y, r) \<longleftrightarrow> s = WriteLE64 y @ r"
  using u8_codec.unser_iff u16_codec.unser_iff u32_codec.unser_iff u64_codec.unser_iff by auto

subsection \<open>Compact sizes and variable-length integers\<close>

lemma WriteCompactSize_size:
  "WriteCompactSize n = Inr bs \<Longrightarrow> length bs = GetSizeOfCompactSize n"
  by (auto simp: WriteCompactSize_def GetSizeOfCompactSize_def split: if_splits)

lemma compact_byte: "(word_of_nat n :: byte) < 253 \<longleftrightarrow> n mod 256 < 253"
  by (simp add: word_less_nat_alt unat_of_nat)

lemma compact_byte_cases:
  "(b :: byte) < 253 \<longleftrightarrow> unat b < 253" "\<not> b < 253 \<Longrightarrow> b \<noteq> 253 \<Longrightarrow> b \<noteq> 254 \<Longrightarrow> b = 255"
proof -
  show "b < 253 \<longleftrightarrow> unat b < 253" by (simp add: word_less_nat_alt)
  have "unat b = 253 \<or> unat b = 254 \<or> unat b = 255" if "\<not> unat b < 253"
    using that unat_byte_less [of b] by linarith
  then show "\<not> b < 253 \<Longrightarrow> b \<noteq> 253 \<Longrightarrow> b \<noteq> 254 \<Longrightarrow> b = 255"
    by (auto simp: word_less_nat_alt word_unat_eq_iff)
qed

lemma unat_word_le: "unat (x :: u16) \<le> 65535" "unat (y :: u32) \<le> 4294967295"
  using unat_word_less(1) [of x] unat_word_less(2) [of y] by linarith+

interpretation compact: codec "\<lambda>n. n \<le> MAX_SIZE" WriteCompactSize ReadCompactSize
proof unfold_locales
  fix n :: nat and bs r :: "byte list"
  assume "n \<le> MAX_SIZE" "WriteCompactSize n = Inr bs"
  then show "ReadCompactSize (bs @ r) = Inr (n, r)"
    by (auto simp: WriteCompactSize_def ReadCompactSize_def compact_byte unat_of_nat MAX_SIZE_def split: if_splits)
next
  fix s r :: "byte list" and n :: nat
  assume a: "ReadCompactSize s = Inr (n, r)"
  then obtain b t where "s = b # t" by (auto simp: ReadCompactSize_def bindE_eq_Inr read_fixed_eq_Inr)
  with a compact_byte_cases [of b] show "n \<le> MAX_SIZE \<and> (\<exists>bs. WriteCompactSize n = Inr bs \<and> s = bs @ r)"
    by (auto simp: ReadCompactSize_def WriteCompactSize_def bindE_eq_Inr read_fixed_eq_Inr not_less
        intro: unat_word_le le_trans [OF unat_word_le(1)] split: if_splits)
qed

text \<open>A digit, and the digits in the order they are written.\<close>

definition digit :: "bool \<Rightarrow> nat \<Rightarrow> byte" where
  "digit cont n = word_of_nat (n mod 128 + (if cont then 128 else 0))"

function varint_ref :: "nat \<Rightarrow> bool \<Rightarrow> byte list" where
  "varint_ref n cont = (if n \<le> 0x7F then [] else varint_ref (n div 128 - 1) True) @ [digit cont n]"
  by pat_completeness auto
termination
  by (relation "measure fst") auto

declare varint_ref.simps [simp del]

lemma unat_digit: "unat (digit cont n) = n mod 128 + (if cont then 128 else 0)"
  by (simp add: digit_def unat_of_nat del: of_nat_add)

lemma digit_fields: "unat (digit cont n AND 0x7F) = n mod 128" "digit cont n AND 0x80 = 0 \<longleftrightarrow> \<not> cont"
  by (simp_all add: byte_and_7f byte_and_80_0 unat_digit)

lemma digit_code: "word_of_nat (n AND 0x7F) OR (if tmp = [] then 0 else 0x80) = digit (tmp \<noteq> []) n"
  by (simp add: word_unat_eq_iff unat_digit nat_and_127 byte_or_80 unat_of_nat)

lemma byte_digit: "b = digit (128 \<le> unat b) (128 * k + unat b mod 128)"
proof -
  have "n = n mod 128 + (if 128 \<le> n then 128 else 0)" if "n < 256" for n :: nat
    using that le_mod_geq [of 128 n] mod_less [of "n - 128" 128] by auto
  from this [OF unat_byte_less [of b]]
  have "unat b = unat b mod 128 + (if 128 \<le> unat b then 128 else 0)" .
  then show ?thesis unfolding word_unat_eq_iff unat_digit by simp
qed

lemma varint_digits_ref: "rev (varint_digits n tmp) = varint_ref n (tmp \<noteq> []) @ rev tmp"
proof (induction n tmp rule: varint_digits.induct)
  case (1 n tmp)
  then show ?case
    by (simp add: varint_digits.simps [of n] varint_ref.simps [of n] digit_code Let_def drop_bit_eq_div)
qed

lemma WriteVarInt_ref: "WriteVarInt n = varint_ref n False"
  by (simp add: WriteVarInt_def varint_digits_ref)

lemma GetSizeOfVarInt_length: "GetSizeOfVarInt n = length (WriteVarInt n)"
proof -
  have "GetSizeOfVarInt_loop n k = k + length (varint_ref n cont)" for k cont
    by (induction n k arbitrary: cont rule: GetSizeOfVarInt_loop.induct)
      (simp add: GetSizeOfVarInt_loop.simps varint_ref.simps drop_bit_eq_div)
  from this [of 0 False] show ?thesis by (simp add: GetSizeOfVarInt_def WriteVarInt_ref)
qed

text \<open>What has been read when the accumulator is \<open>p\<close>.\<close>

definition varint_read :: "nat \<Rightarrow> byte list" where
  "varint_read p = (if p = 0 then [] else varint_ref (p - 1) True)"

lemma varint_ref_read: "varint_ref v cont = varint_read (v div 128) @ [digit cont v]"
  by (simp add: varint_ref.simps [of v] varint_read_def div_eq_0_iff not_le)

lemma varint_ref_length: "v < 128 ^ k \<Longrightarrow> 0 < k \<Longrightarrow> length (varint_ref v cont) \<le> k"
proof (induction k arbitrary: v cont)
  case (Suc k)
  show ?case
  proof (cases "v \<le> 127")
    case False
    then have "0 < v div 128" by (simp add: div_greater_zero_iff)
    moreover have "v div 128 < 128 ^ k" using Suc.prems by (simp add: less_mult_imp_div_less mult.commute)
    ultimately show ?thesis
      using Suc.IH [of "v div 128 - 1" True] False by (cases k) (auto simp: varint_ref.simps [of v])
  qed (simp add: varint_ref.simps [of v])
qed simp

lemma varint_digit_or:
  "push_bit 7 (word_of_nat (v div 128)) OR ucast (digit cont v AND 0x7F) = (word_of_nat v :: u64)"
proof -
  have "ucast (digit cont v AND 0x7F) = (word_of_nat (unat (digit cont v AND 0x7F)) :: u64)"
    by (simp add: word_unat_eq_iff unat_of_nat unsigned_ucast_eq)
  also have "\<dots> = word_of_nat (take_bit 7 v)" by (simp add: digit_fields take_bit_eq_mod)
  finally have d: "ucast (digit cont v AND 0x7F) = (word_of_nat (take_bit 7 v) :: u64)" .
  have "v div 128 = drop_bit 7 v" by (simp add: drop_bit_eq_div)
  then show ?thesis unfolding d by (intro bit_word_eqI) (auto simp: bit_simps)
qed

lemma varint_step:
  assumes "v \<le> maxI" "maxI < 2 ^ 64"
  shows "ReadVarInt_loop maxI (Suc i) (word_of_nat (v div 128)) (digit cont v # s) =
    (if cont then ReadVarInt_loop maxI i (word_of_nat v + 1) s else Inr (word_of_nat v, s))"
proof -
  note varint_digit_or [of v cont]
  moreover have "unat (word_of_nat (v div 128) :: u64) = v div 128"
    using assms by (simp add: unat_of_nat mod_less div_less_dividend)
  ultimately show ?thesis
    using div_le_mono [OF assms(1), of 128] by (simp add: drop_bit_eq_div digit_fields not_less)
qed

lemma varint_loop_ref:
  assumes "v \<le> maxI" "maxI < 2 ^ 64" "length (varint_ref v cont) \<le> i"
  shows "ReadVarInt_loop maxI i 0 (varint_ref v cont @ s) =
    (if cont then ReadVarInt_loop maxI (i - length (varint_ref v cont)) (word_of_nat v + 1) s
     else Inr (word_of_nat v, s))"
  using assms
proof (induction v cont arbitrary: i s rule: varint_ref.induct)
  case (1 v cont)
  show ?case
  proof (cases "v \<le> 127")
    case True
    with 1 varint_step [of v maxI "i - 1" cont s] show ?thesis by (cases i) (auto simp: varint_ref.simps [of v])
  next
    case False
    let ?u = "v div 128 - 1"
    have "Suc ?u = v div 128" using False by (simp add: div_greater_zero_iff)
    then have w: "word_of_nat ?u + 1 = (word_of_nat (v div 128) :: u64)"
      by (metis add.commute of_nat_Suc)
    have len: "length (varint_ref v cont) = Suc (length (varint_ref ?u True))"
      using False by (simp add: varint_ref.simps [of v])
    let ?j = "i - length (varint_ref v cont)"
    from len have j: "i - length (varint_ref ?u True) = Suc ?j"
      using 1(4) by (simp add: Suc_diff_Suc)
    have "?u \<le> maxI" using 1(2) by (meson diff_le_self div_le_dividend le_trans)
    then show ?thesis
      using 1(1) [OF False, of i "digit cont v # s"] varint_step [OF 1(2,3), of ?j cont s] 1(3,4) False len j w
      by (simp add: varint_ref.simps [of v])
  qed
qed

lemma varint_ref_full: "length (varint_ref (2 ^ 64 - 1) cont) = 10"
  by (simp add: varint_ref.simps)

lemma varint_loop_inv:
  assumes "ReadVarInt_loop maxI i n s = Inr (m, r)" "maxI mod 128 = 127" "maxI < 2 ^ 64"
    "length (varint_read (unat n)) + i \<le> 10"
  shows "varint_read (unat n) @ s = varint_ref (unat m) False @ r \<and> unat m \<le> maxI"
  using assms
proof (induction i arbitrary: n s)
  case (Suc i)
  have n: "unat n \<le> maxI div 128" using Suc.prems(1) by (simp add: drop_bit_eq_div split: if_splits)
  with Suc.prems obtain b t where s: "s = b # t"
    by (auto simp: bindE_eq_Inr read_fixed_eq_Inr drop_bit_eq_div split: if_splits)
  define v where "v = 128 * unat n + unat b mod 128"
  have "unat b mod 128 \<le> 127" using mod_less_divisor [of 128 "unat b"] by linarith
  then have v: "v \<le> maxI" "v div 128 = unat n"
    using n Suc.prems(2) mult_div_mod_eq [of 128 maxI] by (auto simp: v_def)
  have b: "b = digit (128 \<le> unat b) v" unfolding v_def by (rule byte_digit)
  have n': "n = word_of_nat (v div 128)" by (simp add: v(2))
  have ref: "varint_ref v (128 \<le> unat b) = varint_read (unat n) @ [b]"
    using varint_ref_read [of v "128 \<le> unat b"] v(2) b by simp
  have step: "ReadVarInt_loop maxI (Suc i) n s =
      (if 128 \<le> unat b then ReadVarInt_loop maxI i (word_of_nat v + 1) t else Inr (word_of_nat v, t))"
    unfolding s n' by (subst b) (rule varint_step [OF v(1) Suc.prems(3)])
  show ?case
  proof (cases "128 \<le> unat b")
    case True
    with step Suc.prems(1) have l: "ReadVarInt_loop maxI i (word_of_nat v + 1) t = Inr (m, r)" by simp
    have "v \<noteq> 2 ^ 64 - 1"
    proof
      assume "v = 2 ^ 64 - 1"
      with varint_ref_full ref True Suc.prems(4) have "i = 0" by (auto dest: arg_cong [of _ _ length])
      with l show False by simp
    qed
    with v Suc.prems(3) have "unat (word_of_nat (v + 1) :: u64) = v + 1"
      by (simp add: unat_of_nat del: of_nat_add of_nat_Suc)
    then have u: "unat (word_of_nat v + 1 :: u64) = v + 1" by (simp add: add.commute)
    with ref True have "varint_read (unat (word_of_nat v + 1 :: u64)) = varint_read (unat n) @ [b]"
      by (simp add: varint_read_def)
    with Suc.IH [OF l] Suc.prems(2-4) s show ?thesis by simp
  next
    case False
    with step Suc.prems ref v s show ?thesis by (auto simp: unat_of_nat)
  qed
qed simp

lemma varint_codec:
  assumes "maxI mod 128 = 127" "maxI < 2 ^ 64"
  shows "codec (\<lambda>n. n \<le> maxI) (\<lambda>n. Inr (WriteVarInt n)) (ReadVarInt maxI)"
proof
  fix n bs r
  assume n: "n \<le> maxI" "Inr (WriteVarInt n) = (Inr bs :: ser_error + _)"
  then have "n < 128 ^ 10" using assms(2) by simp
  from varint_ref_length [OF this] n assms varint_loop_ref [of n maxI False 10 r]
  show "ReadVarInt maxI (bs @ r) = Inr (n, r)"
    by (auto simp: ReadVarInt_def WriteVarInt_ref unat_of_nat)
next
  fix s n r
  assume "ReadVarInt maxI s = Inr (n, r)"
  then obtain m where "ReadVarInt_loop maxI 10 0 s = Inr (m, r)" "n = unat m"
    by (auto simp: ReadVarInt_def bindE_eq_Inr)
  with varint_loop_inv [of maxI 10 0 s m r] assms
  show "n \<le> maxI \<and> (\<exists>bs. Inr (WriteVarInt n) = (Inr bs :: ser_error + _) \<and> s = bs @ r)"
    by (simp add: varint_read_def WriteVarInt_ref)
qed

interpretation varint_u64: codec "\<lambda>n. n \<le> 2 ^ 64 - 1" "\<lambda>n. Inr (WriteVarInt n)" "ReadVarInt (2 ^ 64 - 1)"
  by (rule varint_codec) simp_all

interpretation varint_u32: codec "\<lambda>n. n \<le> 2 ^ 32 - 1" "\<lambda>n. Inr (WriteVarInt n)" "ReadVarInt (2 ^ 32 - 1)"
  by (rule varint_codec) simp_all

interpretation varint_int: codec "\<lambda>n. n \<le> 2 ^ 31 - 1" "\<lambda>n. Inr (WriteVarInt n)" "ReadVarInt (2 ^ 31 - 1)"
  by (rule varint_codec) simp_all

text \<open>C17. The variable-length integers are the one-to-one encoding the comment claims, for every
  integer type of at most 64 bits: \<open>ReadVarInt\<close> succeeds exactly on the bytes
  \<open>WriteVarInt\<close> writes for a value of the type, whatever follows them, and returns that
  value; over-long, overflowing and truncated input is rejected.  The size computed without
  writing is the number of bytes written, at most ten.\<close>

theorem varint_one_to_one:
  assumes "maxI + 1 = 2 ^ k" "7 \<le> k" "k \<le> 64"
  shows "(ReadVarInt maxI s = Inr (n, r) \<longleftrightarrow> n \<le> maxI \<and> s = WriteVarInt n @ r) \<and>
    GetSizeOfVarInt n = length (WriteVarInt n) \<and> (n \<le> maxI \<longrightarrow> length (WriteVarInt n) \<le> 10)"
proof -
  obtain j where j: "k = 7 + j" using assms(2) le_Suc_ex by blast
  have "maxI = 127 + 128 * (2 ^ j - 1)" using assms(1) by (simp add: j power_add diff_mult_distrib2)
  then have "maxI mod 128 = 127" by simp
  moreover have l: "maxI < 2 ^ 64"
    using assms power_increasing [of k 64 "2 :: nat"] by simp
  ultimately have "codec (\<lambda>n. n \<le> maxI) (\<lambda>n. Inr (WriteVarInt n)) (ReadVarInt maxI)" by (rule varint_codec)
  from codec.ser_unser [OF this, of s n r] codec.unser_ser [OF this, of n "WriteVarInt n" r]
  have "ReadVarInt maxI s = Inr (n, r) \<longleftrightarrow> n \<le> maxI \<and> s = WriteVarInt n @ r" by auto
  moreover have "length (WriteVarInt n) \<le> 10" if "n \<le> maxI"
    using varint_ref_length [of n 10 False] that l by (simp add: WriteVarInt_ref)
  ultimately show ?thesis by (simp add: GetSizeOfVarInt_length)
qed

theorem varint_one_to_one_witness:
  "ReadVarInt 4294967295 [0x82, 0xFE, 0x7F, 0x2A] = Inr (65535, [0x2A])"
  using varint_one_to_one [of 4294967295 32 "[0x82, 0xFE, 0x7F, 0x2A]" 65535 "[0x2A]"]
  by (simp add: WriteVarInt_ref varint_ref.simps digit_def)

subsection \<open>Byte vectors, strings and vectors of objects\<close>

lemma stream_read_add:
  "bindE (stream_read m s) (\<lambda>(a, s). bindE (stream_read n s) (\<lambda>(b, s). Inr (a @ b, s))) = stream_read (m + n) s"
  by (auto simp: stream_read_def take_add add.commute)

lemma read_chunks_whole:
  "length v \<le> nSize \<Longrightarrow>
   read_chunks nSize chunkSize v s = bindE (stream_read (nSize - length v) s) (\<lambda>(b, s). Inr (v @ b, s))"
proof (induction nSize chunkSize v s rule: read_chunks.induct)
  case (1 nSize chunkSize v s)
  show ?case
  proof (cases "length v < nSize")
    case True
    let ?blk = "min (nSize - length v) (1 + (chunkSize - 1) div 1)"
    show ?thesis
    proof (cases "stream_read ?blk s")
      case (Inl e)
      then have "length s < ?blk" "e = EndOfData" by (auto simp: stream_read_def split: if_splits)
      then have "stream_read (nSize - length v) s = Inl EndOfData" by (auto simp: stream_read_def)
      with True Inl \<open>e = EndOfData\<close> show ?thesis by (simp add: read_chunks.simps [of nSize chunkSize v s] Let_def)
    next
      case (Inr p)
      obtain b t where bt: "stream_read ?blk s = Inr (b, t)" using Inr by (cases p) auto
      then have b: "length b = ?blk" "s = b @ t" by (auto simp: stream_read_eq_Inr)
      then have l: "length (v @ b) \<le> nSize" using True by simp
      have "read_chunks nSize (chunkSize * CHUNK_GROWTH_RATE) (v @ b) t =
          bindE (stream_read (nSize - length (v @ b)) t) (\<lambda>(b', s). Inr ((v @ b) @ b', s))"
        using 1(1) [OF True refl bt refl l] by simp
      moreover have "stream_read (nSize - length v) s =
          bindE (stream_read (nSize - length (v @ b)) t) (\<lambda>(b', s). Inr (b @ b', s))"
      proof -
        have "length b + (nSize - length (v @ b)) = nSize - length v" using l by simp
        with stream_read_add [of "length b" s "nSize - length (v @ b)"] show ?thesis
          using b(2) by (simp only: stream_read_append bindE_simps prod.case)
      qed
      ultimately show ?thesis
        using True bt by (cases "stream_read (nSize - length (v @ b)) t")
          (auto simp: read_chunks.simps [of nSize chunkSize v s] Let_def)
    qed
  qed (use 1 in \<open>simp add: read_chunks.simps [of nSize chunkSize v s] stream_read_def\<close>)
qed

lemma Unserialize_bytes_whole:
  "Unserialize_bytes s = bindE (ReadCompactSize s) (\<lambda>(nSize, s). stream_read nSize s)"
proof -
  have "read_chunks n c [] t = stream_read n t" for n c t
    using read_chunks_whole [of "[]" n c t] by (cases "stream_read n t") (auto split: prod.splits)
  then show ?thesis by (simp add: Unserialize_bytes_def)
qed

lemma stream_read_0: "stream_read 0 s = Inr ([], s)"
  by (simp add: stream_read_def)

lemma Unserialize_string_bytes: "Unserialize_string = Unserialize_bytes"
  by (rule ext) (auto simp: Unserialize_string_def Unserialize_bytes_whole stream_read_0 intro!: arg_cong [of _ _ "bindE _"])

interpretation bytes: codec "\<lambda>_. True" Serialize_bytes Unserialize_bytes
proof
  fix v bs r assume "Serialize_bytes v = Inr bs"
  then obtain h where "WriteCompactSize (length v) = Inr h" "bs = h @ v"
    by (auto simp: Serialize_bytes_def bindE_eq_Inr)
  moreover from this have "length v \<le> MAX_SIZE" by (auto simp: WriteCompactSize_def split: if_splits)
  ultimately show "Unserialize_bytes (bs @ r) = Inr (v, r)"
    by (simp add: Unserialize_bytes_whole compact.unser_ser)
next
  fix s v r assume "Unserialize_bytes s = Inr (v, r)"
  then obtain n t where "ReadCompactSize s = Inr (n, t)" "stream_read n t = Inr (v, r)"
    by (auto simp: Unserialize_bytes_whole bindE_eq_Inr)
  with compact.ser_unser [of s n t] show "True \<and> (\<exists>bs. Serialize_bytes v = Inr bs \<and> s = bs @ r)"
    by (auto simp: Serialize_bytes_def stream_read_eq_Inr)
qed

lemma limited_bytes:
  "ReadCompactSize s = Inr (n, t) \<Longrightarrow>
   Unserialize_LimitedBytes L s = (if n \<le> L then Unserialize_bytes s else Inl LimitExceeded)"
  by (simp add: Unserialize_LimitedBytes_def Unserialize_bytes_whole stream_read_0)

lemma read_elements_add:
  "read_elements u (m + n) v s = bindE (read_elements u m v s) (\<lambda>(v, s). read_elements u n v s)"
proof (induction m arbitrary: v s)
  case (Suc m)
  then show ?case by (cases "u s") auto
qed simp

lemma read_blocks_whole:
  "nMid \<le> nSize \<Longrightarrow> read_blocks sz unser nSize chunkSize nMid v s = read_elements unser (nSize - nMid) v s"
proof (induction sz unser nSize chunkSize nMid v s rule: read_blocks.induct)
  case (1 sz unser nSize chunkSize nMid v s)
  show ?case
  proof (cases "nMid < nSize")
    case True
    define nx where "nx = min nSize (nMid + min nSize (1 + (chunkSize - 1) div sz))"
    have nx: "nMid < nx" "nx \<le> nSize" using True by (auto simp: nx_def)
    have e: "(if nMid + min nSize (1 + (chunkSize - 1) div sz) > nSize then nSize
        else nMid + min nSize (1 + (chunkSize - 1) div sz)) = nx" by (simp add: nx_def)
    have "read_blocks sz unser nSize chunkSize nMid v s =
        bindE (read_elements unser (nx - nMid) v s) (\<lambda>(v, s).
          read_blocks sz unser nSize (chunkSize * CHUNK_GROWTH_RATE) nx v s)"
      using True by (simp only: read_blocks.simps [of sz unser nSize chunkSize nMid v s] Let_def e if_True)
    also have "\<dots> = bindE (read_elements unser (nx - nMid) v s) (\<lambda>(v, s). read_elements unser (nSize - nx) v s)"
      using 1(1) [OF True refl, unfolded e, OF refl] nx by (intro bindE_cong) auto
    also have "\<dots> = read_elements unser (nSize - nMid) v s"
      using nx read_elements_add [of unser "nx - nMid" "nSize - nx" v s] by simp
    finally show ?thesis .
  next
    case False
    with 1(2) have "nMid = nSize" by simp
    then show ?thesis by (simp add: read_blocks.simps [of sz unser nSize chunkSize nSize v s])
  qed
qed

context codec
begin

lemma vector_codec: "codec (list_all valid) (Serialize_vector ser) (Unserialize_vector sz unser)"
proof
  fix v bs r assume v: "list_all valid v" "Serialize_vector ser v = Inr bs"
  then obtain h b where h: "WriteCompactSize (length v) = Inr h" "serialize_all ser v = Inr b" "bs = h @ b"
    by (auto simp: Serialize_vector_def bindE_eq_Inr)
  moreover from this have "length v \<le> MAX_SIZE" by (auto simp: WriteCompactSize_def split: if_splits)
  ultimately show "Unserialize_vector sz unser (bs @ r) = Inr (v, r)"
    using serialize_all_elements [OF v(1) h(2), of "[]" r]
    by (simp add: Unserialize_vector_def compact.unser_ser read_blocks_whole)
next
  fix s v r assume "Unserialize_vector sz unser s = Inr (v, r)"
  then obtain n t where "ReadCompactSize s = Inr (n, t)" "read_elements unser n [] t = Inr (v, r)"
    by (auto simp: Unserialize_vector_def bindE_eq_Inr read_blocks_whole)
  with compact.ser_unser [of s n t] read_elements_serialize_all [of n "[]" t v r]
  show "list_all valid v \<and> (\<exists>bs. Serialize_vector ser v = Inr bs \<and> s = bs @ r)"
    by (force simp: Serialize_vector_def)
qed

end

subsection \<open>The stream object\<close>

text \<open>As long as the read position fits its 32-bit variable, a \<open>CDataStream\<close> behaves as the
  list of its unread bytes.\<close>

definition stream_ok :: "CDataStream \<Rightarrow> bool" where
  "stream_ok s \<longleftrightarrow> unat (nReadPos s) \<le> length (vch s)"

lemma next_position:
  assumes "unat (p :: u32) + n < 2 ^ 32"
  shows "unat (p + word_of_nat n) = unat p + n"
proof -
  have "unat (word_of_nat n :: u32) = n" using assms by (simp add: unat_of_nat)
  with assms show ?thesis by (simp add: unat_word_ariths)
qed

text \<open>C16. \<open>CDataStream::read\<close> implements the byte source that the deserialization code is written
  for: if the end of the read fits the 32-bit read position, it returns the next bytes and leaves the
  rest, it throws exactly when there are not enough bytes, it never touches memory outside of the
  buffer, and it keeps the read position inside of it.\<close>

theorem CDataStream_read_refines:
  assumes "stream_ok s" "unat (nReadPos s) + n < 2 ^ 32"
  shows "map_sum id (map_prod id unread) (CDataStream_read n s) = stream_read n (unread s) \<and>
    (\<forall>b s'. CDataStream_read n s = Inr (b, s') \<longrightarrow> stream_ok s')"
  using assms next_position [OF assms(2)]
  by (auto simp: CDataStream_read_def memcpy_from_def stream_read_def stream_ok_def unread_def Let_def
      add.commute)

theorem CDataStream_read_refines_witness:
  "map_sum id (map_prod id unread) (CDataStream_read 2 \<lparr>vch = [1, 2, 3, 4], nReadPos = 1\<rparr>) = Inr ([2, 3], [4])"
  using CDataStream_read_refines [of "\<lparr>vch = [1, 2, 3, 4], nReadPos = 1\<rparr>" 2]
  by (simp add: stream_ok_def unread_def stream_read_def)

text \<open>The end of the read is computed in 32 bits but the number of bytes is 64 bits wide: a length
  field of \<open>0xffffffff\<close>, which \<open>ReadCompactSize\<close> accepts, makes the sum wrap around and the copy
  run past the end of the buffer.\<close>

lemma CDataStream_read_overrun:
  assumes "0 < unat (nReadPos s)" "unat (nReadPos s) \<le> length (vch s)" "length (vch s) < 2 ^ 32"
  shows "CDataStream_read (2 ^ 32 - 1) s = Inl OutOfBounds"
proof -
  have "(4294967295 :: u32) = - 1" by simp
  then have "nReadPos s + 4294967295 = nReadPos s - 1" by (simp only: add_uminus_conv_diff)
  then have "unat (nReadPos s + 4294967295) = unat (nReadPos s) - 1"
    using assms(1) by (simp only:) (simp add: unat_minus_one unat_gt_0)
  then show ?thesis
    using assms by (auto simp: CDataStream_read_def memcpy_from_def Let_def)
qed

lemma drop_back:
  assumes "n \<le> k" "k \<le> length xs"
  shows "\<exists>b. length b = n \<and> drop (k - n) xs = b @ drop k xs"
proof -
  have "drop n (drop (k - n) xs) = drop k xs" using assms(1) by simp
  moreover have "length (take n (drop (k - n) xs)) = n" using assms by simp
  ultimately show ?thesis by (metis append_take_drop_id)
qed

lemma position_back:
  assumes "n \<le> unat (p :: u32)"
  shows "unat (p - word_of_nat n) = unat p - n"
proof -
  have "n < 4294967296" using assms unat_word_less(2) [of p] by linarith
  then have "unat (word_of_nat n :: u32) = n" by (simp add: unat_of_nat)
  then show ?thesis using assms by (simp add: unat_sub word_le_nat_alt)
qed

lemma CDataStream_Rewind_unread:
  assumes "stream_ok s" "n \<le> unat (nReadPos s)"
  shows "\<exists>b. length b = n \<and> unread (snd (CDataStream_Rewind n s)) = b @ unread s"
proof -
  have "unread (snd (CDataStream_Rewind n s)) = drop (unat (nReadPos s) - n) (vch s)"
    using assms(2) by (simp add: CDataStream_Rewind_def unread_def position_back)
  moreover have "\<exists>b. length b = n \<and> drop (unat (nReadPos s) - n) (vch s) = b @ unread s"
    unfolding unread_def using assms by (intro drop_back) (simp_all add: stream_ok_def)
  ultimately show ?thesis by (simp only:)
qed

lemma CDataStream_other:
  assumes "stream_ok s"
  shows "unread (CDataStream_write p s) = unread s @ p" "stream_ok (CDataStream_write p s)"
    "unread (CDataStream_Compact s) = unread s" "stream_ok (CDataStream_Compact s)"
    "stream_eof s \<longleftrightarrow> unread s = []"
  using assms
  by (auto simp: CDataStream_write_def CDataStream_Compact_def unread_def stream_ok_def stream_eof_def)

end
