(* ===== verification/Transaction.thy ===== *)
theory Transaction
  imports Script Hashers Serialize
begin

text \<open>
  Amounts (\<open>src/src/amount.h\<close>, \<open>amount.cpp\<close>) and transactions
  (\<open>src/src/primitives/transaction.h\<close>, \<open>transaction.cpp\<close>): the data, its serialization and the
  transaction id.  An amount is a signed 64-bit word read with \<open>sint\<close>; a 256-bit value is
  a list of 32 bytes.  The sizes of the C++ objects, which only control how far a vector
  grows at a time, are arguments.
\<close>

subsection \<open>Amounts and fee rates\<close>

type_synonym Amount = i64
type_synonym uint256 = "byte list"

definition COIN :: Amount where "COIN = 10000"
definition MAX_MONEY :: Amount where "MAX_MONEY = 840000000000 * COIN"

definition MoneyRange :: "Amount \<Rightarrow> bool" where
  "MoneyRange nValue \<longleftrightarrow> sint nValue \<ge> 0 \<and> sint nValue \<le> sint MAX_MONEY"

text \<open>Signed division of 64-bit words truncates towards zero.\<close>

definition amount_div :: "Amount \<Rightarrow> int \<Rightarrow> Amount" where
  "amount_div a k = word_of_int (sgn (sint a) * sgn k * (\<bar>sint a\<bar> div \<bar>k\<bar>))"

type_synonym CFeeRate = Amount

definition CFeeRate_of :: "Amount \<Rightarrow> nat \<Rightarrow> CFeeRate" where
  "CFeeRate_of nFeePaid nBytes =
     (let nSize = int nBytes in if nSize > 0 then amount_div (1000 * nFeePaid) nSize else 0)"

definition GetFee :: "CFeeRate \<Rightarrow> nat \<Rightarrow> Amount" where
  "GetFee nSatoshisPerK nBytes =
     (let nSize = int nBytes;
          nFee = amount_div (word_of_int nSize * nSatoshisPerK) 1000
      in if nFee = 0 \<and> nSize \<noteq> 0 then
           if sint nSatoshisPerK > 0 then 1 else if sint nSatoshisPerK < 0 then - 1 else nFee
         else nFee)"

subsection \<open>The data\<close>

record COutPoint =
  txid :: uint256
  outn :: u32

record CTxIn =
  prevout :: COutPoint
  scriptSig :: CScript
  nSequence :: u32

record CTxOut =
  nValue :: Amount
  scriptPubKey :: CScript

record CTransaction =
  nVersion :: u32 \<comment> \<open>\<open>int32_t\<close>\<close>
  vin :: "CTxIn list"
  vout :: "CTxOut list"
  nLockTime :: u32

definition null_hash :: uint256 where "null_hash = replicate 32 0"

definition SEQUENCE_FINAL :: u32 where "SEQUENCE_FINAL = 0xffffffff"

definition null_outpoint :: COutPoint where
  "null_outpoint = \<lparr>txid = null_hash, outn = - 1\<rparr>"

definition COutPoint_IsNull :: "COutPoint \<Rightarrow> bool" where
  "COutPoint_IsNull p \<longleftrightarrow> txid p = null_hash \<and> outn p = - 1"

definition CTxOut_null :: CTxOut where
  "CTxOut_null = \<lparr>nValue = - 1, scriptPubKey = []\<rparr>"

definition CTxOut_IsNull :: "CTxOut \<Rightarrow> bool" where
  "CTxOut_IsNull out \<longleftrightarrow> nValue out = - 1"

definition CTransaction_IsNull :: "CTransaction \<Rightarrow> bool" where
  "CTransaction_IsNull tx \<longleftrightarrow> vin tx = [] \<and> vout tx = []"

definition IsCoinBase :: "CTransaction \<Rightarrow> bool" where
  "IsCoinBase tx \<longleftrightarrow> length (vin tx) = 1 \<and> COutPoint_IsNull (prevout (vin tx ! 0))"

definition HasP2SHOutput :: "CTransaction \<Rightarrow> bool" where
  "HasP2SHOutput tx \<longleftrightarrow> list_ex (\<lambda>out. IsP2SH (scriptPubKey out)) (vout tx)"

text \<open>\<open>None\<close> is the exception.\<close>

fun value_out_loop :: "Amount \<Rightarrow> CTxOut list \<Rightarrow> Amount option" where
  "value_out_loop nValueOut [] = Some nValueOut"
| "value_out_loop nValueOut (out # outs) =
     (let nValueOut = nValueOut + nValue out
      in if \<not> MoneyRange (nValue out) \<or> \<not> MoneyRange nValueOut then None else value_out_loop nValueOut outs)"

definition GetValueOut :: "CTransaction \<Rightarrow> Amount option" where
  "GetValueOut tx = value_out_loop 0 (vout tx)"

subsection \<open>Serialization\<close>

definition COutPoint_Serialize :: "COutPoint \<Rightarrow> ser_error + byte list" where
  "COutPoint_Serialize p = Inr (txid p @ WriteLE32 (outn p))"

definition COutPoint_Unserialize :: "COutPoint reader" where
  "COutPoint_Unserialize s =
     bindE (stream_read 32 s) (\<lambda>(h, s). bindE (ser_readdata32 s) (\<lambda>(n, s). Inr (\<lparr>txid = h, outn = n\<rparr>, s)))"

definition CTxIn_Serialize :: "CTxIn \<Rightarrow> ser_error + byte list" where
  "CTxIn_Serialize i =
     bindE (COutPoint_Serialize (prevout i)) (\<lambda>a. bindE (Serialize_bytes (scriptSig i)) (\<lambda>b.
       Inr (a @ b @ WriteLE32 (nSequence i))))"

definition CTxIn_Unserialize :: "CTxIn reader" where
  "CTxIn_Unserialize s =
     bindE (COutPoint_Unserialize s) (\<lambda>(p, s). bindE (Unserialize_bytes s) (\<lambda>(c, s).
       bindE (ser_readdata32 s) (\<lambda>(n, s). Inr (\<lparr>prevout = p, scriptSig = c, nSequence = n\<rparr>, s))))"

definition CTxOut_Serialize :: "CTxOut \<Rightarrow> ser_error + byte list" where
  "CTxOut_Serialize out =
     bindE (Serialize_bytes (scriptPubKey out)) (\<lambda>b. Inr (WriteLE64 (nValue out) @ b))"

definition CTxOut_Unserialize :: "CTxOut reader" where
  "CTxOut_Unserialize s =
     bindE (ser_readdata64 s) (\<lambda>(v, s). bindE (Unserialize_bytes s) (\<lambda>(c, s).
       Inr (\<lparr>nValue = v, scriptPubKey = c\<rparr>, s)))"

definition SerializeTransaction :: "CTransaction \<Rightarrow> ser_error + byte list" where
  "SerializeTransaction tx =
     bindE (Serialize_vector CTxIn_Serialize (vin tx)) (\<lambda>a.
       bindE (Serialize_vector CTxOut_Serialize (vout tx)) (\<lambda>b.
         Inr (WriteLE32 (nVersion tx) @ a @ b @ WriteLE32 (nLockTime tx))))"

definition UnserializeTransaction :: "nat \<Rightarrow> nat \<Rightarrow> CTransaction reader" where
  "UnserializeTransaction szIn szOut s =
     bindE (ser_readdata32 s) (\<lambda>(v, s). bindE (Unserialize_vector szIn CTxIn_Unserialize s) (\<lambda>(ins, s).
       bindE (Unserialize_vector szOut CTxOut_Unserialize s) (\<lambda>(outs, s).
         bindE (ser_readdata32 s) (\<lambda>(l, s).
           Inr (\<lparr>nVersion = v, vin = ins, vout = outs, nLockTime = l\<rparr>, s)))))"

text \<open>\<open>GetTotalSize\<close> runs the serialization on a \<open>CSizeComputer\<close>, which adds up sizes.\<close>

definition CTxIn_size :: "CTxIn \<Rightarrow> nat" where
  "CTxIn_size i = 36 + (GetSizeOfCompactSize (length (scriptSig i)) + length (scriptSig i)) + 4"

definition CTxOut_size :: "CTxOut \<Rightarrow> nat" where
  "CTxOut_size out = 8 + (GetSizeOfCompactSize (length (scriptPubKey out)) + length (scriptPubKey out))"

definition GetTotalSize :: "CTransaction \<Rightarrow> nat" where
  "GetTotalSize tx =
     4 + (GetSizeOfCompactSize (length (vin tx)) + sum_list (map CTxIn_size (vin tx))) +
     (GetSizeOfCompactSize (length (vout tx)) + sum_list (map CTxOut_size (vout tx))) + 4"

definition GetDustThreshold :: "CTxOut \<Rightarrow> CFeeRate \<Rightarrow> int \<Rightarrow> Amount" where
  "GetDustThreshold out minRelayTxFee dustLimitFactor =
     (if IsUnspendable (scriptPubKey out) then 0
      else let nSize = CTxOut_size out + (32 + 4 + 1 + 107 + 4)
        in amount_div (word_of_int dustLimitFactor * GetFee minRelayTxFee nSize) 100)"

definition IsDust :: "CTxOut \<Rightarrow> CFeeRate \<Rightarrow> int \<Rightarrow> bool" where
  "IsDust out minRelayTxFee dustLimitFactor \<longleftrightarrow>
     sint (nValue out) < sint (GetDustThreshold out minRelayTxFee dustLimitFactor)"

subsection \<open>The transaction id\<close>

definition sha256_of :: "byte list \<Rightarrow> uint256" where
  "sha256_of m = GetSHA256 (hashwriter_write CSHA256_new m)"

definition SerializeHash :: "ser_error + byte list \<Rightarrow> ser_error + uint256" where
  "SerializeHash bytes = bindE bytes (\<lambda>b. Inr (GetHash (hashwriter_write CSHA256_new b)))"

definition output_hash :: "CTxOut \<Rightarrow> uint256" where
  "output_hash out =
     (let script = scriptPubKey out;
          ssOut = hashwriter_write CSHA256_new (WriteLE64 (nValue out));
          ssOut = hashwriter_write ssOut (sha256_of script)
      in case GetStateIterator script of
           None \<Rightarrow> GetSHA256 ssOut
         | Some pc \<Rightarrow>
             GetSHA256 (hashwriter_write (hashwriter_write ssOut (sha256_of (take pc script)))
               (sha256_of (drop pc script))))"

definition ComputeTransactionOutputsHash :: "CTxOut list \<Rightarrow> uint256" where
  "ComputeTransactionOutputsHash outs =
     GetSHA256 (foldl (\<lambda>ss out. hashwriter_write ss (output_hash out)) CSHA256_new outs)"

definition outpoint_bytes :: "COutPoint \<Rightarrow> byte list" where
  "outpoint_bytes p = txid p @ WriteLE32 (outn p)"

definition input_hash :: "CTxIn \<Rightarrow> uint256" where
  "input_hash i =
     GetSHA256 (hashwriter_write (hashwriter_write (hashwriter_write CSHA256_new
       (outpoint_bytes (prevout i))) (sha256_of (scriptSig i))) (WriteLE32 (nSequence i)))"

definition ComputeTransactionInputsHash :: "CTxIn list \<Rightarrow> uint256" where
  "ComputeTransactionInputsHash ins =
     GetSHA256 (foldl (\<lambda>ss i. hashwriter_write ss (input_hash i)) CSHA256_new ins)"

record CRichTransaction =
  richVersion :: u32
  nInputCount :: u32
  hashInputs :: uint256
  nOutputCount :: u32
  hashOutputs :: uint256
  richLockTime :: u32

definition GetRichTransaction :: "CTransaction \<Rightarrow> CRichTransaction" where
  "GetRichTransaction tx =
     \<lparr>richVersion = nVersion tx, nInputCount = word_of_nat (length (vin tx)),
      hashInputs = ComputeTransactionInputsHash (vin tx), nOutputCount = word_of_nat (length (vout tx)),
      hashOutputs = ComputeTransactionOutputsHash (vout tx), richLockTime = nLockTime tx\<rparr>"

definition CRichTransaction_Serialize :: "CRichTransaction \<Rightarrow> ser_error + byte list" where
  "CRichTransaction_Serialize r =
     Inr (WriteLE32 (richVersion r) @ WriteLE32 (nInputCount r) @ hashInputs r @
       WriteLE32 (nOutputCount r) @ hashOutputs r @ WriteLE32 (richLockTime r))"

definition ComputeHash :: "CTransaction \<Rightarrow> ser_error + uint256" where
  "ComputeHash tx =
     (if nVersion tx = 2 then SerializeHash (CRichTransaction_Serialize (GetRichTransaction tx))
      else SerializeHash (SerializeTransaction tx))"

subsection \<open>Round trips\<close>

definition valid_outpoint :: "COutPoint \<Rightarrow> bool" where
  "valid_outpoint p \<longleftrightarrow> length (txid p) = 32"

definition valid_txin :: "CTxIn \<Rightarrow> bool" where
  "valid_txin i \<longleftrightarrow> valid_outpoint (prevout i)"

definition valid_tx :: "CTransaction \<Rightarrow> bool" where
  "valid_tx tx \<longleftrightarrow> list_all valid_txin (vin tx)"

interpretation outpoint: codec valid_outpoint COutPoint_Serialize COutPoint_Unserialize
proof
  fix p bs r assume "valid_outpoint p" "COutPoint_Serialize p = Inr bs"
  then show "COutPoint_Unserialize (bs @ r) = Inr (p, r)"
    by (auto simp: COutPoint_Serialize_def COutPoint_Unserialize_def valid_outpoint_def)
qed (auto simp: COutPoint_Serialize_def COutPoint_Unserialize_def valid_outpoint_def bindE_eq_Inr
    stream_read_eq_Inr read_fixed_eq_Inr)

interpretation txin: codec valid_txin CTxIn_Serialize CTxIn_Unserialize
proof
  fix i bs r assume i: "valid_txin i" "CTxIn_Serialize i = Inr bs"
  then obtain a b where "COutPoint_Serialize (prevout i) = Inr a" "Serialize_bytes (scriptSig i) = Inr b"
      "bs = a @ b @ WriteLE32 (nSequence i)"
    by (auto simp: CTxIn_Serialize_def bindE_eq_Inr)
  with i show "CTxIn_Unserialize (bs @ r) = Inr (i, r)"
    by (simp add: CTxIn_Unserialize_def outpoint.unser_ser bytes.unser_ser valid_txin_def)
next
  fix s i r assume "CTxIn_Unserialize s = Inr (i, r)"
  then obtain s1 s2 where "COutPoint_Unserialize s = Inr (prevout i, s1)"
      "Unserialize_bytes s1 = Inr (scriptSig i, s2)" "s2 = WriteLE32 (nSequence i) @ r"
    by (auto simp: CTxIn_Unserialize_def bindE_eq_Inr read_fixed_eq_Inr)
  then show "valid_txin i \<and> (\<exists>bs. CTxIn_Serialize i = Inr bs \<and> s = bs @ r)"
    by (auto simp: CTxIn_Serialize_def valid_txin_def dest!: outpoint.ser_unser bytes.ser_unser)
qed

interpretation txout: codec "\<lambda>_. True" CTxOut_Serialize CTxOut_Unserialize
proof
  fix i bs r assume "CTxOut_Serialize i = Inr bs"
  then obtain b where "Serialize_bytes (scriptPubKey i) = Inr b" "bs = WriteLE64 (nValue i) @ b"
    by (auto simp: CTxOut_Serialize_def bindE_eq_Inr)
  then show "CTxOut_Unserialize (bs @ r) = Inr (i, r)"
    by (simp add: CTxOut_Unserialize_def bytes.unser_ser)
next
  fix s i r assume "CTxOut_Unserialize s = Inr (i, r)"
  then obtain s1 where "s = WriteLE64 (nValue i) @ s1" "Unserialize_bytes s1 = Inr (scriptPubKey i, r)"
    by (auto simp: CTxOut_Unserialize_def bindE_eq_Inr read_fixed_eq_Inr)
  then show "True \<and> (\<exists>bs. CTxOut_Serialize i = Inr bs \<and> s = bs @ r)"
    by (auto simp: CTxOut_Serialize_def dest!: bytes.ser_unser)
qed

interpretation txins: codec "list_all valid_txin" "Serialize_vector CTxIn_Serialize"
    "Unserialize_vector szIn CTxIn_Unserialize" for szIn
  by (rule txin.vector_codec)

interpretation txouts: codec "list_all (\<lambda>_. True)" "Serialize_vector CTxOut_Serialize"
    "Unserialize_vector szOut CTxOut_Unserialize" for szOut
  by (rule txout.vector_codec)

interpretation tx: codec valid_tx SerializeTransaction "UnserializeTransaction szIn szOut" for szIn szOut
proof
  fix t bs r assume t: "valid_tx t" "SerializeTransaction t = Inr bs"
  then obtain a b where "Serialize_vector CTxIn_Serialize (vin t) = Inr a"
      "Serialize_vector CTxOut_Serialize (vout t) = Inr b"
      "bs = WriteLE32 (nVersion t) @ a @ b @ WriteLE32 (nLockTime t)"
    by (auto simp: SerializeTransaction_def bindE_eq_Inr)
  with t show "UnserializeTransaction szIn szOut (bs @ r) = Inr (t, r)"
    by (simp add: UnserializeTransaction_def txins.unser_ser txouts.unser_ser valid_tx_def list_all_iff)
next
  fix s t r assume "UnserializeTransaction szIn szOut s = Inr (t, r)"
  then obtain s1 s2 s3 where "s = WriteLE32 (nVersion t) @ s1"
      "Unserialize_vector szIn CTxIn_Unserialize s1 = Inr (vin t, s2)"
      "Unserialize_vector szOut CTxOut_Unserialize s2 = Inr (vout t, s3)" "s3 = WriteLE32 (nLockTime t) @ r"
    by (auto simp: UnserializeTransaction_def bindE_eq_Inr read_fixed_eq_Inr)
  then show "valid_tx t \<and> (\<exists>bs. SerializeTransaction t = Inr bs \<and> s = bs @ r)"
    by (auto simp: SerializeTransaction_def valid_tx_def dest!: txins.ser_unser txouts.ser_unser)
qed

text \<open>C7. Transactions survive the wire: a transaction is read from a stream exactly if the stream
  starts with its serialization, however the vectors are grown while reading, and the rest of the
  stream is left untouched.  In particular no two transactions share an encoding, and none is a
  prefix of another's.\<close>

theorem transaction_roundtrip:
  "UnserializeTransaction szIn szOut s = Inr (tx, r) \<longleftrightarrow>
     valid_tx tx \<and> (\<exists>bs. SerializeTransaction tx = Inr bs \<and> s = bs @ r)"
  using tx.ser_unser tx.unser_ser by blast

lemma Serialize_bytes_size: "Serialize_bytes v = Inr b \<Longrightarrow> length b = GetSizeOfCompactSize (length v) + length v"
  by (auto simp: Serialize_bytes_def bindE_eq_Inr WriteCompactSize_size)

lemma serialize_all_size:
  assumes "serialize_all ser v = Inr b" "\<And>a x. a \<in> set v \<Longrightarrow> ser a = Inr x \<Longrightarrow> length x = sz a"
  shows "length b = sum_list (map sz v)"
  using assms by (induction v arbitrary: b) (auto simp: bindE_eq_Inr)

lemma Serialize_vector_size:
  assumes "Serialize_vector ser v = Inr b" "\<And>a x. a \<in> set v \<Longrightarrow> ser a = Inr x \<Longrightarrow> length x = sz a"
  shows "length b = GetSizeOfCompactSize (length v) + sum_list (map sz v)"
  using assms serialize_all_size [of ser v _ sz]
  by (auto simp: Serialize_vector_def bindE_eq_Inr WriteCompactSize_size)

lemma GetTotalSize_length:
  assumes "valid_tx tx" "SerializeTransaction tx = Inr bs"
  shows "length bs = GetTotalSize tx"
proof -
  obtain a b where ab: "Serialize_vector CTxIn_Serialize (vin tx) = Inr a"
      "Serialize_vector CTxOut_Serialize (vout tx) = Inr b"
      "bs = WriteLE32 (nVersion tx) @ a @ b @ WriteLE32 (nLockTime tx)"
    using assms by (auto simp: SerializeTransaction_def bindE_eq_Inr)
  have "length a = GetSizeOfCompactSize (length (vin tx)) + sum_list (map CTxIn_size (vin tx))"
    using assms(1) by (intro Serialize_vector_size [OF ab(1)])
      (auto simp: CTxIn_Serialize_def COutPoint_Serialize_def bindE_eq_Inr CTxIn_size_def valid_tx_def
        valid_txin_def valid_outpoint_def list_all_iff Serialize_bytes_size)
  moreover have "length b = GetSizeOfCompactSize (length (vout tx)) + sum_list (map CTxOut_size (vout tx))"
    by (intro Serialize_vector_size [OF ab(2)])
      (auto simp: CTxOut_Serialize_def bindE_eq_Inr CTxOut_size_def Serialize_bytes_size)
  ultimately show ?thesis by (simp add: ab(3) GetTotalSize_def)
qed

subsection \<open>Sums of amounts\<close>

lemma MAX_MONEY_value: "sint MAX_MONEY = 8400000000000000"
  by (simp add: MAX_MONEY_def COIN_def)

lemma MoneyRange_iff: "MoneyRange v \<longleftrightarrow> 0 \<le> sint v \<and> sint v \<le> 8400000000000000"
  by (simp add: MoneyRange_def MAX_MONEY_value)

lemma MoneyRange_add:
  assumes "MoneyRange a" "MoneyRange b"
  shows "sint (a + b) = sint a + sint b"
  using assms by (simp add: MoneyRange_iff sint_word_ariths signed_take_bit_int_eq_self)

lemma value_out_loop_exact:
  assumes "MoneyRange a"
  shows "value_out_loop a outs = Some v \<longleftrightarrow>
    list_all (\<lambda>out. MoneyRange (nValue out)) outs \<and> MoneyRange v \<and>
    sint v = sint a + (\<Sum>out\<leftarrow>outs. sint (nValue out))"
  using assms
proof (induction outs arbitrary: a)
  case Nil
  then show ?case by (auto intro: signed_word_eqI [OF sym])
next
  case (Cons out outs)
  show ?case
  proof (cases "MoneyRange (nValue out)")
    case True
    have pos: "0 \<le> (\<Sum>out\<leftarrow>outs. sint (nValue out))" if "list_all (\<lambda>out. MoneyRange (nValue out)) outs"
      using that by (induction outs) (auto simp: MoneyRange_iff)
    have add: "sint (a + nValue out) = sint a + sint (nValue out)" using Cons.prems True by (rule MoneyRange_add)
    show ?thesis
    proof (cases "MoneyRange (a + nValue out)")
      case True
      then show ?thesis using Cons.IH [OF True] \<open>MoneyRange (nValue out)\<close> add by (auto simp: Let_def)
    next
      case False
      then show ?thesis using pos add Cons.prems \<open>MoneyRange (nValue out)\<close> by (auto simp: MoneyRange_iff Let_def)
    qed
  qed (simp add: Let_def)
qed

lemma sint_word_of_int_eq:
  "- (2 ^ 63) \<le> k \<Longrightarrow> k < 2 ^ 63 \<Longrightarrow> sint (word_of_int k :: i64) = k"
  by (simp add: sint_sbintrunc' signed_take_bit_int_eq_self)

lemma sint_amount_div:
  assumes "0 < k"
  shows "sint (amount_div a k) = sgn (sint a) * (\<bar>sint a\<bar> div k)"
proof -
  define q where "q = \<bar>sint a\<bar> div k"
  have "q \<le> \<bar>sint a\<bar>" using zdiv_mono2 [of "\<bar>sint a\<bar>" 1 k] assms by (simp add: q_def)
  moreover have "0 \<le> q" using assms by (simp add: q_def pos_imp_zdiv_nonneg_iff)
  moreover have "- (2 ^ 63) \<le> sint a" "sint a < 2 ^ 63" using sint_range_size [of a] by (simp_all add: word_size)
  ultimately have "sint (word_of_int (sgn (sint a) * q) :: i64) = sgn (sint a) * q"
    by (intro sint_word_of_int_eq) (auto simp: sgn_if)
  with assms show ?thesis by (simp add: amount_div_def q_def)
qed

lemma GetFee_exact:
  assumes "0 \<le> sint r" "int n * sint r < 2 ^ 63"
  shows "sint (GetFee r n) =
    (if int n * sint r < 1000 \<and> 0 < n \<and> 0 < sint r then 1 else int n * sint r div 1000)"
proof -
  have "0 \<le> int n * sint r" using assms(1) by simp
  moreover have "word_of_int (int n) * r = word_of_int (int n * sint r)" by simp
  ultimately have p: "sint (word_of_int (int n) * r) = int n * sint r"
    using assms(2) by (simp only: sint_sbintrunc' signed_take_bit_int_eq_self) (simp add: signed_take_bit_int_eq_self)
  then have f: "sint (amount_div (word_of_int (int n) * r) 1000) = int n * sint r div 1000"
    using \<open>0 \<le> int n * sint r\<close> by (simp add: sint_amount_div sgn_if)
  moreover have "amount_div (word_of_int (int n) * r) 1000 = 0 \<longleftrightarrow> int n * sint r div 1000 = 0"
    using f signed_word_eqI [of "amount_div (word_of_int (int n) * r) 1000" 0] by auto
  moreover have "int n * sint r div 1000 = 0 \<longleftrightarrow> int n * sint r < 1000"
    using \<open>0 \<le> int n * sint r\<close> by (auto simp: zdiv_eq_0_iff)
  ultimately show ?thesis
    using assms(1) by (auto simp: GetFee_def Let_def)
qed

text \<open>C8. \<open>GetValueOut\<close> returns the exact sum of the outputs and throws in every other case: it succeeds
  if and only if each output value and their mathematical sum are between 0 and \<open>MAX_MONEY\<close>, so the
  64-bit additions cannot be abused by wrapping around.\<close>

theorem GetValueOut_exact:
  "GetValueOut tx = Some v \<longleftrightarrow>
     list_all (\<lambda>out. MoneyRange (nValue out)) (vout tx) \<and> MoneyRange v \<and>
     sint v = (\<Sum>out\<leftarrow>vout tx. sint (nValue out))"
  using value_out_loop_exact [of 0 "vout tx" v] by (simp add: GetValueOut_def MoneyRange_iff)

lemma write_inj [simp]: "WriteLE32 x = WriteLE32 y \<longleftrightarrow> x = y" "WriteLE64 v = WriteLE64 w \<longleftrightarrow> v = w"
  using read_write(2) [where r = "[]"] read_write(3) [where r = "[]"] by (metis append_Nil2)+

subsection \<open>What the transaction id commits to\<close>

text \<open>Two lists of messages that SHA-256 was applied to contain a collision.\<close>

definition collision :: "byte list list \<Rightarrow> byte list list \<Rightarrow> bool" where
  "collision A B \<longleftrightarrow> (\<exists>x \<in> set A. \<exists>y \<in> set B. x \<noteq> y \<and> sha256_digest x = sha256_digest y)"

lemma no_collision:
  "\<not> collision A B \<Longrightarrow> x \<in> set A \<Longrightarrow> y \<in> set B \<Longrightarrow> sha256_digest x = sha256_digest y \<Longrightarrow> x = y"
  by (auto simp: collision_def)

lemma GetSHA256_hasher: "sha256_hasher m h \<Longrightarrow> GetSHA256 h = sha256_digest m"
  by (simp add: GetSHA256_def CSHA256_Finalize_hasher)

lemma hashwriter_hasher: "sha256_hasher m h \<Longrightarrow> sha256_hasher (m @ b) (hashwriter_write h b)"
  by (simp add: hashwriter_write_def CSHA256_Write_hasher)

lemma hashwriter_foldl:
  "sha256_hasher m h \<Longrightarrow> sha256_hasher (m @ concat (map f xs)) (foldl (\<lambda>ss a. hashwriter_write ss (f a)) h xs)"
proof (induction xs arbitrary: m h)
  case (Cons a xs)
  from Cons.IH [OF hashwriter_hasher [OF Cons.prems, of "f a"]] show ?case by simp
qed simp

lemmas new_hasher = hashwriter_hasher [OF CSHA256_new_hasher, unfolded append_Nil]

lemma sha256_of_digest: "sha256_of m = sha256_digest m"
  by (simp add: sha256_of_def GetSHA256_hasher [OF new_hasher])

lemma SerializeHash_digest: "SerializeHash (Inr b) = Inr (sha256_digest (sha256_digest b))"
  by (simp add: SerializeHash_def GetHash_hasher [OF new_hasher])

text \<open>The messages hashed for an output, an input and a transaction.\<close>

definition output_preimage :: "CTxOut \<Rightarrow> byte list" where
  "output_preimage out =
     WriteLE64 (nValue out) @ sha256_digest (scriptPubKey out) @
     (case GetStateIterator (scriptPubKey out) of None \<Rightarrow> []
      | Some pc \<Rightarrow> sha256_digest (take pc (scriptPubKey out)) @ sha256_digest (drop pc (scriptPubKey out)))"

definition input_preimage :: "CTxIn \<Rightarrow> byte list" where
  "input_preimage i =
     outpoint_bytes (prevout i) @ sha256_digest (scriptSig i) @ WriteLE32 (nSequence i)"

definition inputs_preimage :: "CTxIn list \<Rightarrow> byte list" where
  "inputs_preimage ins = concat (map (\<lambda>i. sha256_digest (input_preimage i)) ins)"

definition outputs_preimage :: "CTxOut list \<Rightarrow> byte list" where
  "outputs_preimage outs = concat (map (\<lambda>out. sha256_digest (output_preimage out)) outs)"

definition id_preimage :: "CTransaction \<Rightarrow> ser_error + byte list" where
  "id_preimage tx =
     (if nVersion tx = 2 then CRichTransaction_Serialize (GetRichTransaction tx) else SerializeTransaction tx)"

definition id_messages :: "CTransaction \<Rightarrow> byte list list" where
  "id_messages tx =
     map scriptSig (vin tx) @ map input_preimage (vin tx) @ [inputs_preimage (vin tx)] @
     map scriptPubKey (vout tx) @ map output_preimage (vout tx) @ [outputs_preimage (vout tx)] @
     (case id_preimage tx of Inl _ \<Rightarrow> [] | Inr b \<Rightarrow> [b, sha256_digest b])"

lemma output_hash_digest: "output_hash out = sha256_digest (output_preimage out)"
proof (cases "GetStateIterator (scriptPubKey out)")
  case None
  then show ?thesis
    by (simp add: output_hash_def output_preimage_def sha256_of_digest GetSHA256_hasher [OF hashwriter_hasher [OF new_hasher]])
next
  case (Some pc)
  then show ?thesis
    by (simp add: output_hash_def Let_def output_preimage_def sha256_of_digest
        GetSHA256_hasher [OF hashwriter_hasher [OF hashwriter_hasher [OF hashwriter_hasher [OF new_hasher]]]])
qed

lemma input_hash_digest: "input_hash i = sha256_digest (input_preimage i)"
  by (simp add: input_hash_def input_preimage_def sha256_of_digest
      GetSHA256_hasher [OF hashwriter_hasher [OF hashwriter_hasher [OF new_hasher]]])

lemma vector_hashes:
  "ComputeTransactionInputsHash ins = sha256_digest (inputs_preimage ins)"
  "ComputeTransactionOutputsHash outs = sha256_digest (outputs_preimage outs)"
  using GetSHA256_hasher [OF hashwriter_foldl [OF CSHA256_new_hasher]]
  by (simp_all add: ComputeTransactionInputsHash_def ComputeTransactionOutputsHash_def inputs_preimage_def
      outputs_preimage_def input_hash_digest output_hash_digest)

lemma ComputeHash_digest:
  "ComputeHash tx = bindE (id_preimage tx) (\<lambda>b. Inr (sha256_digest (sha256_digest b)))"
  by (cases "id_preimage tx") (auto simp: ComputeHash_def id_preimage_def SerializeHash_digest,
      simp_all add: SerializeHash_def)

lemma concat_fixed_inj:
  assumes "concat xs = concat ys" "\<And>x. x \<in> set xs \<union> set ys \<Longrightarrow> length x = n" "0 < n"
  shows "xs = ys"
  using assms
proof (induction xs arbitrary: ys)
  case Nil
  then show ?case by (cases ys) auto
next
  case (Cons x xs)
  then show ?case by (cases ys) auto
qed

lemma input_preimage_inj:
  assumes "\<not> collision A B" "scriptSig i \<in> set A" "scriptSig j \<in> set B" "valid_txin i" "valid_txin j"
    "input_preimage i = input_preimage j"
  shows "i = j"
proof -
  have "txid (prevout i) = txid (prevout j)" "outn (prevout i) = outn (prevout j)"
      "sha256_digest (scriptSig i) = sha256_digest (scriptSig j)" "nSequence i = nSequence j"
    using assms(4-6) by (auto simp: input_preimage_def outpoint_bytes_def valid_txin_def valid_outpoint_def)
  with no_collision [OF assms(1-3)] show ?thesis by simp
qed

lemma output_preimage_inj:
  assumes "\<not> collision A B" "scriptPubKey i \<in> set A" "scriptPubKey j \<in> set B"
    "output_preimage i = output_preimage j"
  shows "i = j"
proof -
  have "nValue i = nValue j" "sha256_digest (scriptPubKey i) = sha256_digest (scriptPubKey j)"
    using assms(4) by (auto simp: output_preimage_def)
  with no_collision [OF assms(1-3)] show ?thesis by simp
qed

lemma map_inj_messages:
  assumes "map f xs = map f ys" "\<And>x y. x \<in> set xs \<Longrightarrow> y \<in> set ys \<Longrightarrow> f x = f y \<Longrightarrow> x = y"
  shows "xs = ys"
  using assms
proof (induction xs arbitrary: ys)
  case (Cons x xs)
  then show ?case by (cases ys) auto
qed simp

lemma inputs_preimage_inj:
  assumes "\<not> collision A B" "inputs_preimage xs = inputs_preimage ys"
    "scriptSig ` set xs \<subseteq> set A" "scriptSig ` set ys \<subseteq> set B"
    "input_preimage ` set xs \<subseteq> set A" "input_preimage ` set ys \<subseteq> set B"
    "list_all valid_txin xs" "list_all valid_txin ys"
  shows "xs = ys"
proof -
  have "map (\<lambda>i. sha256_digest (input_preimage i)) xs = map (\<lambda>i. sha256_digest (input_preimage i)) ys"
    using assms(2) by (intro concat_fixed_inj [where n = 32]) (auto simp: inputs_preimage_def)
  then show ?thesis
  proof (rule map_inj_messages)
    fix x y assume xy: "x \<in> set xs" "y \<in> set ys" "sha256_digest (input_preimage x) = sha256_digest (input_preimage y)"
    have "input_preimage x = input_preimage y" by (rule no_collision [OF assms(1)]) (use xy assms(5,6) in auto)
    with xy assms(3,4,7,8) show "x = y"
      by (intro input_preimage_inj [OF assms(1)]) (auto simp: list_all_iff)
  qed
qed

lemma outputs_preimage_inj:
  assumes "\<not> collision A B" "outputs_preimage xs = outputs_preimage ys"
    "scriptPubKey ` set xs \<subseteq> set A" "scriptPubKey ` set ys \<subseteq> set B"
    "output_preimage ` set xs \<subseteq> set A" "output_preimage ` set ys \<subseteq> set B"
  shows "xs = ys"
proof -
  have "map (\<lambda>i. sha256_digest (output_preimage i)) xs = map (\<lambda>i. sha256_digest (output_preimage i)) ys"
    using assms(2) by (intro concat_fixed_inj [where n = 32]) (auto simp: outputs_preimage_def)
  then show ?thesis
  proof (rule map_inj_messages)
    fix x y assume xy: "x \<in> set xs" "y \<in> set ys" "sha256_digest (output_preimage x) = sha256_digest (output_preimage y)"
    have "output_preimage x = output_preimage y" by (rule no_collision [OF assms(1)]) (use xy assms(5,6) in auto)
    with xy assms(3,4) show "x = y"
      by (intro output_preimage_inj [OF assms(1)]) auto
  qed
qed

lemma id_preimage_version:
  assumes "id_preimage t = Inr b"
  shows "\<exists>r. b = WriteLE32 (nVersion t) @ r"
proof (cases "nVersion t = 2")
  case True
  with assms show ?thesis
    by (simp add: id_preimage_def CRichTransaction_Serialize_def GetRichTransaction_def)
      (blast intro: sym)
next
  case False
  with assms show ?thesis
    by (simp add: id_preimage_def SerializeTransaction_def bindE_eq_Inr) (blast intro: sym)
qed

lemma id_messages_parts:
  "scriptSig ` set (vin t) \<subseteq> set (id_messages t)" "input_preimage ` set (vin t) \<subseteq> set (id_messages t)"
  "scriptPubKey ` set (vout t) \<subseteq> set (id_messages t)" "output_preimage ` set (vout t) \<subseteq> set (id_messages t)"
  by (simp_all add: id_messages_def image_subset_iff)

lemma id_determines_tx:
  assumes "valid_tx t" "valid_tx u" "ComputeHash t = Inr h" "ComputeHash u = Inr h"
  shows "t = u \<or> collision (id_messages t) (id_messages u)"
proof (rule disjCI)
  assume nc: "\<not> collision (id_messages t) (id_messages u)"
  obtain b c where bc: "id_preimage t = Inr b" "id_preimage u = Inr c"
      "sha256_digest (sha256_digest b) = sha256_digest (sha256_digest c)"
    using assms(3,4) by (auto simp: ComputeHash_digest bindE_eq_Inr)
  have m: "{b, sha256_digest b} \<subseteq> set (id_messages t)" "{c, sha256_digest c} \<subseteq> set (id_messages u)"
    using bc(1,2) by (simp_all add: id_messages_def)
  have d: "sha256_digest b = sha256_digest c" by (rule no_collision [OF nc _ _ bc(3)]) (use m in simp_all)
  have "b = c" by (rule no_collision [OF nc _ _ d]) (use m in simp_all)
  with id_preimage_version [OF bc(1)] id_preimage_version [OF bc(2)] have v: "nVersion t = nVersion u" by auto
  show "t = u"
  proof (cases "nVersion t = 2")
    case True
    with v bc \<open>b = c\<close> have d:
      "sha256_digest (inputs_preimage (vin t)) = sha256_digest (inputs_preimage (vin u))"
      "sha256_digest (outputs_preimage (vout t)) = sha256_digest (outputs_preimage (vout u))"
      and l: "nLockTime t = nLockTime u"
      by (auto simp: id_preimage_def CRichTransaction_Serialize_def GetRichTransaction_def vector_hashes)
    have "inputs_preimage (vin t) = inputs_preimage (vin u)"
      by (rule no_collision [OF nc _ _ d(1)]) (simp_all add: id_messages_def)
    moreover have "outputs_preimage (vout t) = outputs_preimage (vout u)"
      by (rule no_collision [OF nc _ _ d(2)]) (simp_all add: id_messages_def)
    ultimately have "vin t = vin u" "vout t = vout u"
      using assms(1,2) id_messages_parts [of t] id_messages_parts [of u]
      by (intro inputs_preimage_inj [OF nc] outputs_preimage_inj [OF nc]; simp add: valid_tx_def)+
    with v l show ?thesis by simp
  next
    case False
    with v bc \<open>b = c\<close> have "SerializeTransaction t = Inr b" "SerializeTransaction u = Inr b"
      by (auto simp: id_preimage_def)
    with tx.ser_prefix_free [OF assms(1,2), of b b "[]" "[]"] show ?thesis by simp
  qed
qed

text \<open>C6. The transaction id commits to the whole transaction, for both id formats: transactions
  with the same id are equal in every field (scripts of the inputs included), unless among the
  messages hashed for the two ids there are two different ones with the same SHA-256 digest.\<close>

theorem ComputeHash_commits:
  assumes "valid_tx t" "valid_tx u" "ComputeHash t = Inr h" "ComputeHash u = Inr h"
  shows "t = u \<or> collision (id_messages t) (id_messages u)"
  using assms by (rule id_determines_tx)

theorem ComputeHash_commits_witness:
  "\<exists>h t. ComputeHash t = Inr h \<and> nLockTime t = 7 \<and> (t = t \<or> collision (id_messages t) (id_messages t))"
proof -
  let ?t = "\<lparr>nVersion = 2, vin = [], vout = [], nLockTime = 7\<rparr>"
  obtain h where "ComputeHash ?t = Inr h"
    by (simp add: ComputeHash_def SerializeHash_def CRichTransaction_Serialize_def)
  moreover from this ComputeHash_commits [of ?t ?t h] have "?t = ?t \<or> collision (id_messages ?t) (id_messages ?t)"
    by (simp add: valid_tx_def)
  ultimately show ?thesis by (intro exI [of _ h] exI [of _ ?t]) simp
qed

end
