(* ===== verification/Pubkey.thy ===== *)
theory Pubkey
  imports Script_Checks Hashers
begin

text \<open>
  Public keys, \<open>src/src/pubkey.h\<close> and \<open>pubkey.cpp\<close>.  A key is the byte string the object
  exposes through \<open>begin\<close>, \<open>end\<close> and \<open>size\<close>; an invalid key exposes none.  The curve arithmetic
  of libsecp256k1 is a record of functions, with points of type \<open>'p\<close> and parsed signatures
  of type \<open>'s\<close>.
\<close>

subsection \<open>The elliptic curve library\<close>

record ('p, 's) secp256k1 =
  ec_pubkey_parse :: "byte list \<Rightarrow> 'p option"
  ec_pubkey_serialize :: "bool \<Rightarrow> 'p \<Rightarrow> byte list" \<comment> \<open>compressed or not\<close>
  ec_pubkey_tweak_add :: "byte list \<Rightarrow> 'p \<Rightarrow> 'p option"
  signature_parse_compact :: "byte list \<Rightarrow> bool \<times> 's"
  signature_normalize :: "'s \<Rightarrow> bool \<times> 's"
  ecdsa_verify :: "'s \<Rightarrow> byte list \<Rightarrow> 'p \<Rightarrow> bool"
  ecdsa_recover :: "byte list \<Rightarrow> nat \<Rightarrow> byte list \<Rightarrow> 'p option" \<comment> \<open>compact signature, id, hash\<close>

subsection \<open>Keys\<close>

type_synonym CPubKey = "byte list"

definition GetLen :: "byte \<Rightarrow> nat" where
  "GetLen chHeader =
     (if chHeader = 2 \<or> chHeader = 3 then 33
      else if chHeader = 4 \<or> chHeader = 6 \<or> chHeader = 7 then 65 else 0)"

definition CPubKey_Set :: "byte list \<Rightarrow> CPubKey" where
  "CPubKey_Set data =
     (let len = (if data = [] then 0 else GetLen (data ! 0))
      in if len \<noteq> 0 \<and> len = length data then data else [])"

definition CPubKey_IsValid :: "CPubKey \<Rightarrow> bool" where
  "CPubKey_IsValid k \<longleftrightarrow> length k > 0"

definition CPubKey_IsCompressed :: "CPubKey \<Rightarrow> bool" where
  "CPubKey_IsCompressed k \<longleftrightarrow> length k = 33"

definition CPubKey_GetID :: "CPubKey \<Rightarrow> byte list" where
  "CPubKey_GetID k = Hash160 k"

definition CPubKey_GetHash :: "CPubKey \<Rightarrow> byte list" where
  "CPubKey_GetHash k = Hash k"

subsection \<open>Lax DER\<close>

text \<open>Skipping zero bytes, and a big-endian length.\<close>

fun skip_zeros :: "byte list \<Rightarrow> nat \<Rightarrow> nat \<Rightarrow> nat \<times> nat" where
  "skip_zeros input pos 0 = (pos, 0)"
| "skip_zeros input pos (Suc n) = (if input ! pos = 0 then skip_zeros input (pos + 1) n else (pos, Suc n))"

fun read_be :: "byte list \<Rightarrow> nat \<Rightarrow> nat \<Rightarrow> nat \<Rightarrow> nat \<times> nat" where
  "read_be input pos 0 len = (pos, len)"
| "read_be input pos (Suc n) len = read_be input (pos + 1) n (push_bit 8 len + unat (input ! pos))"

text \<open>One integer: its position and length, and the position after it.\<close>

definition der_lax_integer :: "byte list \<Rightarrow> nat \<Rightarrow> (nat \<times> nat \<times> nat) option" where
  "der_lax_integer input pos =
     (let inputlen = length input
      in if pos = inputlen \<or> input ! pos \<noteq> 0x02 then None
         else let pos = pos + 1
           in if pos = inputlen then None
              else let lenbyte = unat (input ! pos); pos = pos + 1;
                       r = (if lenbyte AND 0x80 \<noteq> 0 then
                              let lenbyte = lenbyte - 0x80
                              in if pos + lenbyte > inputlen then None
                                 else let (pos, lenbyte) = skip_zeros input pos lenbyte
                                   in if lenbyte \<ge> 8 then None else Some (read_be input pos lenbyte 0)
                            else Some (pos, lenbyte))
                in case r of None \<Rightarrow> None
                   | Some (pos, len) \<Rightarrow> if len > inputlen - pos then None else Some (pos, len, pos + len))"

definition der_lax_integers :: "byte list \<Rightarrow> (byte list \<times> byte list) option" where
  "der_lax_integers input =
     (let inputlen = length input; pos = 0
      in if pos = inputlen \<or> input ! pos \<noteq> 0x30 then None
         else let pos = pos + 1
           in if pos = inputlen then None
              else let lenbyte = unat (input ! pos); pos = pos + 1
                in if lenbyte AND 0x80 \<noteq> 0 \<and> pos + (lenbyte - 0x80) > inputlen then None
                   else let pos = (if lenbyte AND 0x80 \<noteq> 0 then pos + (lenbyte - 0x80) else pos)
                     in case der_lax_integer input pos of None \<Rightarrow> None
                        | Some (rpos, rlen, pos) \<Rightarrow>
                            (case der_lax_integer input pos of None \<Rightarrow> None
                             | Some (spos, slen, pos) \<Rightarrow>
                                 let (rpos, rlen) = skip_zeros input rpos rlen;
                                     (spos, slen) = skip_zeros input spos slen
                                 in Some (take rlen (drop rpos input), take slen (drop spos input))))"

definition compact_half :: "byte list \<Rightarrow> byte list" where
  "compact_half v = (if length v > 32 then replicate 32 0 else replicate (32 - length v) 0 @ v)"

definition ecdsa_signature_parse_der_lax :: "('p, 's) secp256k1 \<Rightarrow> byte list \<Rightarrow> 's option" where
  "ecdsa_signature_parse_der_lax S input =
     (case der_lax_integers input of None \<Rightarrow> None
      | Some (r, s) \<Rightarrow>
          let overflow = (length r > 32 \<or> length s > 32);
              tmpsig = compact_half r @ compact_half s;
              parsed = signature_parse_compact S tmpsig
          in if \<not> overflow \<and> fst parsed then Some (snd parsed)
             else Some (snd (signature_parse_compact S (replicate 64 0))))"

subsection \<open>Verification\<close>

definition CPubKey_Verify :: "('p, 's) secp256k1 \<Rightarrow> CPubKey \<Rightarrow> byte list \<Rightarrow> valtype \<Rightarrow> bool" where
  "CPubKey_Verify S k hash vchSig =
     (if \<not> CPubKey_IsValid k then False
      else case ec_pubkey_parse S k of None \<Rightarrow> False
        | Some pubkey \<Rightarrow>
            if length vchSig = 0 then False
            else case ecdsa_signature_parse_der_lax S vchSig of None \<Rightarrow> False
              | Some sig \<Rightarrow> ecdsa_verify S (snd (signature_normalize S sig)) hash pubkey)"

definition CPubKey_CheckLowS :: "('p, 's) secp256k1 \<Rightarrow> valtype \<Rightarrow> bool" where
  "CPubKey_CheckLowS S vchSig =
     (case ecdsa_signature_parse_der_lax S vchSig of None \<Rightarrow> False
      | Some sig \<Rightarrow> \<not> fst (signature_normalize S sig))"

definition CPubKey_RecoverCompact :: "('p, 's) secp256k1 \<Rightarrow> byte list \<Rightarrow> valtype \<Rightarrow> CPubKey option" where
  "CPubKey_RecoverCompact S hash vchSig =
     (if length vchSig \<noteq> 65 then None
      else let recid = nat ((int (unat (vchSig ! 0)) - 27) AND 3);
               fComp = ((int (unat (vchSig ! 0)) - 27) AND 4 \<noteq> 0)
        in case ecdsa_recover S (drop 1 vchSig) recid hash of None \<Rightarrow> None
           | Some pubkey \<Rightarrow> Some (CPubKey_Set (ec_pubkey_serialize S fComp pubkey)))"

definition CPubKey_IsFullyValid :: "('p, 's) secp256k1 \<Rightarrow> CPubKey \<Rightarrow> bool" where
  "CPubKey_IsFullyValid S k \<longleftrightarrow> CPubKey_IsValid k \<and> ec_pubkey_parse S k \<noteq> None"

definition CPubKey_Decompress :: "('p, 's) secp256k1 \<Rightarrow> CPubKey \<Rightarrow> CPubKey option" where
  "CPubKey_Decompress S k =
     (if \<not> CPubKey_IsValid k then None
      else case ec_pubkey_parse S k of None \<Rightarrow> None
        | Some pubkey \<Rightarrow> Some (CPubKey_Set (ec_pubkey_serialize S False pubkey)))"

text \<open>\<open>Inl\<close> is a failed assertion; the child's chain code is set even if the derivation fails.\<close>

definition CPubKey_Derive ::
  "('p, 's) secp256k1 \<Rightarrow> CPubKey \<Rightarrow> u32 \<Rightarrow> byte list \<Rightarrow> unit + CPubKey option \<times> byte list" where
  "CPubKey_Derive S k nChild cc =
     (if \<not> CPubKey_IsValid k \<or> drop_bit 31 nChild \<noteq> 0 \<or> length k \<noteq> 33 then Inl ()
      else let out = BIP32Hash cc nChild (k ! 0) (drop 1 k); ccChild = take 32 (drop 32 out)
        in case ec_pubkey_parse S k of None \<Rightarrow> Inr (None, ccChild)
           | Some pubkey \<Rightarrow>
               (case ec_pubkey_tweak_add S (take 32 out) pubkey of None \<Rightarrow> Inr (None, ccChild)
                | Some pubkey \<Rightarrow> Inr (Some (CPubKey_Set (ec_pubkey_serialize S True pubkey)), ccChild)))"

subsection \<open>Extended keys\<close>

record CExtPubKey =
  nDepth :: byte
  vchFingerprint :: "byte list"
  nChild :: u32
  chaincode :: "byte list"
  pubkey :: CPubKey

definition CExtPubKey_Encode :: "CExtPubKey \<Rightarrow> byte list option" where
  "CExtPubKey_Encode k =
     (if length (pubkey k) \<noteq> 33 then None
      else Some ([nDepth k] @ vchFingerprint k @
        [ucast (drop_bit 24 (nChild k) AND 0xFF), ucast (drop_bit 16 (nChild k) AND 0xFF),
         ucast (drop_bit 8 (nChild k) AND 0xFF), ucast (nChild k AND 0xFF)] @ chaincode k @ pubkey k))"

definition CExtPubKey_Decode :: "byte list \<Rightarrow> CExtPubKey" where
  "CExtPubKey_Decode code =
     \<lparr>nDepth = code ! 0, vchFingerprint = take 4 (drop 1 code),
      nChild = push_bit 24 (ucast (code ! 5)) OR push_bit 16 (ucast (code ! 6)) OR
        push_bit 8 (ucast (code ! 7)) OR ucast (code ! 8),
      chaincode = take 32 (drop 9 code), pubkey = CPubKey_Set (take 33 (drop 41 code))\<rparr>"

definition CExtPubKey_Derive ::
  "('p, 's) secp256k1 \<Rightarrow> CExtPubKey \<Rightarrow> CExtPubKey \<Rightarrow> u32 \<Rightarrow> unit + (CExtPubKey \<times> bool)" where
  "CExtPubKey_Derive S k out child =
     bindE (CPubKey_Derive S (pubkey k) child (chaincode k)) (\<lambda>(key, cc).
       Inr (\<lparr>nDepth = nDepth k + 1, vchFingerprint = take 4 (CPubKey_GetID (pubkey k)), nChild = child,
          chaincode = cc, pubkey = (case key of None \<Rightarrow> pubkey out | Some key \<Rightarrow> key)\<rparr>, key \<noteq> None))"

subsection \<open>Strict signatures under the lax parser\<close>

definition strip_zeros :: "byte list \<Rightarrow> byte list" where
  "strip_zeros v = dropWhile (\<lambda>b. b = 0) v"

lemma skip_zeros_eq:
  "skip_zeros (pre @ v @ post) (length pre) (length v) =
     (length pre + (length v - length (strip_zeros v)), length (strip_zeros v))"
proof (induction v arbitrary: pre)
  case (Cons b v)
  from Cons [of "pre @ [b]"] show ?case
    by (auto simp: strip_zeros_def nth_append Suc_diff_le length_dropWhile_le)
qed (simp add: strip_zeros_def)

lemma strip_zeros_suffix: "drop (length v - length (strip_zeros v)) v = strip_zeros v"
  unfolding strip_zeros_def by (induction v) (auto simp: Suc_diff_le length_dropWhile_le)

lemma strip_zeros_le: "length (strip_zeros v) \<le> length v"
  by (simp add: strip_zeros_def length_dropWhile_le)

lemma skip_zeros_take:
  assumes "skip_zeros (pre @ v @ post) pos (length v) = (p, n)" "pos = length pre"
  shows "take n (drop p (pre @ v @ post)) = strip_zeros v"
proof -
  have "p = length pre + (length v - length (strip_zeros v))" "n = length (strip_zeros v)"
    using assms by (auto simp: skip_zeros_eq)
  then show ?thesis using strip_zeros_suffix [of v] strip_zeros_le [of v] by simp
qed

lemma der_lax_integer_short:
  assumes "length v < 128" "pos = length pre"
  shows "der_lax_integer (pre @ [0x02, word_of_nat (length v)] @ v @ post) pos =
    Some (pos + 2, length v, pos + 2 + length v)"
proof -
  have "unat (word_of_nat (length v) :: byte) = length v" using assms(1) by (simp add: unat_of_nat)
  then show ?thesis
    using assms by (simp add: der_lax_integer_def nth_append nat_and_128 Let_def)
qed

lemma der_lax_integers_strict:
  assumes "length r + length s < 124"
  shows "der_lax_integers
      ([0x30, word_of_nat (length r + length s + 4), 0x02, word_of_nat (length r)] @ r @
       [0x02, word_of_nat (length s)] @ s) = Some (strip_zeros r, strip_zeros s)"
    (is "der_lax_integers ?d = _")
proof -
  let ?L = "word_of_nat (length r + length s + 4) :: byte"
  have L: "unat ?L = length r + length s + 4" using assms by (simp add: unat_of_nat del: of_nat_add)
  have dr: "?d = [0x30, ?L] @ [0x02, word_of_nat (length r)] @ r @ ([0x02, word_of_nat (length s)] @ s)" by simp
  have ds: "?d = ([0x30, ?L, 0x02, word_of_nat (length r)] @ r) @ [0x02, word_of_nat (length s)] @ s @ []" by simp
  have r: "der_lax_integer ?d 2 = Some (4, length r, 4 + length r)"
    unfolding dr using assms by (subst der_lax_integer_short) simp_all
  have s: "der_lax_integer ?d (4 + length r) = Some (6 + length r, length s, 6 + length r + length s)"
    unfolding ds using assms by (subst der_lax_integer_short) simp_all
  obtain rp rn where rp: "skip_zeros ?d 4 (length r) = (rp, rn)" by force
  obtain sp sn where sp: "skip_zeros ?d (6 + length r) (length s) = (sp, sn)" by force
  have "skip_zeros ([0x30, ?L, 0x02, word_of_nat (length r)] @ r @ [0x02, word_of_nat (length s)] @ s) 4 (length r) = (rp, rn)"
    using rp by simp
  from skip_zeros_take [OF this] have "take rn (drop rp ?d) = strip_zeros r" by simp
  moreover have "skip_zeros (([0x30, ?L, 0x02, word_of_nat (length r)] @ r @ [0x02, word_of_nat (length s)]) @ s @ [])
      (6 + length r) (length s) = (sp, sn)"
    using sp by simp
  from skip_zeros_take [OF this] have "take sn (drop sp ?d) = strip_zeros s" by simp
  moreover have "der_lax_integers ?d =
      Some (take rn (drop rp ?d), take sn (drop sp ?d))"
    using r [unfolded numeral_2_eq_2] s rp sp L assms by (simp add: der_lax_integers_def nat_and_128 Let_def del: of_nat_add)
  ultimately show ?thesis by simp
qed

lemma be_nat_strip: "be_nat (strip_zeros v) = be_nat v"
  unfolding strip_zeros_def by (induction v) auto

lemma strip_zeros_value: "length (strip_zeros v) \<le> 32 \<longleftrightarrow> be_nat v < 2 ^ 256"
proof -
  have "be_nat (strip_zeros v) < 256 ^ length (strip_zeros v)" by (rule be_nat_bound)
  moreover have "(256 :: nat) ^ length (strip_zeros v) \<le> 256 ^ 32" if "length (strip_zeros v) \<le> 32"
    using that by (intro power_increasing) simp_all
  moreover have "256 ^ 32 \<le> be_nat (strip_zeros v)" if l: "32 < length (strip_zeros v)"
  proof -
    obtain b w where w: "strip_zeros v = b # w" using l by (cases "strip_zeros v") auto
    then have "b \<noteq> 0" using hd_dropWhile [of "\<lambda>b. b = 0" v] by (auto simp: strip_zeros_def)
    then have "1 \<le> unat b" by (simp add: Suc_le_eq unat_gt_0)
    have "(256 :: nat) ^ 32 \<le> 256 ^ length w" using l w by (intro power_increasing) simp_all
    also have "\<dots> \<le> be_nat (strip_zeros v)"
      using mult_le_mono2 [OF \<open>1 \<le> unat b\<close>, of "256 ^ length w"] unfolding w be_nat_simps by linarith
    finally show ?thesis .
  qed
  ultimately show ?thesis using be_nat_strip [of v] by (cases "length (strip_zeros v) \<le> 32") auto
qed

lemma compact_half_value:
  assumes "be_nat v < 2 ^ 256"
  shows "compact_half (strip_zeros v) = be_bytes 32 (be_nat v)"
proof -
  let ?p = "replicate (32 - length (strip_zeros v)) 0 @ strip_zeros v"
  have l: "length (strip_zeros v) \<le> 32" using assms strip_zeros_value by blast
  have "be_nat (replicate n 0 @ w) = be_nat w" for n and w :: "byte list" by (induction n) auto
  then have "be_nat ?p = be_nat v" by (simp add: be_nat_strip)
  moreover have "length ?p = 32" using l by simp
  ultimately show ?thesis using be_bytes_be_nat [of ?p] l by (simp add: compact_half_def)
qed

text \<open>C18. The two signature parsers agree: for every signature that passes the strict check
  \<open>IsValidSignatureEncoding\<close>, the lax parser that feeds the curve library accepts it without its hash
  type byte, reads exactly the two integers of the strict encoding as 32-byte big-endian numbers, and
  replaces the signature by the never valid zero signature only if one of them does not fit 256 bits
  or the library refuses them.\<close>

theorem der_lax_reads_strict:
  assumes "IsValidSignatureEncoding sig"
  shows "\<exists>r s h. sig = der_signature r s h \<and> der_int r \<and> der_int s \<and>
    ecdsa_signature_parse_der_lax S (butlast sig) =
      (let c = signature_parse_compact S (be_bytes 32 (be_nat r) @ be_bytes 32 (be_nat s))
       in Some (if be_nat r < 2 ^ 256 \<and> be_nat s < 2 ^ 256 \<and> fst c then snd c
                else snd (signature_parse_compact S (replicate 64 0))))"
proof -
  from assms obtain r s h where sig: "sig = der_signature r s h" "der_int r" "der_int s" "length sig \<le> 73"
    by (auto simp: IsValidSignatureEncoding_der)
  then have l: "length r + length s < 124" by (simp add: der_signature_def)
  have "butlast sig = [0x30, word_of_nat (length r + length s + 4), 0x02, word_of_nat (length r)] @ r @
       [0x02, word_of_nat (length s)] @ s"
    unfolding sig(1) der_signature_def by (simp add: butlast_append)
  then have "der_lax_integers (butlast sig) = Some (strip_zeros r, strip_zeros s)"
    using der_lax_integers_strict [OF l] by (simp only:)
  moreover have "32 < length (strip_zeros v) \<longleftrightarrow> \<not> be_nat v < 2 ^ 256" for v
    using strip_zeros_value [of v] by linarith
  ultimately have "ecdsa_signature_parse_der_lax S (butlast sig) =
      (let c = signature_parse_compact S (compact_half (strip_zeros r) @ compact_half (strip_zeros s))
       in Some (if be_nat r < 2 ^ 256 \<and> be_nat s < 2 ^ 256 \<and> fst c then snd c
                else snd (signature_parse_compact S (replicate 64 0))))"
    unfolding ecdsa_signature_parse_der_lax_def Let_def
    by (simp only: option.case prod.case not_less [symmetric] de_Morgan_disj not_not conj_assoc if_distrib [of Some])
  also have "\<dots> =
      (let c = signature_parse_compact S (be_bytes 32 (be_nat r) @ be_bytes 32 (be_nat s))
       in Some (if be_nat r < 2 ^ 256 \<and> be_nat s < 2 ^ 256 \<and> fst c then snd c
                else snd (signature_parse_compact S (replicate 64 0))))"
    unfolding Let_def by (intro arg_cong [of _ _ Some] if_weak_cong) (use compact_half_value in \<open>metis\<close>)
  finally have "ecdsa_signature_parse_der_lax S (butlast sig) = \<dots>" .
  with sig(1-3) show ?thesis by (intro exI [of _ r] exI [of _ s] exI [of _ h] conjI)
qed

definition toy_secp :: "(byte list, byte list) secp256k1" where
  "toy_secp = \<lparr>ec_pubkey_parse = Some, ec_pubkey_serialize = \<lambda>_ p. p, ec_pubkey_tweak_add = \<lambda>_. Some,
     signature_parse_compact = \<lambda>b. (True, b), signature_normalize = \<lambda>s. (False, s),
     ecdsa_verify = \<lambda>s h p. s = h @ p, ecdsa_recover = \<lambda>s i h. Some s\<rparr>"

theorem der_lax_reads_strict_witness:
  "IsValidSignatureEncoding [0x30, 6, 2, 1, 7, 2, 1, 8, 1] \<and>
   (\<exists>r s h. [0x30, 6, 2, 1, 7, 2, 1, 8, 1] = der_signature r s h \<and>
      ecdsa_signature_parse_der_lax toy_secp [0x30, 6, 2, 1, 7, 2, 1, 8] \<noteq> None)"
proof -
  have v: "IsValidSignatureEncoding [0x30, 6, 2, 1, 7, 2, 1, 8, 1]" by (simp add: IsValidSignatureEncoding_def)
  from der_lax_reads_strict [OF v, of toy_secp] v show ?thesis by (auto simp: Let_def)
qed

subsection \<open>Extended keys\<close>

lemma child_number:
  "push_bit 24 (ucast (ucast (drop_bit 24 n AND 0xFF) :: byte)) OR
   push_bit 16 (ucast (ucast (drop_bit 16 n AND 0xFF) :: byte)) OR
   push_bit 8 (ucast (ucast (drop_bit 8 n AND 0xFF) :: byte)) OR
   ucast (ucast (n AND 0xFF) :: byte) = (n :: u32)"
proof -
  have m: "(0xFF :: u32) = mask 8" by (simp add: mask_eq_exp_minus_1)
  show ?thesis
    unfolding m
  proof (rule bit_word_eqI, goal_cases)
    case (1 k)
    then show ?case
      by (cases "k < 8"; cases "k < 16"; cases "k < 24") (auto simp: bit_simps not_less)
  qed
qed

lemma CExtPubKey_roundtrip:
  assumes "CExtPubKey_Encode k = Some code" "length (vchFingerprint k) = 4" "length (chaincode k) = 32"
    "CPubKey_Set (pubkey k) = pubkey k"
  shows "CExtPubKey_Decode code = k \<and> length code = 74"
proof -
  have "code = [nDepth k] @ vchFingerprint k @
      [ucast (drop_bit 24 (nChild k) AND 0xFF), ucast (drop_bit 16 (nChild k) AND 0xFF),
       ucast (drop_bit 8 (nChild k) AND 0xFF), ucast (nChild k AND 0xFF)] @ chaincode k @ pubkey k"
    "length (pubkey k) = 33"
    using assms(1) by (auto simp: CExtPubKey_Encode_def split: if_splits)
  with assms(2-4) show ?thesis
    by (simp add: CExtPubKey_Decode_def nth_append child_number)
qed

end
