(* ===== verification/Sighash.thy ===== *)
theory Sighash
  imports Transaction Pubkey Interpreter_Ops
begin

text \<open>
  Signature hashes and the transaction signature checker of
  \<open>src/src/script/interpreter.cpp\<close> (from \<open>GetPrevoutHash\<close> to \<open>CheckSequence\<close>).  The checker's
  members are a record; \<open>txdata\<close> is the optional cache.  Exceptions of the serialization are
  values; an input index outside of the transaction is the error \<open>OutOfBounds\<close>.
\<close>

subsection \<open>The hash of a transaction for one input\<close>

record PrecomputedTransactionData =
  hashPrevouts :: uint256
  hashSequence :: uint256
  hashOutputsAll :: uint256

definition GetPrevoutHash :: "CTransaction \<Rightarrow> uint256" where
  "GetPrevoutHash txTo =
     GetHash (foldl (\<lambda>ss i. hashwriter_write ss (outpoint_bytes (prevout i))) CSHA256_new (vin txTo))"

definition GetSequenceHash :: "CTransaction \<Rightarrow> uint256" where
  "GetSequenceHash txTo =
     GetHash (foldl (\<lambda>ss i. hashwriter_write ss (WriteLE32 (nSequence i))) CSHA256_new (vin txTo))"

definition GetOutputsHash :: "CTransaction \<Rightarrow> ser_error + uint256" where
  "GetOutputsHash txTo = SerializeHash (serialize_all CTxOut_Serialize (vout txTo))"

definition PrecomputedTransactionData_of :: "CTransaction \<Rightarrow> ser_error + PrecomputedTransactionData" where
  "PrecomputedTransactionData_of txTo =
     bindE (GetOutputsHash txTo) (\<lambda>h. Inr
       \<lparr>hashPrevouts = GetPrevoutHash txTo, hashSequence = GetSequenceHash txTo, hashOutputsAll = h\<rparr>)"

definition locks_outputs :: "SigHashType \<Rightarrow> bool" where
  "locks_outputs sigHashType \<longleftrightarrow> getBaseType sigHashType \<noteq> SIGHASH_SINGLE \<and> getBaseType sigHashType \<noteq> SIGHASH_NONE"

definition sighash_prevouts ::
  "CTransaction \<Rightarrow> SigHashType \<Rightarrow> PrecomputedTransactionData option \<Rightarrow> uint256" where
  "sighash_prevouts txTo sigHashType cache =
     (if \<not> hasAnyoneCanPay sigHashType
      then (case cache of Some c \<Rightarrow> hashPrevouts c | None \<Rightarrow> GetPrevoutHash txTo) else null_hash)"

definition sighash_sequence ::
  "CTransaction \<Rightarrow> SigHashType \<Rightarrow> PrecomputedTransactionData option \<Rightarrow> uint256" where
  "sighash_sequence txTo sigHashType cache =
     (if \<not> hasAnyoneCanPay sigHashType \<and> locks_outputs sigHashType
      then (case cache of Some c \<Rightarrow> hashSequence c | None \<Rightarrow> GetSequenceHash txTo) else null_hash)"

definition sighash_outputs ::
  "CTransaction \<Rightarrow> nat \<Rightarrow> SigHashType \<Rightarrow> PrecomputedTransactionData option \<Rightarrow> ser_error + uint256" where
  "sighash_outputs txTo nIn sigHashType cache =
     (if locks_outputs sigHashType
      then (case cache of Some c \<Rightarrow> Inr (hashOutputsAll c) | None \<Rightarrow> GetOutputsHash txTo)
      else if getBaseType sigHashType = SIGHASH_SINGLE \<and> nIn < length (vout txTo)
      then SerializeHash (CTxOut_Serialize (vout txTo ! nIn))
      else Inr null_hash)"

definition SignatureHash :: "CScript \<Rightarrow> CTransaction \<Rightarrow> nat \<Rightarrow> SigHashType \<Rightarrow> Amount \<Rightarrow>
    PrecomputedTransactionData option \<Rightarrow> ser_error + uint256" where
  "SignatureHash scriptCode txTo nIn sigHashType amount cache =
     (if nIn \<ge> length (vin txTo) then Inl OutOfBounds
      else bindE (sighash_outputs txTo nIn sigHashType cache) (\<lambda>hashOutputs.
        bindE (Serialize_bytes scriptCode) (\<lambda>code.
          Inr (GetHash (foldl hashwriter_write CSHA256_new
            [WriteLE32 (nVersion txTo), sighash_prevouts txTo sigHashType cache,
             sighash_sequence txTo sigHashType cache, outpoint_bytes (prevout (vin txTo ! nIn)), code,
             WriteLE64 amount, WriteLE32 (nSequence (vin txTo ! nIn)), hashOutputs,
             WriteLE32 (nLockTime txTo), WriteLE32 sigHashType])))))"

subsection \<open>The checker\<close>

record ('p, 's) TransactionSignatureChecker =
  txTo :: CTransaction
  nIn :: nat
  amount :: Amount
  txdata :: "PrecomputedTransactionData option"
  secp :: "('p, 's) secp256k1"

definition VerifySignature ::
  "('p, 's) TransactionSignatureChecker \<Rightarrow> valtype \<Rightarrow> CPubKey \<Rightarrow> uint256 \<Rightarrow> bool" where
  "VerifySignature c vchSig key sighash = CPubKey_Verify (secp c) key sighash vchSig"

definition checker_CheckSig ::
  "('p, 's) TransactionSignatureChecker \<Rightarrow> valtype \<Rightarrow> valtype \<Rightarrow> CScript \<Rightarrow> ser_error + bool" where
  "checker_CheckSig c vchSigIn vchPubKey scriptCode =
     (let key = CPubKey_Set vchPubKey
      in if \<not> CPubKey_IsValid key then Inr False
         else if vchSigIn = [] then Inr False
         else let sigHashType = GetHashType vchSigIn; vchSig = butlast vchSigIn
           in bindE (SignatureHash scriptCode (txTo c) (nIn c) sigHashType (amount c) (txdata c)) (\<lambda>sighash.
                if \<not> VerifySignature c vchSig key sighash then Inr False else Inr True))"

definition LOCKTIME_THRESHOLD :: int where "LOCKTIME_THRESHOLD = 500000000"
definition SEQUENCE_LOCKTIME_DISABLE_FLAG :: u32 where "SEQUENCE_LOCKTIME_DISABLE_FLAG = push_bit 31 1"
definition SEQUENCE_LOCKTIME_TYPE_FLAG :: u32 where "SEQUENCE_LOCKTIME_TYPE_FLAG = push_bit 22 1"
definition SEQUENCE_LOCKTIME_MASK :: u32 where "SEQUENCE_LOCKTIME_MASK = 0x0000ffff"

text \<open>Both numbers below the threshold, or both not.\<close>

definition same_kind :: "'b openssl \<Rightarrow> int \<Rightarrow> 'b CScriptNum \<Rightarrow> int \<Rightarrow> cxx_exn + bool" where
  "same_kind B x n threshold =
     bindE (if x < threshold then num_lt_i64 B n threshold else Inr False) (\<lambda>below.
       if below then Inr True
       else if x \<ge> threshold then num_ge_i64 B n threshold else Inr False)"

definition CheckLockTime ::
  "'b openssl \<Rightarrow> ('p, 's) TransactionSignatureChecker \<Rightarrow> 'b CScriptNum \<Rightarrow> cxx_exn + bool" where
  "CheckLockTime B c n =
     bindE (same_kind B (uint (nLockTime (txTo c))) n LOCKTIME_THRESHOLD) (\<lambda>same.
       if \<not> same then Inr False
       else bindE (num_gt_i64 B n (uint (nLockTime (txTo c)))) (\<lambda>later.
         if later then Inr False
         else if SEQUENCE_FINAL = nSequence (vin (txTo c) ! nIn c) then Inr False else Inr True))"

definition CheckSequence ::
  "'b openssl \<Rightarrow> ('p, 's) TransactionSignatureChecker \<Rightarrow> 'b CScriptNum \<Rightarrow> cxx_exn + bool" where
  "CheckSequence B c n =
     (let txToSequence = nSequence (vin (txTo c) ! nIn c)
      in if nVersion (txTo c) < 2 then Inr False
         else if txToSequence AND SEQUENCE_LOCKTIME_DISABLE_FLAG \<noteq> 0 then Inr False
         else let nLockTimeMask = SEQUENCE_LOCKTIME_TYPE_FLAG OR SEQUENCE_LOCKTIME_MASK;
                  txToSequenceMasked = uint (txToSequence AND nLockTimeMask)
           in bindE (num_and_i64 B n (ucast nLockTimeMask)) (\<lambda>nSequenceMasked.
                bindE (same_kind B txToSequenceMasked nSequenceMasked (uint SEQUENCE_LOCKTIME_TYPE_FLAG)) (\<lambda>same.
                  if \<not> same then Inr False
                  else bindE (num_gt_i64 B nSequenceMasked txToSequenceMasked) (\<lambda>later.
                    if later then Inr False else Inr True))))"

subsection \<open>What a signature commits to\<close>

lemma serialize_all_inj:
  assumes "codec valid ser unser" "\<And>a. ser a \<noteq> Inr []"
    "list_all valid v" "list_all valid w" "serialize_all ser v = Inr b" "serialize_all ser w = Inr b"
  shows "v = w"
  using assms(3-6)
proof (induction v arbitrary: w b)
  case Nil
  then show ?case using assms(2) by (cases w) (auto simp: bindE_eq_Inr)
next
  case (Cons a v)
  then obtain x y where x: "ser a = Inr x" "serialize_all ser v = Inr y" "b = x @ y"
    by (auto simp: bindE_eq_Inr)
  with assms(2) [of a] Cons.prems(4) obtain c w' where w: "w = c # w'" by (cases w) auto
  with Cons.prems obtain x' y' where x': "ser c = Inr x'" "serialize_all ser w' = Inr y'" "b = x' @ y'"
    by (auto simp: bindE_eq_Inr)
  have "a = c \<and> y = y'"
    using codec.ser_prefix_free [OF assms(1), of a c x x' y y'] x x' w Cons.prems by simp
  with Cons.IH [of w' y] Cons.prems x x' w show ?case by simp
qed

lemma concat_serialize_all: "serialize_all (\<lambda>a. Inr (f a)) v = Inr (concat (map f v))"
  by (induction v) simp_all

lemma GetHash_foldl: "GetHash (foldl hashwriter_write CSHA256_new bs) = sha256_digest (sha256_digest (concat bs))"
  using GetHash_hasher [OF hashwriter_foldl [OF CSHA256_new_hasher, of id bs]] by simp

text \<open>The byte strings behind the hashes, and all messages that SHA-256 is applied to.\<close>

definition prevouts_bytes :: "CTransaction \<Rightarrow> byte list" where
  "prevouts_bytes tx = concat (map (\<lambda>i. outpoint_bytes (prevout i)) (vin tx))"

definition sequence_bytes :: "CTransaction \<Rightarrow> byte list" where
  "sequence_bytes tx = concat (map (\<lambda>i. WriteLE32 (nSequence i)) (vin tx))"

definition locked_outputs :: "CTransaction \<Rightarrow> nat \<Rightarrow> SigHashType \<Rightarrow> CTxOut list option" where
  "locked_outputs tx n ht =
     (if locks_outputs ht then Some (vout tx)
      else if getBaseType ht = SIGHASH_SINGLE \<and> n < length (vout tx) then Some [vout tx ! n] else None)"

definition outputs_bytes :: "CTransaction \<Rightarrow> nat \<Rightarrow> SigHashType \<Rightarrow> byte list list" where
  "outputs_bytes tx n ht =
     (case locked_outputs tx n ht of None \<Rightarrow> []
      | Some outs \<Rightarrow> (case serialize_all CTxOut_Serialize outs of Inl _ \<Rightarrow> [] | Inr b \<Rightarrow> [b]))"

definition sighash_preimage :: "CScript \<Rightarrow> CTransaction \<Rightarrow> nat \<Rightarrow> SigHashType \<Rightarrow> Amount \<Rightarrow>
    ser_error + byte list" where
  "sighash_preimage code tx n ht amt =
     bindE (sighash_outputs tx n ht None) (\<lambda>h. bindE (Serialize_bytes code) (\<lambda>c.
       Inr (WriteLE32 (nVersion tx) @ sighash_prevouts tx ht None @ sighash_sequence tx ht None @
         outpoint_bytes (prevout (vin tx ! n)) @ c @ WriteLE64 amt @ WriteLE32 (nSequence (vin tx ! n)) @ h @
         WriteLE32 (nLockTime tx) @ WriteLE32 ht)))"

definition sighash_messages :: "CScript \<Rightarrow> CTransaction \<Rightarrow> nat \<Rightarrow> SigHashType \<Rightarrow> Amount \<Rightarrow> byte list list" where
  "sighash_messages code tx n ht amt =
     (let ms = [prevouts_bytes tx, sequence_bytes tx] @ outputs_bytes tx n ht @
        (case sighash_preimage code tx n ht amt of Inl _ \<Rightarrow> [] | Inr b \<Rightarrow> [b])
      in ms @ map sha256_digest ms)"

lemma sighash_message_digest:
  "m \<in> {prevouts_bytes tx, sequence_bytes tx} \<or> m \<in> set (outputs_bytes tx n ht) \<or>
     sighash_preimage code tx n ht amt = Inr m \<Longrightarrow>
   m \<in> set (sighash_messages code tx n ht amt) \<and> sha256_digest m \<in> set (sighash_messages code tx n ht amt)"
  by (auto simp: sighash_messages_def Let_def)

text \<open>The parts of the transaction that the hash type selects.\<close>

definition covered :: "CScript \<Rightarrow> CTransaction \<Rightarrow> nat \<Rightarrow> SigHashType \<Rightarrow> Amount \<Rightarrow>
    (u32 \<times> COutPoint list option \<times> u32 list option) \<times> (COutPoint \<times> CScript \<times> Amount \<times> u32) \<times>
    CTxOut list option \<times> u32 \<times> SigHashType" where
  "covered code tx n ht amt =
     ((nVersion tx, if hasAnyoneCanPay ht then None else Some (map prevout (vin tx)),
       if hasAnyoneCanPay ht \<or> \<not> locks_outputs ht then None else Some (map nSequence (vin tx))),
      (prevout (vin tx ! n), code, amt, nSequence (vin tx ! n)), locked_outputs tx n ht, nLockTime tx, ht)"

lemma part_hashes:
  "GetPrevoutHash tx = sha256_digest (sha256_digest (prevouts_bytes tx))"
  "GetSequenceHash tx = sha256_digest (sha256_digest (sequence_bytes tx))"
  using GetHash_hasher [OF hashwriter_foldl [OF CSHA256_new_hasher]]
  by (simp_all add: GetPrevoutHash_def GetSequenceHash_def prevouts_bytes_def sequence_bytes_def)

lemma sighash_outputs_bytes:
  assumes "sighash_outputs tx n ht None = Inr h"
  shows "locked_outputs tx n ht = None \<and> h = null_hash \<or>
    (\<exists>outs b. locked_outputs tx n ht = Some outs \<and> serialize_all CTxOut_Serialize outs = Inr b \<and>
       outputs_bytes tx n ht = [b] \<and> h = sha256_digest (sha256_digest b))"
proof -
  have "SerializeHash r = Inr x \<longleftrightarrow> (\<exists>b. r = Inr b \<and> x = sha256_digest (sha256_digest b))" for r x
    by (cases r) (auto simp: SerializeHash_digest, simp_all add: SerializeHash_def)
  with assms show ?thesis
    by (auto simp: sighash_outputs_def GetOutputsHash_def locked_outputs_def outputs_bytes_def bindE_eq_Inr
        split: if_splits)
qed

lemma double_digest_inj:
  assumes "\<not> collision A B" "x \<in> set A" "sha256_digest x \<in> set A" "y \<in> set B" "sha256_digest y \<in> set B"
    "sha256_digest (sha256_digest x) = sha256_digest (sha256_digest y)"
  shows "x = y"
  by (rule no_collision [OF assms(1,2,4) no_collision [OF assms(1,3,5,6)]])

lemma SignatureHash_cache:
  assumes "cache = None \<or> (\<exists>c. PrecomputedTransactionData_of tx = Inr c \<and> cache = Some c)"
  shows "SignatureHash code tx n ht amt cache = SignatureHash code tx n ht amt None"
  using assms
  by (auto simp: SignatureHash_def sighash_prevouts_def sighash_sequence_def sighash_outputs_def
      PrecomputedTransactionData_of_def bindE_eq_Inr)

lemma SignatureHash_preimage:
  "SignatureHash code tx n ht amt None = Inr h \<longleftrightarrow>
     n < length (vin tx) \<and>
     (\<exists>b. sighash_preimage code tx n ht amt = Inr b \<and> h = sha256_digest (sha256_digest b))"
proof (cases "sighash_outputs tx n ht None")
  case (Inr out)
  then show ?thesis
    by (cases "Serialize_bytes code") (auto simp: SignatureHash_def sighash_preimage_def GetHash_foldl
          simp del: foldl.simps)
qed (simp add: SignatureHash_def sighash_preimage_def)

lemma sighash_part_lengths:
  "length (sighash_prevouts tx ht None) = 32" "length (sighash_sequence tx ht None) = 32"
  "sighash_outputs tx n ht None = Inr h \<Longrightarrow> length h = 32"
  using sighash_outputs_bytes [of tx n ht h]
  by (auto simp: sighash_prevouts_def sighash_sequence_def part_hashes null_hash_def)

text \<open>The preimage is uniquely decodable into its ten fields.\<close>

lemma outpoint_bytes_inj:
  "valid_outpoint p \<Longrightarrow> valid_outpoint q \<Longrightarrow> outpoint_bytes p = outpoint_bytes q \<longleftrightarrow> p = q"
  by (auto simp: outpoint_bytes_def valid_outpoint_def)

lemma length_outpoint_bytes: "valid_outpoint p \<Longrightarrow> length (outpoint_bytes p) = 36"
  by (simp add: outpoint_bytes_def valid_outpoint_def)

lemma valid_tx_nth: "valid_tx tx \<Longrightarrow> n < length (vin tx) \<Longrightarrow> valid_outpoint (prevout (vin tx ! n))"
  by (simp add: valid_tx_def list_all_length valid_txin_def)

lemma sighash_preimage_inj:
  assumes "sighash_preimage c tx n ht a = Inr b" "sighash_preimage c' tx' n' ht' a' = Inr b"
    "valid_tx tx" "n < length (vin tx)" "valid_tx tx'" "n' < length (vin tx')"
  shows "nVersion tx = nVersion tx' \<and> sighash_prevouts tx ht None = sighash_prevouts tx' ht' None \<and>
    sighash_sequence tx ht None = sighash_sequence tx' ht' None \<and>
    prevout (vin tx ! n) = prevout (vin tx' ! n') \<and> c = c' \<and> a = a' \<and>
    nSequence (vin tx ! n) = nSequence (vin tx' ! n') \<and>
    (\<exists>h. sighash_outputs tx n ht None = Inr h \<and> sighash_outputs tx' n' ht' None = Inr h) \<and>
    nLockTime tx = nLockTime tx' \<and> ht = ht'"
proof -
  obtain h x h' x' where h: "sighash_outputs tx n ht None = Inr h" "Serialize_bytes c = Inr x"
      "sighash_outputs tx' n' ht' None = Inr h'" "Serialize_bytes c' = Inr x'"
    and eq: "WriteLE32 (nVersion tx) @ sighash_prevouts tx ht None @ sighash_sequence tx ht None @
         outpoint_bytes (prevout (vin tx ! n)) @ x @ WriteLE64 a @ WriteLE32 (nSequence (vin tx ! n)) @ h @
         WriteLE32 (nLockTime tx) @ WriteLE32 ht =
       WriteLE32 (nVersion tx') @ sighash_prevouts tx' ht' None @ sighash_sequence tx' ht' None @
         outpoint_bytes (prevout (vin tx' ! n')) @ x' @ WriteLE64 a' @ WriteLE32 (nSequence (vin tx' ! n')) @ h' @
         WriteLE32 (nLockTime tx') @ WriteLE32 ht'" (is "?l = ?r")
    using assms(1,2) by (auto simp: sighash_preimage_def bindE_eq_Inr)
  note v = valid_tx_nth [OF assms(3,4)] valid_tx_nth [OF assms(5,6)]
  have head: "nVersion tx = nVersion tx'" "sighash_prevouts tx ht None = sighash_prevouts tx' ht' None"
      "sighash_sequence tx ht None = sighash_sequence tx' ht' None"
      "prevout (vin tx ! n) = prevout (vin tx' ! n')"
    and rest: "x @ WriteLE64 a @ WriteLE32 (nSequence (vin tx ! n)) @ h @ WriteLE32 (nLockTime tx) @ WriteLE32 ht =
       x' @ WriteLE64 a' @ WriteLE32 (nSequence (vin tx' ! n')) @ h' @ WriteLE32 (nLockTime tx') @ WriteLE32 ht'"
    using eq v by (simp_all add: sighash_part_lengths length_outpoint_bytes outpoint_bytes_inj)
  have "c = c' \<and> WriteLE64 a @ WriteLE32 (nSequence (vin tx ! n)) @ h @ WriteLE32 (nLockTime tx) @ WriteLE32 ht =
       WriteLE64 a' @ WriteLE32 (nSequence (vin tx' ! n')) @ h' @ WriteLE32 (nLockTime tx') @ WriteLE32 ht'"
    using bytes.ser_prefix_free [OF _ _ h(2,4) rest] by simp
  with head h sighash_part_lengths(3) [OF h(1)] sighash_part_lengths(3) [OF h(3)] show ?thesis by simp
qed

lemma map_fixed_inj:
  assumes "concat (map f xs) = concat (map f ys)" "\<And>x. x \<in> set xs \<union> set ys \<Longrightarrow> length (f x) = m" "0 < m"
    "\<And>x y. x \<in> set xs \<Longrightarrow> y \<in> set ys \<Longrightarrow> f x = f y \<Longrightarrow> x = y"
  shows "xs = ys"
proof (rule map_inj_messages [OF _ assms(4)])
  show "map f xs = map f ys" by (rule concat_fixed_inj [OF assms(1) _ assms(3)]) (use assms(2) in auto)
qed

lemma part_bytes_inj:
  assumes "valid_tx tx" "valid_tx tx'"
  shows "prevouts_bytes tx = prevouts_bytes tx' \<Longrightarrow> map prevout (vin tx) = map prevout (vin tx')"
    "sequence_bytes tx = sequence_bytes tx' \<Longrightarrow> map nSequence (vin tx) = map nSequence (vin tx')"
proof -
  assume "prevouts_bytes tx = prevouts_bytes tx'"
  then show "map prevout (vin tx) = map prevout (vin tx')"
    by (intro map_fixed_inj [where f = outpoint_bytes and m = 36])
      (use assms in \<open>auto simp: prevouts_bytes_def o_def length_outpoint_bytes outpoint_bytes_inj valid_tx_def
         list_all_iff valid_txin_def\<close>)
next
  assume "sequence_bytes tx = sequence_bytes tx'"
  then show "map nSequence (vin tx) = map nSequence (vin tx')"
    by (intro map_fixed_inj [where f = WriteLE32 and m = 4]) (auto simp: sequence_bytes_def o_def)
qed

lemma CTxOut_Serialize_nonempty: "CTxOut_Serialize out \<noteq> Inr []"
  by (auto simp: CTxOut_Serialize_def bindE_eq_Inr dest: arg_cong [of _ _ length])

text \<open>A message with the digest 0, the value that stands for the parts that are left out.\<close>

definition null_digest :: "byte list list \<Rightarrow> bool" where
  "null_digest ms \<longleftrightarrow> (\<exists>m \<in> set ms. sha256_digest m = null_hash)"

lemma locked_outputs_eq:
  assumes nc: "\<not> collision A B" and null: "\<not> null_digest (A @ B)"
    and h: "sighash_outputs tx n ht None = Inr h" "sighash_outputs tx' n' ht None = Inr h"
    and m: "\<And>m. m \<in> set (outputs_bytes tx n ht) \<Longrightarrow> m \<in> set A \<and> sha256_digest m \<in> set A"
      "\<And>m. m \<in> set (outputs_bytes tx' n' ht) \<Longrightarrow> m \<in> set B \<and> sha256_digest m \<in> set B"
  shows "locked_outputs tx n ht = locked_outputs tx' n' ht"
proof -
  have null': "sha256_digest x \<noteq> null_hash" if "x \<in> set A \<or> x \<in> set B" for x
    using null that by (auto simp: null_digest_def)
  consider "locked_outputs tx n ht = None" "h = null_hash" | outs b where
      "locked_outputs tx n ht = Some outs" "serialize_all CTxOut_Serialize outs = Inr b"
       "outputs_bytes tx n ht = [b]" "h = sha256_digest (sha256_digest b)"
    using sighash_outputs_bytes [OF h(1)] by metis
  then show ?thesis
  proof cases
    case 1
    with sighash_outputs_bytes [OF h(2)] m(2) null' show ?thesis by fastforce
  next
    case (2 outs b)
    then have "h \<noteq> null_hash" using m(1) null' by auto
    then obtain outs' b' where 3: "locked_outputs tx' n' ht = Some outs'" "serialize_all CTxOut_Serialize outs' = Inr b'"
       "outputs_bytes tx' n' ht = [b']" "h = sha256_digest (sha256_digest b')"
      using sighash_outputs_bytes [OF h(2)] by metis
    have "b = b'" by (rule double_digest_inj [OF nc]) (use m 2 3 in auto)
    then have "outs = outs'"
      using serialize_all_inj [OF txout.codec_axioms CTxOut_Serialize_nonempty, of outs outs' b] 2 3
      by (simp add: list_all_iff)
    with 2 3 show ?thesis by simp
  qed
qed

text \<open>C5. A signature covers what its hash type says it covers.  If two signature hashes are equal,
  whether or not computed with a cache, then the two signatures have the same hash type, input,
  script code and amount, and the same previous outputs, sequence numbers and outputs as far as the
  hash type locks them, unless SHA-256 has a collision, or the digest 0, among the messages hashed.\<close>

theorem SignatureHash_commits:
  assumes "valid_tx tx" "valid_tx tx'"
    "cache = None \<or> PrecomputedTransactionData_of tx = Inr (the cache)"
    "cache' = None \<or> PrecomputedTransactionData_of tx' = Inr (the cache')"
    "SignatureHash c tx n ht a cache = Inr h" "SignatureHash c' tx' n' ht' a' cache' = Inr h"
  shows "covered c tx n ht a = covered c' tx' n' ht' a' \<or>
    collision (sighash_messages c tx n ht a) (sighash_messages c' tx' n' ht' a') \<or>
    null_digest (sighash_messages c tx n ht a @ sighash_messages c' tx' n' ht' a')"
proof (rule disjCI)
  assume "\<not> (collision (sighash_messages c tx n ht a) (sighash_messages c' tx' n' ht' a') \<or>
    null_digest (sighash_messages c tx n ht a @ sighash_messages c' tx' n' ht' a'))"
  then have nc: "\<not> collision (sighash_messages c tx n ht a) (sighash_messages c' tx' n' ht' a')"
    and null: "\<not> null_digest (sighash_messages c tx n ht a @ sighash_messages c' tx' n' ht' a')" by blast+
  have s: "SignatureHash c tx n ht a None = Inr h" "SignatureHash c' tx' n' ht' a' None = Inr h"
    using SignatureHash_cache [of cache tx c n ht a] SignatureHash_cache [of cache' tx' c' n' ht' a'] assms(3-6)
    by (cases cache; cases cache'; simp)+
  obtain b b' where b: "sighash_preimage c tx n ht a = Inr b" "sighash_preimage c' tx' n' ht' a' = Inr b'"
      "sha256_digest (sha256_digest b) = sha256_digest (sha256_digest b')"
      "n < length (vin tx)" "n' < length (vin tx')"
    using s by (auto simp: SignatureHash_preimage)
  note dig = double_digest_inj [OF nc] and msg = sighash_message_digest
  have "b = b'" by (rule dig [OF _ _ _ _ b(3)]) (use msg b in blast)+
  with b have "sighash_preimage c' tx' n' ht' a' = Inr b" by simp
  note f = sighash_preimage_inj [OF b(1) this assms(1) b(4) assms(2) b(5)]
  then have ht': "ht' = ht" by simp
  note msg' = msg [of _ tx' n' ht c' a']
  have p: "map prevout (vin tx) = map prevout (vin tx')" if "\<not> hasAnyoneCanPay ht"
  proof (rule part_bytes_inj(1) [OF assms(1,2) dig])
    show "sha256_digest (sha256_digest (prevouts_bytes tx)) = sha256_digest (sha256_digest (prevouts_bytes tx'))"
      using f that by (simp add: sighash_prevouts_def part_hashes)
  qed (simp_all add: msg)
  have q: "map nSequence (vin tx) = map nSequence (vin tx')" if "\<not> hasAnyoneCanPay ht" "locks_outputs ht"
  proof (rule part_bytes_inj(2) [OF assms(1,2) dig])
    show "sha256_digest (sha256_digest (sequence_bytes tx)) = sha256_digest (sha256_digest (sequence_bytes tx'))"
      using f that by (simp add: sighash_sequence_def part_hashes)
  qed (simp_all add: msg)
  obtain d where d: "sighash_outputs tx n ht None = Inr d" "sighash_outputs tx' n' ht None = Inr d"
    using f by auto
  have "locked_outputs tx n ht = locked_outputs tx' n' ht"
    by (rule locked_outputs_eq [OF nc null d]) (use msg msg' ht' in blast)+
  with f p q show "covered c tx n ht a = covered c' tx' n' ht' a'" by (simp add: covered_def)
qed

theorem SignatureHash_commits_witness:
  "\<exists>h tx. SignatureHash [] tx 0 0x41 7 None = Inr h \<and> nLockTime tx = 9 \<and>
     (covered [] tx 0 0x41 7 = covered [] tx 0 0x41 7 \<or>
      collision (sighash_messages [] tx 0 0x41 7) (sighash_messages [] tx 0 0x41 7) \<or>
      null_digest (sighash_messages [] tx 0 0x41 7 @ sighash_messages [] tx 0 0x41 7))"
proof -
  let ?tx = "\<lparr>nVersion = 2, vin = [\<lparr>prevout = null_outpoint, scriptSig = [], nSequence = 5\<rparr>], vout = [], nLockTime = 9\<rparr>"
  obtain h where h: "SignatureHash [] ?tx 0 0x41 7 None = Inr h"
    by (cases "locks_outputs 0x41") (simp_all add: SignatureHash_def sighash_outputs_def GetOutputsHash_def
        SerializeHash_def Serialize_bytes_def WriteCompactSize_def)
  with SignatureHash_commits [of ?tx ?tx None None, OF _ _ _ _ h h]
  show ?thesis
    by (intro exI [of _ h] exI [of _ ?tx]) (simp add: valid_tx_def valid_txin_def valid_outpoint_def null_outpoint_def
        null_hash_def)
qed

subsection \<open>Lock times\<close>

context openssl_bn_total
begin

text \<open>The check never throws, and decides the documented comparison.\<close>

lemma CheckLockTime_exact:
  "CheckLockTime B c n = Inr
     (num_val bnval n \<le> uint (nLockTime (txTo c)) \<and>
      (uint (nLockTime (txTo c)) < LOCKTIME_THRESHOLD \<longleftrightarrow> num_val bnval n < LOCKTIME_THRESHOLD) \<and>
      nSequence (vin (txTo c) ! nIn c) \<noteq> SEQUENCE_FINAL)"
proof -
  have "uint (nLockTime (txTo c)) \<le> INT64_MAX" using uint_lt2p [of "nLockTime (txTo c)"] by simp
  moreover have "INT64_MIN \<le> uint (nLockTime (txTo c))" by (simp add: order_trans [OF _ uint_ge_0])
  ultimately show ?thesis
    by (auto simp: CheckLockTime_def same_kind_def LOCKTIME_THRESHOLD_def)
qed

end

subsection \<open>Spending with a real checker\<close>

text \<open>The evaluation environment of an input: the checker of the transaction.  A serialization
  exception inside \<open>CheckSig\<close> makes the evaluation fail, like a bad signature in the scripts below.\<close>

definition spend_env :: "'b eval_env \<Rightarrow> ('p, 's) TransactionSignatureChecker \<Rightarrow> 'b eval_env" where
  "spend_env E c = E\<lparr>CheckSig := \<lambda>sig key code. checker_CheckSig c sig key code = Inr True,
     CheckLowS := CPubKey_CheckLowS (secp c)\<rparr>"

text \<open>C4. Pay to public key hash, end to end: with a pushed signature and key of usual sizes the
  scripts verify exactly when the key has the hash of the output, both encodings pass the checks of
  the flags, and ECDSA accepts the signature for the key and the signature hash of this input, amount
  and locking script under the hash type in the signature's last byte.\<close>

theorem p2pkh_spend_signed:
  assumes "IsCanceled E = (\<lambda>_. False)" "length h = 20" "2 \<le> length sig" "length sig \<le> 75"
    and "2 \<le> length key" "length key \<le> 75"
    and "4 \<le> GetMaxOpsPerScript (config E) (consensus E)" "152 \<le> GetMaxScriptSize (config E) (consensus E)"
    and "500 \<le> GetMaxStackMemoryUsage (config E) (consensus E)"
  shows "VerifyScript (spend_env E c) (script_push (script_push [] sig) key) (p2pkh_script h) = EvalTrue \<longleftrightarrow>
    rmd_digest (sha256_digest key) = h \<and> check_encodings (spend_env E c) sig key = Inr () \<and>
    CPubKey_IsValid (CPubKey_Set key) \<and>
    (\<exists>sighash. SignatureHash (p2pkh_script h) (txTo c) (nIn c) (GetHashType sig) (amount c) (txdata c) = Inr sighash \<and>
       CPubKey_Verify (secp c) (CPubKey_Set key) sighash (butlast sig))"
proof -
  have "checker_CheckSig c sig key code = Inr True \<longleftrightarrow> CPubKey_IsValid (CPubKey_Set key) \<and>
    (\<exists>sighash. SignatureHash code (txTo c) (nIn c) (GetHashType sig) (amount c) (txdata c) = Inr sighash \<and>
       CPubKey_Verify (secp c) (CPubKey_Set key) sighash (butlast sig))" for code
    using assms(3) by (auto simp: checker_CheckSig_def VerifySignature_def Let_def bindE_eq_Inr)
  with p2pkh_spend [of "spend_env E c" h sig key] assms show ?thesis by (simp add: spend_env_def)
qed

definition example_checker :: "(byte list, byte list) TransactionSignatureChecker" where
  "example_checker = \<lparr>txTo = \<lparr>nVersion = 2, vin = [\<lparr>prevout = null_outpoint, scriptSig = [], nSequence = 5\<rparr>],
     vout = [], nLockTime = 9\<rparr>, nIn = 0, amount = 7, txdata = None,
     secp = toy_secp\<lparr>ecdsa_verify := \<lambda>_ _ _. True\<rparr>\<rparr>"

theorem p2pkh_spend_signed_witness:
  "VerifyScript (spend_env (example_env 0 (\<lambda>_ _ _. False)) example_checker)
     (script_push (script_push [] [0x30, 6, 2, 1, 7, 2, 1, 8, 0x41]) (2 # replicate 32 1))
     (p2pkh_script (Hash160 (2 # replicate 32 1))) = EvalTrue"
proof -
  let ?sig = "[0x30, 6, 2, 1, 7, 2, 1, 8, 0x41] :: byte list" and ?key = "2 # replicate 32 1 :: byte list"
  have "length (p2pkh_script (Hash160 ?key)) = 25" by (simp add: p2pkh_script_def Hash160_digest)
  then have "\<exists>h. SignatureHash (p2pkh_script (Hash160 ?key)) (txTo example_checker) 0 (GetHashType ?sig) 7 None = Inr h"
    by (cases "locks_outputs (GetHashType ?sig)") (simp_all add: SignatureHash_def sighash_outputs_def GetOutputsHash_def
        SerializeHash_def Serialize_bytes_def WriteCompactSize_def MAX_SIZE_def example_checker_def)
  moreover have "der_lax_integers (butlast ?sig) = Some ([7], [8])" by code_simp
  then have "CPubKey_IsValid (CPubKey_Set ?key) \<and>
      CPubKey_Verify (secp example_checker) (CPubKey_Set ?key) h (butlast ?sig)" for h
    by (simp add: CPubKey_IsValid_def CPubKey_Set_def GetLen_def CPubKey_Verify_def ecdsa_signature_parse_der_lax_def
        example_checker_def toy_secp_def compact_half_def)
  moreover have "check_encodings (spend_env (example_env 0 (\<lambda>_ _ _. False)) example_checker) ?sig ?key = Inr ()"
    by (simp add: check_encodings_def CheckSignatureEncoding_def CheckPubKeyEncoding_def has_flag_def spend_env_def)
  ultimately show ?thesis
    using p2pkh_spend_signed [of "example_env 0 (\<lambda>_ _ _. False)" "Hash160 ?key" ?sig ?key example_checker]
    by (auto simp: Hash160_digest example_checker_def)
qed

end
