(* ===== verification/Block.thy ===== *)
theory Block
  imports Transaction Script_Num
begin

text \<open>
  Block headers and blocks: \<open>src/src/primitives/block.h\<close> and \<open>block.cpp\<close>.  A block extends the
  record of its header.  The header hash is a tagged SHA-256 applied twice; it is shown to commit
  to every field of the header.
\<close>

record CBlockHeader =
  nBlockVersion :: u32
  hashPrevBlock :: uint256
  hashMerkleRoot :: uint256
  nTime :: u32
  nBits :: u32
  nNonce :: u32

record CBlock = CBlockHeader +
  vtx :: "CTransaction list"

definition CBlockHeader_null :: CBlockHeader where
  "CBlockHeader_null = \<lparr>nBlockVersion = 0, hashPrevBlock = null_hash, hashMerkleRoot = null_hash,
     nTime = 0, nBits = 0, nNonce = 0\<rparr>"

definition CBlockHeader_IsNull :: "'a CBlockHeader_scheme \<Rightarrow> bool" where
  "CBlockHeader_IsNull h \<longleftrightarrow> nBits h = 0"

definition CBlockHeader_Serialize :: "'a CBlockHeader_scheme \<Rightarrow> byte list" where
  "CBlockHeader_Serialize h =
     WriteLE32 (nBlockVersion h) @ hashPrevBlock h @ hashMerkleRoot h @ WriteLE32 (nTime h) @
     WriteLE32 (nBits h) @ WriteLE32 (nNonce h)"

definition CBlockHeader_Unserialize :: "CBlockHeader reader" where
  "CBlockHeader_Unserialize s =
     bindE (ser_readdata32 s) (\<lambda>(v, s). bindE (stream_read 32 s) (\<lambda>(p, s). bindE (stream_read 32 s) (\<lambda>(m, s).
     bindE (ser_readdata32 s) (\<lambda>(t, s). bindE (ser_readdata32 s) (\<lambda>(b, s). bindE (ser_readdata32 s) (\<lambda>(n, s).
       Inr (\<lparr>nBlockVersion = v, hashPrevBlock = p, hashMerkleRoot = m, nTime = t, nBits = b, nNonce = n\<rparr>, s)))))))"

definition GetBlockHeader :: "CBlock \<Rightarrow> CBlockHeader" where
  "GetBlockHeader b = \<lparr>nBlockVersion = nBlockVersion b, hashPrevBlock = hashPrevBlock b,
     hashMerkleRoot = hashMerkleRoot b, nTime = nTime b, nBits = nBits b, nNonce = nNonce b\<rparr>"

definition CBlock_of_header :: "CBlockHeader \<Rightarrow> CTransaction list \<Rightarrow> CBlock" where
  "CBlock_of_header h txs = \<lparr>nBlockVersion = nBlockVersion h, hashPrevBlock = hashPrevBlock h,
     hashMerkleRoot = hashMerkleRoot h, nTime = nTime h, nBits = nBits h, nNonce = nNonce h, vtx = txs\<rparr>"

definition CBlock_Serialize :: "CBlock \<Rightarrow> ser_error + byte list" where
  "CBlock_Serialize b =
     bindE (Serialize_vector SerializeTransaction (vtx b)) (\<lambda>t. Inr (CBlockHeader_Serialize b @ t))"

definition CBlock_Unserialize :: "nat \<Rightarrow> nat \<Rightarrow> nat \<Rightarrow> CBlock reader" where
  "CBlock_Unserialize szIn szOut szTx s =
     bindE (CBlockHeader_Unserialize s) (\<lambda>(h, s).
       bindE (Unserialize_vector szTx (UnserializeTransaction szIn szOut) s) (\<lambda>(txs, s).
         Inr (CBlock_of_header h txs, s)))"

text \<open>\<open>HASHER_POW\<close> and the hash of a header.\<close>

definition HASHER_POW :: CSHA256 where
  "HASHER_POW = TaggedHash [0x50, 0x6f, 0x57]"

definition header_GetHash :: "'a CBlockHeader_scheme \<Rightarrow> uint256" where
  "header_GetHash h =
     GetSHA256 (hashwriter_write HASHER_POW (GetSHA256 (hashwriter_write HASHER_POW (CBlockHeader_Serialize h))))"

definition GetHeaderSize :: nat where
  "GetHeaderSize = 4 + 32 + 32 + 4 + 4 + 4"

definition GetSizeWithoutCoinbase :: "CBlock \<Rightarrow> nat" where
  "GetSizeWithoutCoinbase b =
     foldl (\<lambda>size tx. if IsCoinBase tx then size else size + GetTotalSize tx) GetHeaderSize (vtx b)"

text \<open>A block without a transaction or a first transaction without an input is not handled by the
  source; it is \<open>assert_failure\<close> here.\<close>

definition GetHeightFromCoinbase :: "'b openssl \<Rightarrow> CBlock \<Rightarrow> cxx_exn + int" where
  "GetHeightFromCoinbase B b =
     (case vtx b of [] \<Rightarrow> Inl assert_failure
      | tx # _ \<Rightarrow> (case vin tx of [] \<Rightarrow> Inl assert_failure
        | i # _ \<Rightarrow>
            let sig = scriptSig i
            in if sig = [] then Inl std_exception
               else let numlen = unat (sig ! 0)
                 in if numlen = OP_0 then Inr 0
                    else if numlen \<ge> OP_1 \<and> numlen \<le> OP_16 then Inr (int (numlen - OP_1 + 1))
                    else if length sig - 1 < numlen then Inl std_exception
                    else bindE (num_of_bytes B (take numlen (drop 1 sig)) False numlen False) (num_getint B)))"

subsection \<open>Serialization\<close>

definition valid_header :: "'a CBlockHeader_scheme \<Rightarrow> bool" where
  "valid_header h \<longleftrightarrow> length (hashPrevBlock h) = 32 \<and> length (hashMerkleRoot h) = 32"

lemma length_header: "valid_header h \<Longrightarrow> length (CBlockHeader_Serialize h) = GetHeaderSize"
  by (simp add: CBlockHeader_Serialize_def valid_header_def GetHeaderSize_def)

interpretation header: codec valid_header "\<lambda>h. Inr (CBlockHeader_Serialize h)" CBlockHeader_Unserialize
proof
  fix h bs r assume "valid_header (h :: CBlockHeader)" "Inr (CBlockHeader_Serialize h) = Inr bs"
  then show "CBlockHeader_Unserialize (bs @ r) = Inr (h, r)"
    by (auto simp: CBlockHeader_Serialize_def CBlockHeader_Unserialize_def valid_header_def uint256_codec.unser_ser)
next
  fix s h r assume "CBlockHeader_Unserialize s = Inr (h, r)"
  then show "valid_header h \<and> (\<exists>bs. Inr (CBlockHeader_Serialize h) = Inr bs \<and> s = bs @ r)"
    by (auto simp: CBlockHeader_Serialize_def CBlockHeader_Unserialize_def valid_header_def bindE_eq_Inr
        stream_read_eq_Inr read_fixed_eq_Inr)
qed

interpretation txs: codec "list_all valid_tx" "Serialize_vector SerializeTransaction"
    "Unserialize_vector szTx (UnserializeTransaction szIn szOut)" for szTx szIn szOut
  by (rule tx.vector_codec)

definition valid_block :: "CBlock \<Rightarrow> bool" where
  "valid_block b \<longleftrightarrow> valid_header b \<and> list_all valid_tx (vtx b)"

lemma block_header_parts:
  "CBlockHeader_Serialize (GetBlockHeader b) = CBlockHeader_Serialize b"
  "CBlock_of_header (GetBlockHeader b) (vtx b) = b" "GetBlockHeader (CBlock_of_header h txs) = h"
  "vtx (CBlock_of_header h txs) = txs" "valid_header (GetBlockHeader b) \<longleftrightarrow> valid_header b"
  "CBlockHeader_Serialize (CBlock_of_header h txs) = CBlockHeader_Serialize h"
  "valid_header (CBlock_of_header h txs) \<longleftrightarrow> valid_header h"
  by (simp_all add: CBlockHeader_Serialize_def GetBlockHeader_def CBlock_of_header_def valid_header_def)

interpretation block: codec valid_block CBlock_Serialize "CBlock_Unserialize szIn szOut szTx" for szIn szOut szTx
proof
  fix b bs r assume b: "valid_block b" "CBlock_Serialize b = Inr bs"
  then obtain t where t: "Serialize_vector SerializeTransaction (vtx b) = Inr t" "bs = CBlockHeader_Serialize b @ t"
    by (auto simp: CBlock_Serialize_def bindE_eq_Inr)
  have "Unserialize_vector szTx (UnserializeTransaction szIn szOut) (t @ r) = Inr (vtx b, r)"
    using b(1) by (intro txs.unser_ser [OF _ t(1)]) (simp add: valid_block_def)
  moreover have "CBlockHeader_Unserialize (CBlockHeader_Serialize b @ q) = Inr (GetBlockHeader b, q)" for q
    using header.unser_ser [of "GetBlockHeader b"] b(1) by (simp add: block_header_parts valid_block_def)
  ultimately show "CBlock_Unserialize szIn szOut szTx (bs @ r) = Inr (b, r)"
    by (simp add: t(2) CBlock_Unserialize_def block_header_parts)
next
  fix s b r assume "CBlock_Unserialize szIn szOut szTx s = Inr (b, r)"
  then obtain h txs s1 where "CBlockHeader_Unserialize s = Inr (h, s1)" "b = CBlock_of_header h txs"
      "Unserialize_vector szTx (UnserializeTransaction szIn szOut) s1 = Inr (txs, r)"
    by (auto simp: CBlock_Unserialize_def bindE_eq_Inr)
  then show "valid_block b \<and> (\<exists>bs. CBlock_Serialize b = Inr bs \<and> s = bs @ r)"
    by (auto simp: CBlock_Serialize_def valid_block_def block_header_parts dest!: header.ser_unser txs.ser_unser)
qed

subsection \<open>The header hash\<close>

definition pow_tag :: "byte list" where
  "pow_tag = sha256_digest [0x50, 0x6f, 0x57] @ sha256_digest [0x50, 0x6f, 0x57]"

lemma HASHER_POW_hasher: "sha256_hasher pow_tag HASHER_POW"
proof -
  have "fst (CSHA256_Finalize (CSHA256_Write CSHA256_new [0x50, 0x6f, 0x57])) = sha256_digest [0x50, 0x6f, 0x57]"
    using GetSHA256_hasher [OF new_hasher] by (simp add: GetSHA256_def hashwriter_write_def)
  then show ?thesis
    using hashwriter_hasher [OF new_hasher] by (simp add: HASHER_POW_def TaggedHash_def Let_def pow_tag_def)
qed

lemma header_GetHash_digest:
  "header_GetHash h = sha256_digest (pow_tag @ sha256_digest (pow_tag @ CBlockHeader_Serialize h))"
  by (simp add: header_GetHash_def GetSHA256_hasher [OF hashwriter_hasher [OF HASHER_POW_hasher]])

definition header_messages :: "'a CBlockHeader_scheme \<Rightarrow> byte list list" where
  "header_messages h = [pow_tag @ CBlockHeader_Serialize h, pow_tag @ sha256_digest (pow_tag @ CBlockHeader_Serialize h)]"

text \<open>Headers with the same hash are equal in every field, or SHA-256 has a collision among the four
  messages hashed.\<close>

lemma header_GetHash_commits:
  assumes "valid_header (g :: CBlockHeader)" "valid_header h" "header_GetHash g = header_GetHash h"
  shows "g = h \<or> collision (header_messages g) (header_messages h)"
proof (rule disjCI)
  assume nc: "\<not> collision (header_messages g) (header_messages h)"
  have "pow_tag @ sha256_digest (pow_tag @ CBlockHeader_Serialize g) = pow_tag @ sha256_digest (pow_tag @ CBlockHeader_Serialize h)"
    by (rule no_collision [OF nc]) (use assms(3) in \<open>simp_all add: header_messages_def header_GetHash_digest\<close>)
  then have d: "sha256_digest (pow_tag @ CBlockHeader_Serialize g) = sha256_digest (pow_tag @ CBlockHeader_Serialize h)" by simp
  have "pow_tag @ CBlockHeader_Serialize g = pow_tag @ CBlockHeader_Serialize h"
    by (rule no_collision [OF nc _ _ d]) (simp_all add: header_messages_def)
  then show "g = h" using header.ser_prefix_free [OF assms(1,2), of _ _ "[]" "[]"] by simp
qed

end
