(* ===== verification/Merkle.thy ===== *)
theory Merkle
  imports Block
begin

text \<open>
  Merkle roots and branches: \<open>src/src/consensus/merkle.cpp\<close>.  \<open>MerkleComputation\<close> keeps one inner
  hash per level, indexed by the binary digits of the number of leaves so far.  It is shown to
  compute the root of the tree that is built level by level, its mutation flag to mean that two
  complete sibling subtrees have equal hashes, and its branches to verify.  The loops over the levels end at level 32 in the
  model, where the shift of the source is undefined; with fewer than \<open>2 ^ 31\<close> leaves they never get there.
\<close>

subsection \<open>The computation\<close>

record merkle_state =
  inner_hash :: "nat \<Rightarrow> uint256"
  matchlevel :: int
  mutated :: bool
  pbranch :: "uint256 list"

text \<open>The sibling that is noted on the way up, when a branch is wanted.\<close>

definition note_branch :: "bool \<Rightarrow> nat \<Rightarrow> uint256 \<Rightarrow> merkle_state \<Rightarrow> bool \<Rightarrow> merkle_state \<times> bool" where
  "note_branch want level h st matchh =
     (if \<not> want then (st, matchh)
      else if matchh then (st\<lparr>pbranch := pbranch st @ [inner_hash st level]\<rparr>, True)
      else if matchlevel st = int level then (st\<lparr>pbranch := pbranch st @ [h]\<rparr>, True)
      else (st, matchh))"

function merkle_combine ::
  "bool \<Rightarrow> u32 \<Rightarrow> nat \<Rightarrow> merkle_state \<Rightarrow> uint256 \<Rightarrow> bool \<Rightarrow> merkle_state \<times> uint256 \<times> bool \<times> nat" where
  "merkle_combine want count level st h matchh =
     (if level < 32 \<and> \<not> bit count level then
        let (st, matchh) = note_branch want level h st matchh;
            st = st\<lparr>mutated := mutated st \<or> inner_hash st level = h\<rparr>
        in merkle_combine want count (level + 1) st (Hash_2 (inner_hash st level) h) matchh
      else (st, h, matchh, level))"
  by pat_completeness auto
termination by (relation "measure (\<lambda>(_, _, level, _). 32 - level)") auto

fun merkle_leaves :: "bool \<Rightarrow> u32 \<Rightarrow> uint256 list \<Rightarrow> u32 \<Rightarrow> merkle_state \<Rightarrow> u32 \<times> merkle_state" where
  "merkle_leaves want branchpos [] count st = (count, st)"
| "merkle_leaves want branchpos (h # leaves) count st =
     (let matchh = (count = branchpos);
          count = count + 1;
          (st, h, matchh, level) = merkle_combine want count 0 st h matchh;
          st = st\<lparr>inner_hash := (inner_hash st)(level := h),
                  matchlevel := if matchh then int level else matchlevel st\<rparr>
      in merkle_leaves want branchpos leaves count st)"

text \<open>The final sweep over the rightmost branch.\<close>

function lowest_level :: "u32 \<Rightarrow> nat \<Rightarrow> nat" where
  "lowest_level count level = (if level < 32 \<and> \<not> bit count level then lowest_level count (level + 1) else level)"
  by pat_completeness auto
termination by (relation "measure (\<lambda>(_, level). 32 - level)") auto

function merkle_propagate ::
  "bool \<Rightarrow> u32 \<Rightarrow> nat \<Rightarrow> merkle_state \<Rightarrow> uint256 \<Rightarrow> bool \<Rightarrow> merkle_state \<times> uint256 \<times> bool \<times> nat" where
  "merkle_propagate want count level st h matchh =
     (if level < 32 \<and> \<not> bit count level then
        let (st, matchh) = note_branch want level h st matchh
        in merkle_propagate want count (level + 1) st (Hash_2 (inner_hash st level) h) matchh
      else (st, h, matchh, level))"
  by pat_completeness auto
termination by (relation "measure (\<lambda>(_, _, level, _). 32 - level)") auto

declare merkle_combine.simps [simp del] lowest_level.simps [simp del] merkle_propagate.simps [simp del]

lemma merkle_propagate_level:
  "merkle_propagate want count level st h matchh = (st', h', matchh', level') \<Longrightarrow> level \<le> level'"
proof (induction want count level st h matchh rule: merkle_propagate.induct)
  case (1 want count level st h matchh)
  show ?case
  proof (cases "level < 32 \<and> \<not> bit count level")
    case True
    obtain st1 m1 where n: "note_branch want level h st matchh = (st1, m1)" by (cases "note_branch want level h st matchh")
    with 1(2) True have "merkle_propagate want count (level + 1) st1 (Hash_2 (inner_hash st1 level) h) m1 = (st', h', matchh', level')"
      by (simp add: merkle_propagate.simps [of want count level])
    from 1(1) [OF True n [symmetric] refl this] show ?thesis by simp
  qed (use 1(2) in \<open>auto simp: merkle_propagate.simps [of want count level] split: if_splits\<close>)
qed

function merkle_sweep :: "bool \<Rightarrow> u32 \<Rightarrow> nat \<Rightarrow> merkle_state \<Rightarrow> uint256 \<Rightarrow> bool \<Rightarrow> merkle_state \<times> uint256" where
  "merkle_sweep want count level st h matchh =
     (if level < 32 \<and> count \<noteq> push_bit level 1 then
        let st = (if want \<and> matchh then st\<lparr>pbranch := pbranch st @ [h]\<rparr> else st);
            count = count + push_bit level 1;
            (st, h, matchh, level) = merkle_propagate want count (level + 1) st (Hash_2 h h) matchh
        in merkle_sweep want count level st h matchh
      else (st, h))"
  by pat_completeness auto
termination
  by (relation "measure (\<lambda>(_, _, level, _). 32 - level)") (auto dest!: merkle_propagate_level [OF sym])

declare merkle_sweep.simps [simp del]

definition MerkleComputation :: "bool \<Rightarrow> u32 \<Rightarrow> uint256 list \<Rightarrow> uint256 \<times> bool \<times> uint256 list" where
  "MerkleComputation want branchpos leaves =
     (if leaves = [] then (null_hash, False, [])
      else let st = \<lparr>inner_hash = \<lambda>_. null_hash, matchlevel = - 1, mutated = False, pbranch = []\<rparr>;
               (count, st) = merkle_leaves want branchpos leaves 0 st;
               level = lowest_level count 0;
               (st', h) = merkle_sweep want count level st (inner_hash st level) (matchlevel st = int level)
        in (h, mutated st, pbranch st'))"

definition ComputeMerkleRoot :: "uint256 list \<Rightarrow> uint256 \<times> bool" where
  "ComputeMerkleRoot leaves = (let (root, m, _) = MerkleComputation False (- 1) leaves in (root, m))"

definition ComputeMerkleBranch :: "uint256 list \<Rightarrow> u32 \<Rightarrow> uint256 list" where
  "ComputeMerkleBranch leaves position = (let (_, _, ret) = MerkleComputation True position leaves in ret)"

fun ComputeMerkleRootFromBranch :: "uint256 \<Rightarrow> uint256 list \<Rightarrow> u32 \<Rightarrow> uint256" where
  "ComputeMerkleRootFromBranch hash [] nIndex = hash"
| "ComputeMerkleRootFromBranch hash (it # vMerkleBranch) nIndex =
     ComputeMerkleRootFromBranch
       (if it = null_hash then Hash_2 hash hash
        else if nIndex AND 1 \<noteq> 0 then Hash_2 it hash
        else Hash_2 hash it) vMerkleBranch (drop_bit 1 nIndex)"

fun block_leaves :: "CTransaction list \<Rightarrow> ser_error + uint256 list" where
  "block_leaves [] = Inr []"
| "block_leaves (tx # txs) = bindE (ComputeHash tx) (\<lambda>h. bindE (block_leaves txs) (\<lambda>hs. Inr (h # hs)))"

definition BlockMerkleRoot :: "CBlock \<Rightarrow> ser_error + (uint256 \<times> bool)" where
  "BlockMerkleRoot block = bindE (block_leaves (vtx block)) (\<lambda>leaves. Inr (ComputeMerkleRoot leaves))"

definition BlockMerkleBranch :: "CBlock \<Rightarrow> u32 \<Rightarrow> ser_error + uint256 list" where
  "BlockMerkleBranch block position =
     bindE (block_leaves (vtx block)) (\<lambda>leaves. Inr (ComputeMerkleBranch leaves position))"

subsection \<open>The tree\<close>

text \<open>Level by level: neighbours are hashed together, a last node without neighbour with itself.\<close>

fun merkle_level :: "uint256 list \<Rightarrow> uint256 list" where
  "merkle_level [] = []"
| "merkle_level [a] = [Hash_2 a a]"
| "merkle_level (a # b # hs) = Hash_2 a b # merkle_level hs"

lemma length_merkle_level [simp]: "length (merkle_level hs) = (length hs + 1) div 2"
  by (induction hs rule: merkle_level.induct) auto

lemma merkle_level_eq_Nil [simp]: "merkle_level hs = [] \<longleftrightarrow> hs = []"
  by (cases hs rule: merkle_level.cases) auto

function merkle_tree_root :: "uint256 list \<Rightarrow> uint256" where
  "merkle_tree_root [] = null_hash"
| "merkle_tree_root [h] = h"
| "merkle_tree_root (a # b # hs) = merkle_tree_root (merkle_level (a # b # hs))"
  by pat_completeness auto
termination by (relation "measure length") auto

text \<open>Node \<open>i\<close> of level \<open>k\<close>, and the number of nodes of the level.\<close>

definition width :: "uint256 list \<Rightarrow> nat \<Rightarrow> nat" where
  "width L k = (length L + 2 ^ k - 1) div 2 ^ k"

fun node :: "uint256 list \<Rightarrow> nat \<Rightarrow> nat \<Rightarrow> uint256" where
  "node L 0 i = L ! i"
| "node L (Suc k) i = Hash_2 (node L k (2 * i)) (if 2 * i + 1 < width L k then node L k (2 * i + 1) else node L k (2 * i))"

lemma less_width_iff: "i < width L k \<longleftrightarrow> i * 2 ^ k < length L"
proof -
  have "i < width L k \<longleftrightarrow> i + 1 \<le> width L k" by linarith
  also have "\<dots> \<longleftrightarrow> (i + 1) * 2 ^ k \<le> length L + 2 ^ k - 1" unfolding width_def by (simp add: less_eq_div_iff_mult_less_eq)
  also have "(i + 1) * 2 ^ k = i * 2 ^ k + 2 ^ k" by simp
  also have "i * 2 ^ k + 2 ^ k \<le> length L + 2 ^ k - 1 \<longleftrightarrow> i * 2 ^ k < length L"
    using zero_less_power [of "2 :: nat" k] by linarith
  finally show ?thesis .
qed

lemma width_eqI: "(w - 1) * 2 ^ k < length L \<Longrightarrow> length L \<le> w * 2 ^ k \<Longrightarrow> 0 < w \<Longrightarrow> width L k = w"
  using less_width_iff [of "w - 1" L k] less_width_iff [of w L k] by auto

lemma width_0 [simp]: "width L 0 = length L"
  by (simp add: width_def)

lemma width_Suc: "width L (Suc k) = (width L k + 1) div 2"
proof (cases "L = []")
  case False
  let ?w = "width L k"
  have "length L > 0" using False by simp
  then have w: "0 < ?w" "(?w - 1) * 2 ^ k < length L" "length L \<le> ?w * 2 ^ k"
    using less_width_iff [of 0 L k] less_width_iff [of "?w - 1" L k] less_width_iff [of ?w L k] by auto
  have e: "x * 2 ^ Suc k = x * 2 * 2 ^ k" for x :: nat by simp
  show ?thesis
  proof (rule width_eqI)
    have "((?w + 1) div 2 - 1) * 2 \<le> ?w - 1" using w(1) by linarith
    then have "((?w + 1) div 2 - 1) * 2 * 2 ^ k \<le> (?w - 1) * 2 ^ k" by (rule mult_le_mono1)
    with w(2) show "((?w + 1) div 2 - 1) * 2 ^ Suc k < length L" unfolding e by linarith
    have "?w \<le> (?w + 1) div 2 * 2" by linarith
    then have "?w * 2 ^ k \<le> (?w + 1) div 2 * 2 * 2 ^ k" by (rule mult_le_mono1)
    with w(3) show "length L \<le> (?w + 1) div 2 * 2 ^ Suc k" unfolding e by linarith
  qed (use w(1) in linarith)
qed (simp add: width_def)

lemma nth_merkle_level:
  "i < (length hs + 1) div 2 \<Longrightarrow>
     merkle_level hs ! i = Hash_2 (hs ! (2 * i)) (if 2 * i + 1 < length hs then hs ! (2 * i + 1) else hs ! (2 * i))"
proof (induction hs arbitrary: i rule: merkle_level.induct)
  case (3 a b hs)
  then show ?case by (cases i) auto
qed auto

lemma node_level: "width (merkle_level L) k = width L (Suc k)" "i < width L (Suc k) \<Longrightarrow> node (merkle_level L) k i = node L (Suc k) i"
proof (induction k arbitrary: i)
  case 0
  { case 1 show ?case by (simp add: width_Suc) }
  { case 2 then show ?case by (simp add: nth_merkle_level width_Suc) }
next
  case (Suc k)
  { case 1 show ?case using Suc.IH(1) by (simp add: width_Suc) }
  {
    case 2
    then have i: "2 * i < width L (Suc k)" using width_Suc [of L "Suc k"] by linarith
    then show ?case
      using Suc.IH(1) Suc.IH(2) [OF i] Suc.IH(2) [of "2 * i + 1"]
      by (simp add: node.simps(2) [of "merkle_level L" k] node.simps(2) [of L "Suc k"] del: node.simps(2))
  }
qed

lemma merkle_tree_root_node:
  "L \<noteq> [] \<Longrightarrow> width L k = 1 \<Longrightarrow> (\<And>j. j < k \<Longrightarrow> width L j \<noteq> 1) \<Longrightarrow> merkle_tree_root L = node L k 0"
proof (induction L arbitrary: k rule: merkle_tree_root.induct)
  case (2 h)
  then have "k = 0" by (cases k) force+
  then show ?case by simp
next
  case (3 a b hs)
  then obtain j where k: "k = Suc j" by (cases k) auto
  have "merkle_tree_root (merkle_level (a # b # hs)) = node (merkle_level (a # b # hs)) j 0"
    using 3 k by (intro 3(1)) (simp_all add: node_level del: merkle_level.simps)
  with 3 k node_level(2) [of 0 "a # b # hs" j] show ?case by simp
qed simp

subsection \<open>The leaves\<close>

lemma bit_count: "bit (count :: u32) l \<longleftrightarrow> bit (unat count) l"
  by (simp add: bit_unsigned_iff)

text \<open>A zero digit above zero digits: two nodes of the level are complete together.\<close>

lemma carry_level:
  assumes "2 ^ l dvd x" "\<not> bit x l" "0 < (x :: nat)"
  obtains m where "0 < m" "x = 2 ^ Suc l * m" "x div 2 ^ l = 2 * m" "x div 2 ^ Suc l = m"
    "bit (x - 1) l" "(x - 1) div 2 ^ l = 2 * m - 1"
proof -
  obtain q where q: "x = 2 ^ l * q" using assms(1) by blast
  have "even q" using assms(2) by (simp add: q bit_iff_odd)
  then obtain m where m: "q = 2 * m" by blast
  have x: "x = 2 ^ Suc l * m" "0 < m" using q m assms(3) by auto
  have "(x - 1) div 2 ^ l = 2 * m - 1"
  proof (rule div_nat_eqI)
    show "2 ^ l * (2 * m - 1) \<le> x - 1"
      by (auto simp: q m right_diff_distrib' Suc_le_eq intro!: diff_le_mono2)
    show "x - 1 < 2 ^ l * Suc (2 * m - 1)" using x(2) assms(3) by (simp add: q m)
  qed
  with x(2) have "(x - 1) div 2 ^ l = 2 * m - 1" "bit (x - 1) l" by (simp_all add: bit_iff_odd)
  with x q m that show thesis by simp
qed

lemma next_dvd: "2 ^ l dvd x \<Longrightarrow> \<not> bit x l \<Longrightarrow> 2 ^ Suc l dvd (x :: nat)"
  by (cases "x = 0") (auto elim: carry_level)

text \<open>What the state records after \<open>c\<close> leaves: the complete nodes of the binary digits of \<open>c\<close>; the
  siblings of the leaf at position \<open>p\<close> up to the node that contains it.\<close>

definition inner_ok :: "uint256 list \<Rightarrow> nat \<Rightarrow> merkle_state \<Rightarrow> bool" where
  "inner_ok L c st \<longleftrightarrow> (\<forall>l. bit c l \<longrightarrow> inner_hash st l = node L l (c div 2 ^ l - 1))"

definition sibling :: "uint256 list \<Rightarrow> nat \<Rightarrow> nat \<Rightarrow> uint256" where
  "sibling L p k = (let i = p div 2 ^ k in
     if odd i then node L k (i - 1) else if i + 1 < width L k then node L k (i + 1) else node L k i)"

definition waiting :: "uint256 list \<Rightarrow> nat \<Rightarrow> nat \<Rightarrow> nat \<Rightarrow> merkle_state \<Rightarrow> bool" where
  "waiting L p c l st \<longleftrightarrow>
     (if p < c then \<exists>m \<ge> l. matchlevel st = int m \<and> bit c m \<and> p div 2 ^ m = c div 2 ^ m - 1 \<and> pbranch st = map (sibling L p) [0 ..< m]
      else matchlevel st = - 1 \<and> pbranch st = [])"

definition on_path :: "uint256 list \<Rightarrow> nat \<Rightarrow> nat \<Rightarrow> nat \<Rightarrow> merkle_state \<Rightarrow> bool \<Rightarrow> bool" where
  "on_path L p x l st matchh \<longleftrightarrow>
     (if matchh then p div 2 ^ l = x div 2 ^ l - 1 \<and> pbranch st = map (sibling L p) [0 ..< l]
      else p \<noteq> x - 1 \<and> waiting L p (x - 1) l st)"

definition equal_pair :: "uint256 list \<Rightarrow> nat \<Rightarrow> nat \<Rightarrow> bool" where
  "equal_pair L k x \<longleftrightarrow> 2 ^ Suc k dvd x \<and> 0 < x \<and> node L k (x div 2 ^ k - 2) = node L k (x div 2 ^ k - 1)"

definition combine_inv :: "uint256 list \<Rightarrow> bool \<Rightarrow> nat \<Rightarrow> nat \<Rightarrow> nat \<Rightarrow> merkle_state \<Rightarrow> uint256 \<Rightarrow> bool \<Rightarrow> bool" where
  "combine_inv L want p x l st h matchh \<longleftrightarrow>
     inner_ok L (x - 1) st \<and> 2 ^ l dvd x \<and> h = node L l (x div 2 ^ l - 1) \<and> (want \<longrightarrow> on_path L p x l st matchh) \<and>
     (mutated st \<longleftrightarrow> (\<exists>y k. y < x \<and> equal_pair L k y) \<or> (\<exists>k < l. equal_pair L k x))"

lemma node_pair:
  assumes "0 < m" "2 ^ Suc l * m \<le> length L"
  shows "Hash_2 (node L l (2 * m - 2)) (node L l (2 * m - 1)) = node L (Suc l) (m - 1)" "2 * m - 1 < width L l"
proof -
  have e: "2 * (m - 1) = 2 * m - 2" "2 * m - 2 + 1 = 2 * m - 1" using assms(1) by simp_all
  have "(2 * m - 1) * 2 ^ l < 2 * m * 2 ^ l" using assms(1) by simp
  then show "2 * m - 1 < width L l" unfolding less_width_iff using assms(2)
    by (elim less_le_trans) (simp add: ac_simps)
  then show "Hash_2 (node L l (2 * m - 2)) (node L l (2 * m - 1)) = node L (Suc l) (m - 1)"
    unfolding node.simps e by simp
qed

declare node.simps(2) [simp del]

lemma mutated_update [simp]:
  "on_path L p x l (st\<lparr>mutated := b\<rparr>) matchh = on_path L p x l st matchh"
  "inner_ok L c (st\<lparr>mutated := b\<rparr>) = inner_ok L c st"
  by (simp_all add: on_path_def waiting_def inner_ok_def)

lemma combine_step:
  assumes "combine_inv L want p x l st h matchh" "\<not> bit x l" "0 < x" "x \<le> length L"
    "note_branch want l h st matchh = (st', matchh')"
  shows "combine_inv L want p x (Suc l) (st'\<lparr>mutated := mutated st' \<or> inner_hash st' l = h\<rparr>)
    (Hash_2 (inner_hash st' l) h) matchh'"
proof -
  have inv: "inner_ok L (x - 1) st" "2 ^ l dvd x" "h = node L l (x div 2 ^ l - 1)" "want \<longrightarrow> on_path L p x l st matchh"
      "mutated st \<longleftrightarrow> (\<exists>y k. y < x \<and> equal_pair L k y) \<or> (\<exists>k < l. equal_pair L k x)"
    using assms(1) by (simp_all add: combine_inv_def)
  obtain m where m: "0 < m" "x = 2 ^ Suc l * m" "x div 2 ^ l = 2 * m" "x div 2 ^ Suc l = m"
      "bit (x - 1) l" "(x - 1) div 2 ^ l = 2 * m - 1"
    using carry_level [OF inv(2) assms(2,3)] by metis
  have st': "inner_hash st' = inner_hash st" "mutated st' = mutated st" "matchlevel st' = matchlevel st"
    using assms(5) by (auto simp: note_branch_def split: if_splits)
  have h: "inner_hash st l = node L l (2 * m - 2)" "h = node L l (2 * m - 1)"
    using inv(1,3) m by (auto simp: inner_ok_def numeral_2_eq_2)
  note pair = node_pair [OF m(1), of l L]
  have "2 ^ Suc l * m \<le> length L" using m(2) assms(4) by simp
  note pair = pair [OF this]
  have dvd: "2 ^ Suc l dvd x" using m(2) by simp
  have o: "odd (2 * m - 1)" "2 * m - 1 - 1 = 2 * m - 2" "even (2 * m - 2)" "2 * m - 2 + 1 = 2 * m - 1"
    using m(1) by (cases m; simp)+
  have "on_path L p x (Suc l) st' matchh'" if want
  proof -
    have path: "on_path L p x l st matchh" using inv(4) that by simp
    have half: "p div 2 ^ Suc l = p div 2 ^ l div 2" by (simp only: power_Suc2 div_mult2_eq)
    consider (match) matchh | (join) "\<not> matchh" "matchlevel st = int l" | (skip) "\<not> matchh" "matchlevel st \<noteq> int l" by blast
    then show ?thesis
    proof cases
      case match
      then have i: "p div 2 ^ l = 2 * m - 1" "pbranch st = map (sibling L p) [0 ..< l]"
        using path m(3) by (simp_all add: on_path_def)
      then have "sibling L p l = inner_hash st l" using h(1) o by (simp add: sibling_def Let_def)
      moreover have "p div 2 ^ Suc l = m - 1" unfolding half i(1) using m(1) by simp
      ultimately show ?thesis using match i(2) m(4) that assms(5) by (auto simp: on_path_def note_branch_def)
    next
      case join
      then have "p < x - 1" "p div 2 ^ l = 2 * m - 2" "pbranch st = map (sibling L p) [0 ..< l]"
        using path m(6) by (auto simp: on_path_def waiting_def numeral_2_eq_2 split: if_splits)
      note i = this
      have "sibling L p l = h" using h(2) pair(2) i(2) o by (simp add: sibling_def Let_def)
      moreover have "p div 2 ^ Suc l = m - 1" unfolding half i(2) using m(1) by simp
      ultimately show ?thesis using join i(3) m(4) that assms(5) by (auto simp: on_path_def note_branch_def)
    next
      case skip
      then have "st' = st" "matchh' = matchh" using assms(5) by (auto simp: note_branch_def split: if_splits)
      moreover have "p \<noteq> x - 1" "waiting L p (x - 1) (Suc l) st"
        using path skip by (auto simp: on_path_def waiting_def Suc_le_eq le_less split: if_splits)
      ultimately show ?thesis using skip by (simp add: on_path_def)
    qed
  qed
  moreover have "equal_pair L l x \<longleftrightarrow> inner_hash st l = h" unfolding equal_pair_def h using dvd assms(3) m(3) by simp
  then have "mutated st \<or> inner_hash st l = h \<longleftrightarrow> (\<exists>y k. y < x \<and> equal_pair L k y) \<or> (\<exists>k < Suc l. equal_pair L k x)"
    unfolding inv(5) by (auto simp: less_Suc_eq)
  moreover have "inner_ok L (x - 1) st'" using inv(1) st'(1) by (simp add: inner_ok_def)
  ultimately show ?thesis
    unfolding combine_inv_def using st' pair(1) h m(4) dvd by simp
qed

lemma level_bound: "2 ^ l \<le> c \<Longrightarrow> unat (count :: u32) = c \<Longrightarrow> l < 32"
  using unat_word_less(2) [of count] power_increasing [of 32 l "2 :: nat"] by (intro not_le_imp_less notI) simp

lemma merkle_combine_inv:
  "combine_inv L want p x l st h matchh \<Longrightarrow> unat count = x \<Longrightarrow> 0 < x \<Longrightarrow> x \<le> length L \<Longrightarrow>
   merkle_combine want count l st h matchh = (st', h', matchh', l') \<Longrightarrow>
   combine_inv L want p x l' st' h' matchh' \<and> bit x l'"
proof (induction want count l st h matchh rule: merkle_combine.induct)
  case (1 want count l st h matchh)
  show ?case
  proof (cases "l < 32 \<and> \<not> bit count l")
    case True
    obtain st1 m1 where n: "note_branch want l h st matchh = (st1, m1)" by (cases "note_branch want l h st matchh")
    let ?st = "st1\<lparr>mutated := mutated st1 \<or> inner_hash st1 l = h\<rparr>"
    have inv: "combine_inv L want p x (l + 1) ?st (Hash_2 (inner_hash ?st l) h) m1"
      using combine_step [OF 1(2) _ 1(4,5) n] True 1(3) by (simp add: bit_count)
    have "merkle_combine want count (l + 1) ?st (Hash_2 (inner_hash ?st l) h) m1 = (st', h', matchh', l')"
      using 1(6) True n by (simp add: merkle_combine.simps [of want count l] Let_def)
    from 1(1) [OF True n [symmetric] refl refl inv 1(3-5) this] show ?thesis .
  next
    case False
    then have eq: "st' = st" "h' = h" "matchh' = matchh" "l' = l"
      using 1(6) by (auto simp: merkle_combine.simps [of want count l] split: if_splits)
    have "2 ^ l \<le> x" using 1(2,4) by (simp add: combine_inv_def dvd_imp_le)
    then have "l < 32" by (rule level_bound [of _ _ count]) (rule 1(3))
    with False have "bit x l" using 1(3) by (simp add: bit_count)
    with eq 1(2) show ?thesis by simp
  qed
qed

lemma lowest_bit:
  assumes "2 ^ l dvd x" "bit (x :: nat) l"
  shows "k < l \<Longrightarrow> \<not> bit x k" "2 ^ Suc k dvd x \<Longrightarrow> k < l" "l < k \<Longrightarrow> (x - 1) div 2 ^ k = x div 2 ^ k"
    "l < k \<Longrightarrow> bit (x - 1) k \<longleftrightarrow> bit x k" "\<not> bit (x - 1) l" "0 < x"
proof -
  obtain q where q: "x = 2 ^ l * q" using assms(1) by blast
  have "odd q" using assms(2) by (simp add: q bit_iff_odd)
  show "0 < x" using assms(2) by (intro gr0I) simp
  show "\<not> bit x k" if "k < l"
  proof -
    have "2 ^ Suc k dvd x" using that assms(1) by (meson Suc_leI dvd_trans le_imp_power_dvd)
    then show ?thesis by (auto simp: bit_iff_odd)
  qed
  show d: "k < l" if "2 ^ Suc k dvd x" for k
  proof (rule ccontr)
    assume "\<not> k < l"
    then have "2 ^ Suc l dvd x" using that by (meson dvd_trans le_imp_power_dvd not_less Suc_le_mono)
    with assms(2) show False by (auto simp: bit_iff_odd)
  qed
  show e: "(x - 1) div 2 ^ k = x div 2 ^ k" if "l < k" for k
  proof -
    have "\<not> 2 ^ k dvd Suc (x - 1)" using d [of "k - 1"] that \<open>0 < x\<close> by auto
    then show ?thesis using div_Suc [of "x - 1" "2 ^ k"] \<open>0 < x\<close> by (simp add: dvd_eq_mod_eq_0)
  qed
  show "bit (x - 1) k \<longleftrightarrow> bit x k" if "l < k" using e [OF that] by (simp add: bit_iff_odd)
  have "(x - 1) div 2 ^ l = q - 1"
  proof (rule div_nat_eqI)
    show "2 ^ l * (q - 1) \<le> x - 1" by (auto simp: q right_diff_distrib' Suc_le_eq intro!: diff_le_mono2)
    show "x - 1 < 2 ^ l * Suc (q - 1)" using \<open>0 < x\<close> by (simp add: q)
  qed
  then show "\<not> bit (x - 1) l" using \<open>odd q\<close> by (simp add: bit_iff_odd)
qed

definition leaves_inv :: "uint256 list \<Rightarrow> bool \<Rightarrow> nat \<Rightarrow> nat \<Rightarrow> merkle_state \<Rightarrow> bool" where
  "leaves_inv L want p c st \<longleftrightarrow> inner_ok L c st \<and> (want \<longrightarrow> waiting L p c 0 st) \<and>
     (mutated st \<longleftrightarrow> (\<exists>y k. y \<le> c \<and> equal_pair L k y))"

lemma store_leaf:
  assumes "combine_inv L want p x l st h matchh" "bit x l"
  shows "leaves_inv L want p x (st\<lparr>inner_hash := (inner_hash st)(l := h),
    matchlevel := if matchh then int l else matchlevel st\<rparr>)" (is "leaves_inv L want p x ?st")
proof -
  have inv: "inner_ok L (x - 1) st" "2 ^ l dvd x" "h = node L l (x div 2 ^ l - 1)" "want \<longrightarrow> on_path L p x l st matchh"
      "mutated st \<longleftrightarrow> (\<exists>y k. y < x \<and> equal_pair L k y) \<or> (\<exists>k < l. equal_pair L k x)"
    using assms(1) by (simp_all add: combine_inv_def)
  note low = lowest_bit [OF inv(2) assms(2)]
  have "inner_ok L x ?st" unfolding inner_ok_def
  proof (intro allI impI)
    fix k assume k: "bit x k"
    with low(1) [of k] consider "k = l" | "l < k" by linarith
    then show "inner_hash ?st k = node L k (x div 2 ^ k - 1)"
    proof cases
      case 2
      then show ?thesis using inv(1) k low(3) [OF 2] low(4) [OF 2] by (simp add: inner_ok_def)
    qed (simp add: inv(3))
  qed
  moreover have "waiting L p x 0 ?st" if want
  proof (cases matchh)
    case True
    with inv(4) that have m: "p div 2 ^ l = x div 2 ^ l - 1" "pbranch st = map (sibling L p) [0 ..< l]"
      by (simp_all add: on_path_def)
    have "x div 2 ^ l \<noteq> 0" using assms(2) odd_pos [of "x div 2 ^ l"] by (simp add: bit_iff_odd)
    then have "p < x" using m(1) div_le_mono [of x p "2 ^ l"] by (intro not_le_imp_less) auto
    with True m assms(2) show ?thesis by (simp add: waiting_def)
  next
    case False
    with inv(4) that have w: "p \<noteq> x - 1" "waiting L p (x - 1) l st" by (simp_all add: on_path_def)
    show ?thesis
    proof (cases "p < x - 1")
      case True
      with w(2) obtain m where m: "l \<le> m" "matchlevel st = int m" "bit (x - 1) m" "p div 2 ^ m = (x - 1) div 2 ^ m - 1"
          "pbranch st = map (sibling L p) [0 ..< m]"
        by (auto simp: waiting_def)
      have "l < m" using m(1,3) low(5) by (cases "l = m") auto
      with m low(3,4) True False show ?thesis by (auto simp: waiting_def)
    next
      case not_yet: False
      with w low(6) have "\<not> p < x" by linarith
      with w(2) not_yet False show ?thesis by (simp add: waiting_def)
    qed
  qed
  moreover have "(\<exists>k < l. equal_pair L k x) \<longleftrightarrow> (\<exists>k. equal_pair L k x)" using low(2) by (auto simp: equal_pair_def)
  then have "mutated st \<longleftrightarrow> (\<exists>y k. y \<le> x \<and> equal_pair L k y)" unfolding inv(5) by (auto simp: le_less)
  ultimately show ?thesis by (simp add: leaves_inv_def)
qed

lemma merkle_leaves_inv:
  "leaves_inv L want p c st \<Longrightarrow> unat count = c \<Longrightarrow> hs = drop c L \<Longrightarrow> length L < 2 ^ 32 \<Longrightarrow> c \<le> length L \<Longrightarrow>
   (want \<longrightarrow> unat branchpos = p) \<Longrightarrow> merkle_leaves want branchpos hs count st = (count', st') \<Longrightarrow>
   leaves_inv L want p (length L) st' \<and> unat count' = length L"
proof (induction hs arbitrary: c count st)
  case (Cons h hs)
  have c: "c < length L" using Cons.prems(3) by (intro not_le_imp_less notI) simp
  have "h # hs = L ! c # drop (Suc c) L" unfolding Cons_nth_drop_Suc [OF c] by (rule Cons.prems(3))
  with c have c: "c < length L" "h = L ! c" "hs = drop (c + 1) L" by simp_all
  have count: "unat (count + 1) = c + 1" using Cons.prems(2,4) c(1) by (simp add: unat_word_ariths)
  obtain st1 h1 m1 l where comb: "merkle_combine want (count + 1) 0 st h (count = branchpos) = (st1, h1, m1, l)"
    by (cases "merkle_combine want (count + 1) 0 st h (count = branchpos)") auto
  have "combine_inv L want p (c + 1) 0 st h (count = branchpos)"
    using Cons.prems(1,2,6) c(2)
    by (auto simp: combine_inv_def leaves_inv_def on_path_def waiting_def less_Suc_eq_le word_unat_eq_iff)
  from merkle_combine_inv [OF this count _ _ comb] c(1)
  have "combine_inv L want p (c + 1) l st1 h1 m1" "bit (c + 1) l" by simp_all
  from store_leaf [OF this] have "leaves_inv L want p (c + 1) (st1\<lparr>inner_hash := (inner_hash st1)(l := h1),
      matchlevel := if m1 then int l else matchlevel st1\<rparr>)" .
  from Cons.IH [OF this count c(3) Cons.prems(4) _ Cons.prems(6)] Cons.prems(7) c(1) comb show ?case by simp
qed simp

subsection \<open>The sweep\<close>

text \<open>The number of leaves is rounded up to \<open>c\<close>, a multiple of \<open>2 ^ l\<close>; \<open>h\<close> is the last node of level \<open>l\<close>.\<close>

definition sweep_inv :: "uint256 list \<Rightarrow> bool \<Rightarrow> nat \<Rightarrow> nat \<Rightarrow> nat \<Rightarrow> merkle_state \<Rightarrow> uint256 \<Rightarrow> bool \<Rightarrow> bool" where
  "sweep_inv L want p c l st h matchh \<longleftrightarrow>
     inner_ok L (length L) st \<and> 2 ^ l dvd c \<and> length L \<le> c \<and> c < length L + 2 ^ l \<and> L \<noteq> [] \<and>
     h = node L l (c div 2 ^ l - 1) \<and> (c = 2 ^ l \<longrightarrow> l = 0 \<or> 2 ^ (l - 1) < length L) \<and>
     (want \<longrightarrow> (if matchh then p div 2 ^ l = c div 2 ^ l - 1 \<and> pbranch st = map (sibling L p) [0 ..< l]
        else \<exists>m \<ge> l. matchlevel st = int m \<and> bit (length L) m \<and> p div 2 ^ m = length L div 2 ^ m - 1 \<and>
          pbranch st = map (sibling L p) [0 ..< m]))"

lemma sweep_width: "sweep_inv L want p c l st h matchh \<Longrightarrow> width L l = c div 2 ^ l"
proof -
  assume inv: "sweep_inv L want p c l st h matchh"
  then obtain q where q: "c = 2 ^ l * q" by (auto simp: sweep_inv_def)
  have "0 < c" using inv by (auto simp: sweep_inv_def intro: gr0I)
  show ?thesis
  proof (rule width_eqI)
    show "(c div 2 ^ l - 1) * 2 ^ l < length L" 
    proof -
      have "c < length L + 2 ^ l" "0 < length L" using inv by (auto simp: sweep_inv_def)
      moreover have "(c div 2 ^ l - 1) * 2 ^ l = c - 2 ^ l" by (simp add: q left_diff_distrib' ac_simps)
      ultimately show ?thesis by linarith
    qed
    show "length L \<le> c div 2 ^ l * 2 ^ l" using inv by (simp add: sweep_inv_def q ac_simps)
    show "0 < c div 2 ^ l" using \<open>0 < c\<close> by (simp add: q)
  qed
qed

lemma round_div:
  assumes "2 ^ l dvd c" "n < c" "c < n + 2 ^ l"
  shows "n div 2 ^ l = c div 2 ^ l - (1 :: nat)"
proof -
  obtain q where q: "c = 2 ^ l * q" using assms(1) by blast
  have "0 < q" using assms(2) by (auto simp: q intro: gr0I)
  show ?thesis
  proof (rule div_nat_eqI)
    show "2 ^ l * (c div 2 ^ l - 1) \<le> n" using assms(3) by (simp add: q right_diff_distrib')
    show "n < 2 ^ l * Suc (c div 2 ^ l - 1)" using assms(2) \<open>0 < q\<close> by (simp add: q)
  qed
qed

lemma propagate_step:
  assumes "sweep_inv L want p c l st h matchh" "length L < c" "\<not> bit c l" "note_branch want l h st matchh = (st', matchh')"
  shows "sweep_inv L want p c (Suc l) st' (Hash_2 (inner_hash st' l) h) matchh'"
proof -
  let ?n = "length L"
  have inv: "inner_ok L ?n st" "2 ^ l dvd c" "c < ?n + 2 ^ l" "h = node L l (c div 2 ^ l - 1)" "0 < c" "L \<noteq> []"
    using assms(1,2) by (auto simp: sweep_inv_def)
  obtain m where m: "0 < m" "c = 2 ^ Suc l * m" "c div 2 ^ l = 2 * m" "c div 2 ^ Suc l = m"
    using carry_level [OF inv(2) assms(3) inv(5)] by metis
  have o: "odd (2 * m - 1)" "2 * m - 1 - 1 = 2 * m - 2" "even (2 * m - 2)" "2 * m - 2 + 1 = 2 * m - 1" "2 * (m - 1) = 2 * m - 2"
    using m(1) by (cases m; simp)+
  have n: "?n div 2 ^ l = 2 * m - 1" using round_div [OF inv(2) assms(2) inv(3)] m(3) by simp
  then have "bit ?n l" using o(1) by (simp add: bit_iff_odd)
  then have h: "inner_hash st l = node L l (2 * m - 2)" "h = node L l (2 * m - 1)"
    using inv(1,4) n m(3) o(2) by (simp_all add: inner_ok_def)
  have w: "width L l = 2 * m" using sweep_width [OF assms(1)] m(3) by simp
  have st': "inner_hash st' = inner_hash st" "matchlevel st' = matchlevel st"
    using assms(4) by (auto simp: note_branch_def split: if_splits)
  have half: "p div 2 ^ Suc l = p div 2 ^ l div 2" by (simp only: power_Suc2 div_mult2_eq)
  have path: "if matchh' then p div 2 ^ Suc l = m - 1 \<and> pbranch st' = map (sibling L p) [0 ..< Suc l]
      else \<exists>k \<ge> Suc l. matchlevel st' = int k \<and> bit ?n k \<and> p div 2 ^ k = ?n div 2 ^ k - 1 \<and> pbranch st' = map (sibling L p) [0 ..< k]"
    if want
  proof -
    consider (match) matchh | (join) "\<not> matchh" "matchlevel st = int l" | (skip) "\<not> matchh" "matchlevel st \<noteq> int l" by blast
    then show ?thesis
    proof cases
      case match
      then have i: "p div 2 ^ l = 2 * m - 1" "pbranch st = map (sibling L p) [0 ..< l]"
        using assms(1) m(3) that by (simp_all add: sweep_inv_def)
      then have "sibling L p l = inner_hash st l" using h(1) o by (simp add: sibling_def Let_def)
      moreover have "p div 2 ^ Suc l = m - 1" unfolding half i(1) using m(1) by simp
      ultimately show ?thesis using match i(2) that assms(4) by (auto simp: note_branch_def)
    next
      case join
      then have i: "p div 2 ^ l = 2 * m - 2" "pbranch st = map (sibling L p) [0 ..< l]"
        using assms(1) n o(2) that by (auto simp: sweep_inv_def)
      have "sibling L p l = h" using h(2) w m(1) i(1) o by (simp add: sibling_def Let_def)
      moreover have "p div 2 ^ Suc l = m - 1" unfolding half i(1) using m(1) by simp
      ultimately show ?thesis using join i(2) that assms(4) by (auto simp: note_branch_def)
    next
      case skip
      then have "st' = st" "matchh' = matchh" using assms(4) by (auto simp: note_branch_def split: if_splits)
      then show ?thesis using assms(1) skip that by (auto simp: sweep_inv_def Suc_le_eq le_less)
    qed
  qed
  have "Hash_2 (inner_hash st l) h = node L (Suc l) (m - 1)"
    unfolding node.simps(2) o h using w m(1) by simp
  moreover have "c < ?n + 2 ^ Suc l" using inv(3) by simp
  moreover have "2 ^ l < ?n" if "c = 2 ^ Suc l" using inv(3) that by simp
  moreover have "inner_ok L ?n st'" using inv(1) st'(1) by (simp add: inner_ok_def)
  ultimately show ?thesis
    unfolding sweep_inv_def using path assms(2) inv(6) st' m by auto
qed

lemma merkle_propagate_inv:
  "sweep_inv L want p c l st h matchh \<Longrightarrow> length L < c \<Longrightarrow> unat count = c \<Longrightarrow>
   merkle_propagate want count l st h matchh = (st', h', matchh', l') \<Longrightarrow>
   sweep_inv L want p c l' st' h' matchh' \<and> bit c l'"
proof (induction want count l st h matchh rule: merkle_propagate.induct)
  case (1 want count l st h matchh)
  show ?case
  proof (cases "l < 32 \<and> \<not> bit count l")
    case True
    obtain st1 m1 where n: "note_branch want l h st matchh = (st1, m1)" by (cases "note_branch want l h st matchh")
    have inv: "sweep_inv L want p c (l + 1) st1 (Hash_2 (inner_hash st1 l) h) m1"
      using propagate_step [OF 1(2,3) _ n] True 1(4) by (simp add: bit_count)
    have "merkle_propagate want count (l + 1) st1 (Hash_2 (inner_hash st1 l) h) m1 = (st', h', matchh', l')"
      using 1(5) True n by (simp add: merkle_propagate.simps [of want count l] Let_def)
    from 1(1) [OF True n [symmetric] refl inv 1(3-4) this] show ?thesis .
  next
    case False
    then have eq: "st' = st" "h' = h" "matchh' = matchh" "l' = l"
      using 1(5) by (auto simp: merkle_propagate.simps [of want count l] split: if_splits)
    have "2 ^ l \<le> c" using 1(2,3) by (auto simp: sweep_inv_def intro: dvd_imp_le)
    then have "l < 32" by (rule level_bound [of _ _ count]) (rule 1(4))
    with False have "bit c l" using 1(4) by (simp add: bit_count)
    with eq 1(2) show ?thesis by simp
  qed
qed

lemma sweep_odd:
  assumes "2 ^ l dvd c" "bit c l" "c \<noteq> (2 :: nat) ^ l"
  obtains m where "0 < m" "c = 2 ^ l * (2 * m + 1)" "c div 2 ^ l = 2 * m + 1" "c + 2 ^ l = 2 ^ Suc l * (m + 1)"
proof -
  obtain q where q: "c = 2 ^ l * q" using assms(1) by blast
  have "odd q" using assms(2) by (simp add: q bit_iff_odd)
  then obtain m where m: "q = 2 * m + 1" by (rule oddE)
  have "0 < m" using assms(3) by (auto simp: q m intro: gr0I)
  with that q m show thesis by simp
qed

lemma double_step:
  assumes "sweep_inv L want p c l st h matchh" "bit c l" "c \<noteq> 2 ^ l" "want \<and> \<not> matchh \<longrightarrow> matchlevel st \<noteq> int l"
  shows "sweep_inv L want p (c + 2 ^ l) (Suc l) (if want \<and> matchh then st\<lparr>pbranch := pbranch st @ [h]\<rparr> else st) (Hash_2 h h) matchh"
    (is "sweep_inv L want p _ _ ?st _ _")
proof -
  have inv: "inner_ok L (length L) st" "2 ^ l dvd c" "length L \<le> c" "c < length L + 2 ^ l" "L \<noteq> []"
      "h = node L l (c div 2 ^ l - 1)"
    using assms(1) by (auto simp: sweep_inv_def)
  obtain m where m: "0 < m" "c = 2 ^ l * (2 * m + 1)" "c div 2 ^ l = 2 * m + 1" "c + 2 ^ l = 2 ^ Suc l * (m + 1)"
    using sweep_odd [OF inv(2) assms(2,3)] by metis
  have w: "width L l = 2 * m + 1" using sweep_width [OF assms(1)] m(3) by simp
  have h: "h = node L l (2 * m)" using inv(6) m(3) by simp
  have "Hash_2 h h = node L (Suc l) m" unfolding node.simps(2) h using w by simp
  moreover have d: "(c + 2 ^ l) div 2 ^ Suc l = m + 1" unfolding m(4) by simp
  moreover have "2 ^ Suc l dvd c + 2 ^ l" "c + 2 ^ l \<noteq> 2 ^ Suc l" unfolding m(4) using m(1) by simp_all
  moreover have "if matchh then p div 2 ^ Suc l = m \<and> pbranch ?st = map (sibling L p) [0 ..< Suc l]
      else \<exists>k \<ge> Suc l. matchlevel ?st = int k \<and> bit (length L) k \<and> p div 2 ^ k = length L div 2 ^ k - 1 \<and>
        pbranch ?st = map (sibling L p) [0 ..< k]" if want
  proof (cases matchh)
    case True
    then have i: "p div 2 ^ l = 2 * m" "pbranch st = map (sibling L p) [0 ..< l]"
      using assms(1) m(3) that by (simp_all add: sweep_inv_def)
    have "p div 2 ^ Suc l = p div 2 ^ l div 2" by (simp only: power_Suc2 div_mult2_eq)
    moreover have "sibling L p l = h" using i(1) w h by (simp add: sibling_def Let_def)
    ultimately show ?thesis using True i that by simp
  next
    case False
    with assms(4) that have "matchlevel st \<noteq> int l" by simp
    with False assms(1) that show ?thesis by (auto simp: sweep_inv_def Suc_le_eq le_less)
  qed
  moreover have "inner_ok L (length L) ?st" using inv(1) by (simp add: inner_ok_def)
  ultimately show ?thesis unfolding sweep_inv_def using inv(3-5) by auto
qed

definition swept :: "uint256 list \<Rightarrow> bool \<Rightarrow> nat \<Rightarrow> merkle_state \<Rightarrow> uint256 \<Rightarrow> bool" where
  "swept L want p st h \<longleftrightarrow> (\<exists>k. width L k = 1 \<and> (\<forall>j < k. width L j \<noteq> 1) \<and> h = node L k 0 \<and>
     (want \<longrightarrow> pbranch st = map (sibling L p) [0 ..< k] \<and> p div 2 ^ k = 0))"

lemma sweep_end:
  assumes "sweep_inv L want p (2 ^ l) l st h matchh" "want \<and> \<not> matchh \<longrightarrow> matchlevel st \<noteq> int l"
  shows "swept L want p st h"
proof -
  have inv: "length L \<le> 2 ^ l" "h = node L l 0" "l = 0 \<or> 2 ^ (l - 1) < length L" "L \<noteq> []"
    using assms(1) by (auto simp: sweep_inv_def)
  have "width L j \<noteq> 1" if "j < l" for j
  proof
    assume "width L j = 1"
    then have "length L \<le> 2 ^ j" using less_width_iff [of 1 L j] by simp
    moreover have "(2 :: nat) ^ j \<le> 2 ^ (l - 1)" using that by (intro power_increasing) auto
    ultimately show False using inv(3) that by linarith
  qed
  moreover have "matchh" if want
  proof (rule ccontr)
    assume n: "\<not> matchh"
    with assms that obtain m where m: "l \<le> m" "matchlevel st = int m" "bit (length L) m" by (auto simp: sweep_inv_def)
    with n assms(2) that have "l < m" by (cases "l = m") auto
    then have "(2 :: nat) ^ l < 2 ^ m" by simp
    with inv(1) have "length L div 2 ^ m = 0" by (intro div_less) (rule le_less_trans)
    with m(3) show False by (simp add: bit_iff_odd)
  qed
  then have "want \<longrightarrow> pbranch st = map (sibling L p) [0 ..< l] \<and> p div 2 ^ l = 0"
    using assms(1) by (simp add: sweep_inv_def)
  moreover have "width L l = 1" using sweep_width [OF assms(1)] by simp
  ultimately show ?thesis unfolding swept_def using inv(2) by blast
qed

lemma unat_bit: "l < 32 \<Longrightarrow> unat (push_bit l 1 :: u32) = 2 ^ l"
proof -
  assume "l < 32"
  then have "(2 :: nat) ^ l < 2 ^ 32" by (intro power_strict_increasing) auto
  then show ?thesis unfolding unsigned_push_bit_eq by (simp add: push_bit_eq_mult take_bit_nat_def)
qed

lemma double_count:
  assumes "sweep_inv L want p c l st h matchh" "bit c l" "c \<noteq> 2 ^ l" "unat (count :: u32) = c" "length L < 2 ^ 31"
  shows "unat (count + push_bit l 1) = c + 2 ^ l" "length L < c + 2 ^ l"
proof -
  have inv: "2 ^ l dvd c" "length L \<le> c" "c < length L + 2 ^ l" using assms(1) by (auto simp: sweep_inv_def)
  obtain m where m: "0 < m" "c = 2 ^ l * (2 * m + 1)" using sweep_odd [OF inv(1) assms(2,3)] by metis
  have "2 ^ l * 3 \<le> c" unfolding m(2) using m(1) by (intro mult_le_mono2) simp
  then have b: "c + 2 ^ l < 2 ^ 32" using inv(3) assms(5) by simp
  have "l < 32" using level_bound [OF _ assms(4), of l] \<open>2 ^ l * 3 \<le> c\<close> by simp
  then have "unat (push_bit l 1 :: u32) = 2 ^ l" by (rule unat_bit)
  with b assms(4) show "unat (count + push_bit l 1) = c + 2 ^ l" by (simp add: unat_word_ariths)
  have "(0 :: nat) < 2 ^ l" by simp
  with inv(2) show "length L < c + 2 ^ l" by linarith
qed

lemma propagated_level:
  assumes "sweep_inv L want p c l st h matchh" "bit c l" "length L < c" "want" "\<not> matchh"
  shows "matchlevel st \<noteq> int l"
proof
  assume l: "matchlevel st = int l"
  with assms have "bit (length L) l" by (auto simp: sweep_inv_def)
  moreover have "length L div 2 ^ l = c div 2 ^ l - 1" using assms by (intro round_div) (auto simp: sweep_inv_def)
  ultimately show False using assms(2) by (auto simp: bit_iff_odd elim: oddE)
qed

lemma merkle_sweep_inv:
  "sweep_inv L want p c l st h matchh \<Longrightarrow> bit c l \<Longrightarrow> want \<and> \<not> matchh \<longrightarrow> matchlevel st \<noteq> int l \<Longrightarrow> unat count = c \<Longrightarrow>
   length L < 2 ^ 31 \<Longrightarrow> merkle_sweep want count l st h matchh = (st', h') \<Longrightarrow> swept L want p st' h'"
proof (induction want count l st h matchh arbitrary: c rule: merkle_sweep.induct)
  case (1 want count l st h matchh)
  have l: "l < 32"
  proof (rule level_bound [OF _ 1(5)])
    show "2 ^ l \<le> c" using 1(2,3) by (auto simp: sweep_inv_def intro!: dvd_imp_le gr0I)
  qed
  then have "unat (push_bit l 1 :: u32) = 2 ^ l" by (rule unat_bit)
  then have stop: "count = push_bit l 1 \<longleftrightarrow> c = 2 ^ l" using 1(5) by (simp add: word_unat_eq_iff)
  show ?case
  proof (cases "c = 2 ^ l")
    case True
    with 1(7) stop have "st' = st" "h' = h" by (auto simp: merkle_sweep.simps [of want count l])
    with sweep_end 1(2,4) True show ?thesis by blast
  next
    case False
    let ?st = "if want \<and> matchh then st\<lparr>pbranch := pbranch st @ [h]\<rparr> else st"
    obtain st1 h1 m1 l1 where pr: "merkle_propagate want (count + push_bit l 1) (l + 1) ?st (Hash_2 h h) matchh = (st1, h1, m1, l1)"
      by (cases "merkle_propagate want (count + push_bit l 1) (l + 1) ?st (Hash_2 h h) matchh") auto
    note count = double_count [OF 1(2,3) False 1(5,6)]
    from double_step [OF 1(2,3) False 1(4)] merkle_propagate_inv [OF _ count(2,1) pr]
    have inv: "sweep_inv L want p (c + 2 ^ l) l1 st1 h1 m1" "bit (c + 2 ^ l) l1" by simp_all
    have m: "want \<and> \<not> m1 \<longrightarrow> matchlevel st1 \<noteq> int l1" using propagated_level [OF inv count(2)] by blast
    have c: "l < 32 \<and> count \<noteq> push_bit l 1" using l stop False by simp
    have "merkle_sweep want (count + push_bit l 1) l1 st1 h1 m1 = (st', h')"
      using 1(7) c pr by (simp add: merkle_sweep.simps [of want count l] Let_def)
    from 1(1) [OF c refl refl refl pr [symmetric] refl refl inv m count(1) 1(6) this] show ?thesis .
  qed
qed

lemma lowest_level_bit:
  "2 ^ l dvd c \<Longrightarrow> unat count = c \<Longrightarrow> 0 < c \<Longrightarrow> lowest_level count l = l' \<Longrightarrow> 2 ^ l' dvd c \<and> bit c l'"
proof (induction count l rule: lowest_level.induct)
  case (1 count l)
  show ?case
  proof (cases "l < 32 \<and> \<not> bit count l")
    case True
    with 1 next_dvd [OF 1(2)] show ?thesis by (simp add: lowest_level.simps [of count l] bit_count)
  next
    case False
    moreover have "l < 32" using level_bound [OF dvd_imp_le [OF 1(2,4)] 1(3)] .
    ultimately show ?thesis using 1 by (auto simp: lowest_level.simps [of count l] bit_count)
  qed
qed

lemma MerkleComputation_spec:
  assumes "L \<noteq> []" "length L < 2 ^ 31" "want \<longrightarrow> unat pos < length L" "MerkleComputation want pos L = (root, mut, branch)"
  shows "\<exists>k. width L k = 1 \<and> (\<forall>j < k. width L j \<noteq> 1) \<and> root = node L k 0 \<and>
     (want \<longrightarrow> branch = map (sibling L (unat pos)) [0 ..< k] \<and> unat pos div 2 ^ k = 0)"
    "mut \<longleftrightarrow> (\<exists>y k. y \<le> length L \<and> equal_pair L k y)"
proof -
  let ?st = "\<lparr>inner_hash = \<lambda>_. null_hash, matchlevel = - 1, mutated = False, pbranch = []\<rparr>"
  let ?p = "unat pos"
  obtain count st where l: "merkle_leaves want pos L 0 ?st = (count, st)" by (cases "merkle_leaves want pos L 0 ?st")
  define level where "level = lowest_level count 0"
  obtain st' h where s: "merkle_sweep want count level st (inner_hash st level) (matchlevel st = int level) = (st', h)"
    by (cases "merkle_sweep want count level st (inner_hash st level) (matchlevel st = int level)")
  have out: "root = h" "mut = mutated st" "branch = pbranch st'"
    using assms(1,4) l s level_def by (auto simp: MerkleComputation_def Let_def)
  have "leaves_inv L want ?p 0 ?st"
    by (auto simp: leaves_inv_def inner_ok_def waiting_def equal_pair_def)
  then have inv: "leaves_inv L want ?p (length L) st" "unat count = length L"
    using merkle_leaves_inv [OF _ _ _ _ _ _ l] assms(2) by simp_all
  then have low: "2 ^ level dvd length L" "bit (length L) level"
    using lowest_level_bit [of 0 "length L" count level] assms(1) level_def by simp_all
  have "level = 0 \<or> 2 ^ (level - 1) < length L" if "length L = 2 ^ level" using that by (cases level) auto
  note small = this
  have path: "if matchlevel st = int level
      then ?p div 2 ^ level = length L div 2 ^ level - 1 \<and> pbranch st = map (sibling L ?p) [0 ..< level]
      else \<exists>m \<ge> level. matchlevel st = int m \<and> bit (length L) m \<and> ?p div 2 ^ m = length L div 2 ^ m - 1 \<and>
        pbranch st = map (sibling L ?p) [0 ..< m]" if want
  proof -
    have "waiting L ?p (length L) 0 st" "?p < length L" using inv(1) assms(3) that by (simp_all add: leaves_inv_def)
    then obtain m where m: "matchlevel st = int m" "bit (length L) m" "?p div 2 ^ m = length L div 2 ^ m - 1"
        "pbranch st = map (sibling L ?p) [0 ..< m]"
      by (auto simp: waiting_def)
    moreover have "level \<le> m" using lowest_bit(1) [OF low, of m] m(2) by (intro leI) blast
    ultimately show ?thesis by auto
  qed
  have inner: "inner_ok L (length L) st" using inv(1) by (simp add: leaves_inv_def)
  then have "inner_hash st level = node L level (length L div 2 ^ level - 1)" using low(2) by (simp add: inner_ok_def)
  then have "sweep_inv L want ?p (length L) level st (inner_hash st level) (matchlevel st = int level)"
    unfolding sweep_inv_def using low(1) assms(1) by (intro conjI impI inner path small) simp_all
  from merkle_sweep_inv [OF this low(2) _ inv(2) assms(2) s] have "swept L want ?p st' h" by simp
  then show "\<exists>k. width L k = 1 \<and> (\<forall>j < k. width L j \<noteq> 1) \<and> root = node L k 0 \<and>
     (want \<longrightarrow> branch = map (sibling L ?p) [0 ..< k] \<and> ?p div 2 ^ k = 0)"
    unfolding out swept_def by blast
  show "mut \<longleftrightarrow> (\<exists>y k. y \<le> length L \<and> equal_pair L k y)"
    using inv(1) out by (simp add: leaves_inv_def)
qed

lemma block_leaves_eq_Inr: "block_leaves txs = Inr L \<longleftrightarrow> list_all2 (\<lambda>tx h. ComputeHash tx = Inr h) txs L"
  by (induction txs arbitrary: L) (auto simp: bindE_eq_Inr list_all2_Cons1)

lemma length_block_leaves: "block_leaves txs = Inr L \<Longrightarrow> length L = length txs"
  by (auto simp: block_leaves_eq_Inr dest: list_all2_lengthD)

text \<open>Two complete neighbouring subtrees of \<open>2 ^ k\<close> leaves each have the same hash.\<close>

definition merkle_mutated :: "uint256 list \<Rightarrow> bool" where
  "merkle_mutated L \<longleftrightarrow> (\<exists>k i. (2 * i + 2) * 2 ^ k \<le> length L \<and> node L k (2 * i) = node L k (2 * i + 1))"

lemma unmutated_single: "\<not> merkle_mutated [h]"
proof -
  have "\<not> (2 * i + 2) * 2 ^ k \<le> length [h]" for i k :: nat
    using mult_le_mono [of 2 "2 * i + 2" 1 "2 ^ k"] by simp
  then show ?thesis unfolding merkle_mutated_def by blast
qed

lemma equal_pairs: "(\<exists>y k. y \<le> length L \<and> equal_pair L k y) \<longleftrightarrow> merkle_mutated L"
proof
  assume "\<exists>y k. y \<le> length L \<and> equal_pair L k y"
  then obtain y k m where m: "y \<le> length L" "y = 2 ^ Suc k * m" "0 < y" "node L k (y div 2 ^ k - 2) = node L k (y div 2 ^ k - 1)"
    unfolding equal_pair_def by blast
  then obtain i where i: "m = Suc i" by (cases m) auto
  have "y div 2 ^ k = 2 * i + 2" unfolding m(2) i by simp
  with m i show "merkle_mutated L" unfolding merkle_mutated_def by (intro exI [of _ k] exI [of _ i]) (simp add: algebra_simps)
next
  assume "merkle_mutated L"
  then obtain k i where i: "(2 * i + 2) * 2 ^ k \<le> length L" "node L k (2 * i) = node L k (2 * i + 1)"
    unfolding merkle_mutated_def by blast
  have "(2 * i + 2) * 2 ^ k = 2 ^ Suc k * (i + 1)" by simp
  then have "2 ^ Suc k dvd (2 * i + 2) * 2 ^ k" by (simp only: dvd_triv_left)
  with i show "\<exists>y k. y \<le> length L \<and> equal_pair L k y" unfolding equal_pair_def
    by (intro exI [of _ "(2 * i + 2) * 2 ^ k"] exI [of _ k]) simp
qed

lemma ComputeMerkleRoot_tree:
  assumes "length L < 2 ^ 31"
  shows "ComputeMerkleRoot L = (merkle_tree_root L, merkle_mutated L)"
proof (cases "L = []")
  case False
  obtain root mut branch where m: "MerkleComputation False (- 1) L = (root, mut, branch)"
    by (cases "MerkleComputation False (- 1) L") auto
  note spec = MerkleComputation_spec [OF False assms _ m]
  then obtain k where "width L k = 1" "\<forall>j < k. width L j \<noteq> 1" "root = node L k 0" by blast
  then have "root = merkle_tree_root L" using merkle_tree_root_node [OF False] by metis
  with m spec(2) equal_pairs show ?thesis by (simp add: ComputeMerkleRoot_def)
qed (auto simp: ComputeMerkleRoot_def MerkleComputation_def merkle_mutated_def)

text \<open>C37. For a block of fewer than \<open>2 ^ 31\<close> transactions whose ids can be computed, \<open>BlockMerkleRoot\<close> returns the
  root of the tree over the ids that is built level by level, and reports a mutation exactly when two complete
  neighbouring subtrees of the same size hash to the same value.\<close>

theorem BlockMerkleRoot_tree:
  assumes "block_leaves (vtx b) = Inr L" "length (vtx b) < 2 ^ 31"
  shows "BlockMerkleRoot b = Inr (merkle_tree_root L, merkle_mutated L)"
  using assms by (simp add: BlockMerkleRoot_def ComputeMerkleRoot_tree length_block_leaves)

theorem BlockMerkleRoot_tree_witness:
  "\<exists>h b. block_leaves (vtx b) = Inr [h, h, h] \<and> length (vtx b) < 2 ^ 31 \<and>
     BlockMerkleRoot b = Inr (merkle_tree_root [h, h, h], merkle_mutated [h, h, h])"
proof -
  let ?t = "\<lparr>nVersion = 2, vin = [], vout = [], nLockTime = 7\<rparr>"
  let ?b = "CBlock_of_header CBlockHeader_null [?t, ?t, ?t]"
  obtain h where "ComputeHash ?t = Inr h"
    by (simp add: ComputeHash_def SerializeHash_def CRichTransaction_Serialize_def)
  then have "block_leaves (vtx ?b) = Inr [h, h, h]" "length (vtx ?b) < 2 ^ 31" by (simp_all add: block_header_parts)
  moreover from BlockMerkleRoot_tree [OF this] have "BlockMerkleRoot ?b = Inr (merkle_tree_root [h, h, h], merkle_mutated [h, h, h])" .
  ultimately show ?thesis by blast
qed

subsection \<open>Branches\<close>

lemma branch_step:
  assumes "p < length L" "sibling L p k \<noteq> null_hash"
  shows "(if sibling L p k = null_hash then Hash_2 (node L k (p div 2 ^ k)) (node L k (p div 2 ^ k))
      else if odd (p div 2 ^ k) then Hash_2 (sibling L p k) (node L k (p div 2 ^ k))
      else Hash_2 (node L k (p div 2 ^ k)) (sibling L p k)) = node L (Suc k) (p div 2 ^ Suc k)"
proof -
  define i where "i = p div 2 ^ k"
  have half: "p div 2 ^ Suc k = i div 2" unfolding i_def by (simp only: power_Suc2 div_mult2_eq)
  have "i < width L k" unfolding less_width_iff i_def using assms(1) by (rule le_less_trans [OF div_times_less_eq_dividend])
  then show ?thesis
    unfolding half node.simps(2) using assms(2)
    by (cases "even i") (auto simp: sibling_def Let_def i_def [symmetric] elim!: evenE oddE)
qed

lemma branch_walk:
  "p < length L \<Longrightarrow> null_hash \<notin> set (map (sibling L p) [k ..< K]) \<Longrightarrow> k \<le> K \<Longrightarrow> unat (pos :: u32) = p div 2 ^ k \<Longrightarrow>
   ComputeMerkleRootFromBranch (node L k (p div 2 ^ k)) (map (sibling L p) [k ..< K]) pos = node L K (p div 2 ^ K)"
proof (induction "K - k" arbitrary: k pos)
  case (Suc d)
  then have k: "k < K" "[k ..< K] = k # [Suc k ..< K]" by (auto simp: upt_conv_Cons)
  have pos: "unat (drop_bit 1 pos) = p div 2 ^ Suc k" "pos AND 1 \<noteq> 0 \<longleftrightarrow> odd (p div 2 ^ k)"
  proof -
    show "unat (drop_bit 1 pos) = p div 2 ^ Suc k"
      by (simp only: power_Suc2 div_mult2_eq) (simp add: drop_bit_eq_div unat_div Suc.prems(4))
    show "pos AND 1 \<noteq> 0 \<longleftrightarrow> odd (p div 2 ^ k)"
      unfolding Suc.prems(4) [symmetric]
      using bit_count [of pos 0] by (simp add: and_one_eq mod_2_eq_odd bit_0)
  qed
  have "sibling L p k \<noteq> null_hash" using Suc.prems(2) k(2) by auto
  note step = branch_step [OF Suc.prems(1) this]
  have "ComputeMerkleRootFromBranch (node L (Suc k) (p div 2 ^ Suc k)) (map (sibling L p) [Suc k ..< K]) (drop_bit 1 pos) = node L K (p div 2 ^ K)"
    by (rule Suc.hyps(1)) (use Suc k pos(1) in auto)
  then show ?case unfolding k(2) list.map ComputeMerkleRootFromBranch.simps pos(2) step .
qed simp

text \<open>C38. The branch that \<open>ComputeMerkleBranch\<close> returns for a leaf takes \<open>ComputeMerkleRootFromBranch\<close> from that
  leaf to the root, as long as no sibling is the null hash, which the verifier reads as a missing sibling.\<close>

theorem merkle_branch_verifies:
  assumes "length L < 2 ^ 31" "unat pos < length L" "null_hash \<notin> set (ComputeMerkleBranch L pos)"
  shows "ComputeMerkleRootFromBranch (L ! unat pos) (ComputeMerkleBranch L pos) pos = fst (ComputeMerkleRoot L)"
proof -
  have ne: "L \<noteq> []" using assms(2) by auto
  obtain root mut branch where m: "MerkleComputation True pos L = (root, mut, branch)"
    by (cases "MerkleComputation True pos L") auto
  from MerkleComputation_spec(1) [OF ne assms(1) _ m] assms(2)
  obtain k where k: "width L k = 1" "\<forall>j < k. width L j \<noteq> 1" "branch = map (sibling L (unat pos)) [0 ..< k]" "unat pos div 2 ^ k = 0"
    by blast
  obtain r2 m2 b2 where m2: "MerkleComputation False (- 1) L = (r2, m2, b2)" by (cases "MerkleComputation False (- 1) L") auto
  from MerkleComputation_spec(1) [OF ne assms(1) _ m2]
  obtain j where j: "width L j = 1" "\<forall>i < j. width L i \<noteq> 1" "r2 = node L j 0" by blast
  have "j = k" using j(1,2) k(1,2) by (metis linorder_neqE_nat)
  moreover have "null_hash \<notin> set (map (sibling L (unat pos)) [0 ..< k])"
    using assms(3) m k(3) by (simp add: ComputeMerkleBranch_def)
  note branch_walk [OF assms(2) this, of pos]
  ultimately show ?thesis using m m2 k j by (simp add: ComputeMerkleBranch_def ComputeMerkleRoot_def)
qed

theorem merkle_branch_verifies_witness:
  "\<exists>a b. a \<noteq> b \<and> ComputeMerkleBranch [a, b] 1 = [a] \<and>
     ComputeMerkleRootFromBranch b (ComputeMerkleBranch [a, b] 1) 1 = fst (ComputeMerkleRoot [a, b])"
proof -
  let ?a = "replicate 32 (1 :: byte)" and ?b = "replicate 32 (2 :: byte)"
  have b: "ComputeMerkleBranch [?a, ?b] 1 = [?a]"
    by (simp add: ComputeMerkleBranch_def MerkleComputation_def note_branch_def Let_def merkle_combine.simps
        lowest_level.simps merkle_sweep.simps bit_1_iff)
  moreover have "null_hash \<noteq> ?a" by (simp add: null_hash_def)
  ultimately have "ComputeMerkleRootFromBranch ?b (ComputeMerkleBranch [?a, ?b] 1) 1 = fst (ComputeMerkleRoot [?a, ?b])"
    using merkle_branch_verifies [of "[?a, ?b]" 1] by simp
  with b show ?thesis by (intro exI [of _ ?a] exI [of _ ?b]) simp
qed

subsection \<open>Commitment\<close>

fun merkle_depth :: "nat \<Rightarrow> nat" where
  "merkle_depth n = (if n \<le> 1 then 0 else Suc (merkle_depth ((n + 1) div 2)))"

declare merkle_depth.simps [simp del]

lemma merkle_tree_root_depth: "L \<noteq> [] \<Longrightarrow> width L (merkle_depth (length L)) = 1 \<and> merkle_tree_root L = node L (merkle_depth (length L)) 0"
proof (induction L rule: merkle_tree_root.induct)
  case (3 a b hs)
  let ?L = "a # b # hs"
  have d: "merkle_depth (length ?L) = Suc (merkle_depth (length (merkle_level ?L)))"
    by (subst merkle_depth.simps) simp
  have "width (merkle_level ?L) (merkle_depth (length (merkle_level ?L))) = 1"
      "merkle_tree_root (merkle_level ?L) = node (merkle_level ?L) (merkle_depth (length (merkle_level ?L))) 0"
    using 3(1) by (simp_all del: length_merkle_level)
  then show ?case unfolding d using node_level(1) [of ?L] node_level(2) [of 0 ?L "merkle_depth (length (merkle_level ?L))"]
    by (simp del: length_merkle_level)
qed (simp_all add: merkle_depth.simps)

text \<open>The messages hashed for the inner nodes below level \<open>K\<close>.\<close>

definition pair_of :: "uint256 list \<Rightarrow> nat \<Rightarrow> nat \<Rightarrow> byte list" where
  "pair_of L k i = node L k (2 * i) @ (if 2 * i + 1 < width L k then node L k (2 * i + 1) else node L k (2 * i))"

definition merkle_messages :: "uint256 list \<Rightarrow> nat \<Rightarrow> byte list list" where
  "merkle_messages L K = concat (map (\<lambda>k. concat (map (\<lambda>i. [pair_of L k i, sha256_digest (pair_of L k i)]) [0 ..< width L (Suc k)])) [0 ..< K])"

lemma pair_message: "k < K \<Longrightarrow> i < width L (Suc k) \<Longrightarrow> {pair_of L k i, sha256_digest (pair_of L k i)} \<subseteq> set (merkle_messages L K)"
  by (fastforce simp: merkle_messages_def)

lemma node_pair_of: "node L (Suc k) i = sha256_digest (sha256_digest (pair_of L k i))"
  by (simp add: node.simps Hash_2_digest pair_of_def)

lemma length_node: "\<forall>h \<in> set L. length h = 32 \<Longrightarrow> i < width L k \<Longrightarrow> length (node L k i) = 32"
  by (cases k) (simp_all add: node_pair_of)

definition slice :: "uint256 list \<Rightarrow> nat \<Rightarrow> nat \<Rightarrow> uint256 list" where
  "slice L k i = take (2 ^ k) (drop (i * 2 ^ k) L)"

lemma slice_Suc: "slice L (Suc k) i = slice L k (2 * i) @ slice L k (2 * i + 1)"
proof -
  have "2 ^ Suc k = 2 ^ k + (2 :: nat) ^ k" "i * 2 ^ Suc k = 2 * i * 2 ^ k" "(2 * i + 1) * 2 ^ k = 2 ^ k + 2 * i * 2 ^ k" by simp_all
  then show ?thesis unfolding slice_def by (simp only: take_add drop_drop)
qed

lemma slice_Nil: "\<not> i < width L k \<Longrightarrow> slice L k i = []"
  by (simp add: slice_def less_width_iff)

lemma slices_mutated:
  assumes "slice L k (2 * i) = slice L k (2 * i + 1)" "node L k (2 * i) = node L k (2 * i + 1)" "2 * i + 1 < width L k"
  shows "merkle_mutated L"
proof -
  have "(2 * i + 1) * 2 ^ k < length L" using assms(3) by (simp only: less_width_iff)
  moreover have "length (slice L k (2 * i)) = length (slice L k (2 * i + 1))" using assms(1) by simp
  ultimately have "(2 * i + 2) * 2 ^ k \<le> length L" by (simp add: slice_def min_def split: if_splits)
  with assms(2) show ?thesis unfolding merkle_mutated_def by blast
qed

lemma node_slices:
  assumes "\<forall>h \<in> set A. length h = 32" "\<forall>h \<in> set B. length h = 32" "\<not> merkle_mutated A" "\<not> merkle_mutated B"
    "\<not> collision M M" "set (merkle_messages A K) \<subseteq> set M" "set (merkle_messages B K) \<subseteq> set M"
    "i < width A k" "j < width B k" "node A k i = node B k j" "k \<le> K"
  shows "slice A k i = slice B k j"
  using assms
proof (induction k arbitrary: A B i j)
  case 0
  then have "i < length A" "j < length B" "A ! i = B ! j" by simp_all
  then show ?case by (simp add: slice_def take_Suc_conv_app_nth hd_drop_conv_nth take_Suc)
next
  case (Suc k)
  note len = Suc.prems(1,2) and unmutated = Suc.prems(3,4) and nc = Suc.prems(5) and M = Suc.prems(6,7)
  have m: "{pair_of A k i, sha256_digest (pair_of A k i)} \<subseteq> set M" "{pair_of B k j, sha256_digest (pair_of B k j)} \<subseteq> set M"
    using pair_message [of k K i A] pair_message [of k K j B] Suc.prems(6-9,11) by auto
  have d: "sha256_digest (sha256_digest (pair_of A k i)) = sha256_digest (sha256_digest (pair_of B k j))"
    using Suc.prems(10) by (simp only: node_pair_of)
  have d: "sha256_digest (pair_of A k i) = sha256_digest (pair_of B k j)" by (rule no_collision [OF nc _ _ d]) (use m in simp_all)
  have eq: "pair_of A k i = pair_of B k j" by (rule no_collision [OF nc _ _ d]) (use m in simp_all)
  have w: "2 * i < width A k" "2 * j < width B k" using Suc.prems(8,9) unfolding width_Suc by linarith+
  have l: "node A k (2 * i) = node B k (2 * j)"
      "(if 2 * i + 1 < width A k then node A k (2 * i + 1) else node A k (2 * i)) =
       (if 2 * j + 1 < width B k then node B k (2 * j + 1) else node B k (2 * j))"
    using eq unfolding pair_of_def by (simp_all add: length_node [OF len(1) w(1)] length_node [OF len(2) w(2)])
  have left: "slice A k (2 * i) = slice B k (2 * j)"
    using Suc.IH [OF len unmutated nc M w l(1)] Suc.prems(11) by simp
  have "slice A k (2 * i + 1) = slice B k (2 * j + 1)"
  proof (cases "2 * i + 1 < width A k"; cases "2 * j + 1 < width B k")
    assume *: "2 * i + 1 < width A k" "2 * j + 1 < width B k"
    with l(2) Suc.IH [OF len unmutated nc M *] Suc.prems(11) show ?thesis by simp
  next
    assume *: "2 * i + 1 < width A k" "\<not> 2 * j + 1 < width B k"
    with l have e: "node A k (2 * i) = node A k (2 * i + 1)" by simp
    from Suc.IH [OF len(1,1) unmutated(1,1) nc M(1,1) w(1) *(1) e] Suc.prems(11) slices_mutated [OF _ e *(1)] unmutated(1)
    show ?thesis by simp
  next
    assume *: "\<not> 2 * i + 1 < width A k" "2 * j + 1 < width B k"
    with l have e: "node B k (2 * j) = node B k (2 * j + 1)" by simp
    from Suc.IH [OF len(2,2) unmutated(2,2) nc M(2,2) w(2) *(2) e] Suc.prems(11) slices_mutated [OF _ e *(2)] unmutated(2)
    show ?thesis by simp
  qed (simp add: slice_Nil)
  with left show ?case by (simp only: slice_Suc)
qed

lemma merkle_root_commits:
  assumes "\<forall>h \<in> set A. length h = 32" "\<forall>h \<in> set B. length h = 32" "\<not> merkle_mutated A" "\<not> merkle_mutated B"
    "A \<noteq> []" "B \<noteq> []" "merkle_depth (length A) = merkle_depth (length B)" "merkle_tree_root A = merkle_tree_root B"
    "\<not> collision M M" "set (merkle_messages A (merkle_depth (length A))) \<subseteq> set M"
    "set (merkle_messages B (merkle_depth (length B))) \<subseteq> set M"
  shows "A = B"
proof -
  let ?K = "merkle_depth (length A)"
  have w: "width A ?K = 1" "width B ?K = 1" "node A ?K 0 = node B ?K 0"
    using merkle_tree_root_depth assms(5-8) by metis+
  have "slice A ?K 0 = slice B ?K 0"
    by (rule node_slices [OF assms(1-4,9,10) _ _ _ w(3)]) (use w assms(7,11) in simp_all)
  moreover have "slice L k 0 = L" if "width L k = 1" for L k
    using that less_width_iff [of 1 L k] by (simp add: slice_def)
  ultimately show ?thesis using w by simp
qed

text \<open>Everything that is hashed on the way from the transactions of a block to the hash of its header.\<close>

definition block_messages :: "CBlock \<Rightarrow> byte list list" where
  "block_messages b = header_messages b @ concat (map id_messages (vtx b)) @
     (case block_leaves (vtx b) of Inl _ \<Rightarrow> [] | Inr L \<Rightarrow> merkle_messages L (merkle_depth (length L)))"

lemma collision_mono: "collision A B \<Longrightarrow> set A \<subseteq> set M \<Longrightarrow> set B \<subseteq> set M \<Longrightarrow> collision M M"
  by (auto simp: collision_def)

lemma ids_determine_txs:
  assumes "list_all valid_tx ts" "list_all valid_tx us" "block_leaves ts = Inr L" "block_leaves us = Inr L"
    "\<not> collision M M" "\<Union> (set ` id_messages ` set ts) \<subseteq> set M" "\<Union> (set ` id_messages ` set us) \<subseteq> set M"
  shows "ts = us"
  using assms
proof (induction ts arbitrary: us L)
  case (Cons t ts)
  obtain u us' h L' where us: "us = u # us'" "L = h # L'" "ComputeHash t = Inr h" "ComputeHash u = Inr h"
      "block_leaves ts = Inr L'" "block_leaves us' = Inr L'"
    using Cons.prems(3,4) unfolding block_leaves_eq_Inr by (auto simp: list_all2_Cons1 list_all2_Cons2)
  have "t = u" using id_determines_tx [OF _ _ us(3,4)] Cons.prems us(1) collision_mono [of "id_messages t" "id_messages u" M] by auto
  moreover have "ts = us'" using Cons.IH [OF _ _ us(5,6)] Cons.prems us(1) by auto
  ultimately show ?case by (simp add: us(1))
qed (simp add: block_leaves_eq_Inr)

lemma length_leaves: "block_leaves ts = Inr L \<Longrightarrow> \<forall>h \<in> set L. length h = 32"
proof
  fix h assume "block_leaves ts = Inr L" "h \<in> set L"
  then obtain t where "ComputeHash t = Inr h"
    by (auto simp: block_leaves_eq_Inr list_all2_conv_all_nth in_set_conv_nth)
  then show "length h = 32" by (auto simp: ComputeHash_digest bindE_eq_Inr)
qed

text \<open>C27. The hash of a block header commits to the whole block.  Take two valid blocks whose headers carry
  their unmutated Merkle roots, whose trees have the same depth, and whose header hashes agree: the blocks are
  equal in every field of the header and of every transaction, or two different ones of the messages hashed for
  them have the same SHA-256 digest.\<close>

theorem block_hash_commits:
  assumes "valid_block b" "valid_block c" "vtx b \<noteq> []" "vtx c \<noteq> []" "length (vtx b) < 2 ^ 31" "length (vtx c) < 2 ^ 31"
    "BlockMerkleRoot b = Inr (hashMerkleRoot b, False)" "BlockMerkleRoot c = Inr (hashMerkleRoot c, False)"
    "merkle_depth (length (vtx b)) = merkle_depth (length (vtx c))" "header_GetHash b = header_GetHash c"
  shows "b = c \<or> collision (block_messages b @ block_messages c) (block_messages b @ block_messages c)"
proof (rule disjCI)
  let ?M = "block_messages b @ block_messages c"
  assume nc: "\<not> collision ?M ?M"
  obtain A B where L: "block_leaves (vtx b) = Inr A" "block_leaves (vtx c) = Inr B"
    using assms(7,8) by (auto simp: BlockMerkleRoot_def bindE_eq_Inr)
  note len = length_block_leaves [OF L(1)] length_block_leaves [OF L(2)]
  have M: "set (header_messages b) \<subseteq> set ?M" "set (header_messages c) \<subseteq> set ?M"
      "\<Union> (set ` id_messages ` set (vtx b)) \<subseteq> set ?M" "\<Union> (set ` id_messages ` set (vtx c)) \<subseteq> set ?M"
      "set (merkle_messages A (merkle_depth (length A))) \<subseteq> set ?M" "set (merkle_messages B (merkle_depth (length B))) \<subseteq> set ?M"
    using L by (auto simp: block_messages_def)
  have "header_GetHash (GetBlockHeader b) = header_GetHash (GetBlockHeader c)"
    using assms(10) by (simp add: header_GetHash_digest block_header_parts)
  then have h: "GetBlockHeader b = GetBlockHeader c"
    using header_GetHash_commits [of "GetBlockHeader b" "GetBlockHeader c"] assms(1,2) collision_mono [OF _ M(1,2)] nc
    by (auto simp: valid_block_def block_header_parts header_messages_def)
  have r: "merkle_tree_root A = hashMerkleRoot b" "\<not> merkle_mutated A" "merkle_tree_root B = hashMerkleRoot c" "\<not> merkle_mutated B"
    using assms(5-8) L len by (auto simp: BlockMerkleRoot_def ComputeMerkleRoot_tree)
  have "hashMerkleRoot b = hashMerkleRoot c" using h by (simp add: GetBlockHeader_def)
  with r have "A = B"
    using assms(3,4,9) len by (intro merkle_root_commits [OF length_leaves [OF L(1)] length_leaves [OF L(2)] r(2,4) _ _ _ _ nc M(5,6)]) auto
  with ids_determine_txs [OF _ _ L(1) _ nc M(3,4)] L(2) assms(1,2) have "vtx b = vtx c" by (simp add: valid_block_def)
  with h show "b = c" by (metis block_header_parts(2))
qed

theorem block_hash_commits_witness:
  "\<exists>b. vtx b \<noteq> [] \<and> BlockMerkleRoot b = Inr (hashMerkleRoot b, False) \<and>
     (b = b \<or> collision (block_messages b @ block_messages b) (block_messages b @ block_messages b))"
proof -
  let ?t = "\<lparr>nVersion = 2, vin = [], vout = [], nLockTime = 7\<rparr>"
  obtain h where h: "ComputeHash ?t = Inr h"
    by (simp add: ComputeHash_def SerializeHash_def CRichTransaction_Serialize_def)
  let ?b = "CBlock_of_header (CBlockHeader_null\<lparr>hashMerkleRoot := h\<rparr>) [?t]"
  have L: "block_leaves (vtx ?b) = Inr [h]" using h by (simp add: block_header_parts)
  have root: "BlockMerkleRoot ?b = Inr (hashMerkleRoot ?b, False)"
    using L by (simp add: BlockMerkleRoot_def ComputeMerkleRoot_tree unmutated_single CBlock_of_header_def)
  moreover have "length h = 32" using length_leaves [OF L] by simp
  then have "valid_block ?b"
    by (simp add: valid_block_def valid_header_def valid_tx_def CBlock_of_header_def CBlockHeader_null_def null_hash_def)
  ultimately show ?thesis
    using block_hash_commits [of ?b ?b] by (intro exI [of _ ?b]) (simp add: block_header_parts)
qed

end
