(* ===== verification/Arith_Uint256.thy ===== *)
theory Arith_Uint256
  imports Crypto_Common
begin

text \<open>
  The fixed-width unsigned integers of \<open>src/src/arith_uint256.h\<close> and \<open>arith_uint256.cpp\<close>: a
  \<open>base_uint\<close> is the list of its 32-bit limbs \<open>pn\<close>, least significant first, whose length is
  \<open>WIDTH\<close>.  Each operator is the loop of the source, with the carries in 64-bit words.  The
  lemmas show that the operators compute on the value of the limbs, modulo \<open>2 ^ BITS\<close>.
\<close>

subsection \<open>The class \<open>base_uint\<close>\<close>

type_synonym base_uint = "u32 list"

definition base_uint_of :: "nat \<Rightarrow> u64 \<Rightarrow> base_uint" where
  "base_uint_of WIDTH b = [ucast b, ucast (drop_bit 32 b)] @ replicate (WIDTH - 2) 0"

definition base_not :: "base_uint \<Rightarrow> base_uint" where
  "base_not pn = map (NOT) pn"

fun base_inc :: "base_uint \<Rightarrow> base_uint" where
  "base_inc [] = []"
| "base_inc (p # pn) = (if p + 1 = 0 then (p + 1) # base_inc pn else (p + 1) # pn)"

fun base_dec :: "base_uint \<Rightarrow> base_uint" where
  "base_dec [] = []"
| "base_dec (p # pn) = (if p - 1 = - 1 then (p - 1) # base_dec pn else (p - 1) # pn)"

definition base_uminus :: "base_uint \<Rightarrow> base_uint" where
  "base_uminus pn = base_inc (base_not pn)"

fun add_loop :: "u64 \<Rightarrow> base_uint \<Rightarrow> base_uint \<Rightarrow> base_uint" where
  "add_loop carry (p # pn) (q # b) =
     (let n = carry + ucast p + ucast q in ucast (n AND 0xffffffff) # add_loop (drop_bit 32 n) pn b)"
| "add_loop carry _ _ = []"

definition base_add :: "base_uint \<Rightarrow> base_uint \<Rightarrow> base_uint" where
  "base_add pn b = add_loop 0 pn b"

definition base_sub :: "base_uint \<Rightarrow> base_uint \<Rightarrow> base_uint" where
  "base_sub pn b = base_add pn (base_uminus b)"

text \<open>One step of the loop of a shift, and the whole loop.\<close>

definition shl_step :: "nat \<Rightarrow> nat \<Rightarrow> base_uint \<Rightarrow> nat \<Rightarrow> base_uint \<Rightarrow> base_uint" where
  "shl_step k shift a i pn =
     (let WIDTH = length a;
          pn = (if i + k + 1 < WIDTH \<and> shift \<noteq> 0
                then pn[i + k + 1 := (pn ! (i + k + 1)) OR drop_bit (32 - shift) (a ! i)] else pn)
      in if i + k < WIDTH then pn[i + k := (pn ! (i + k)) OR push_bit shift (a ! i)] else pn)"

definition base_shl :: "base_uint \<Rightarrow> u32 \<Rightarrow> base_uint" where
  "base_shl a shift =
     fold (shl_step (unat (shift div 32)) (unat (shift mod 32)) a) [0 ..< length a] (replicate (length a) 0)"

definition shr_step :: "nat \<Rightarrow> nat \<Rightarrow> base_uint \<Rightarrow> nat \<Rightarrow> base_uint \<Rightarrow> base_uint" where
  "shr_step k shift a i pn =
     (let pn = (if i \<ge> k + 1 \<and> shift \<noteq> 0
                then pn[i - k - 1 := (pn ! (i - k - 1)) OR push_bit (32 - shift) (a ! i)] else pn)
      in if i \<ge> k then pn[i - k := (pn ! (i - k)) OR drop_bit shift (a ! i)] else pn)"

definition base_shr :: "base_uint \<Rightarrow> u32 \<Rightarrow> base_uint" where
  "base_shr a shift =
     fold (shr_step (unat (shift div 32)) (unat (shift mod 32)) a) [0 ..< length a] (replicate (length a) 0)"

text \<open>The loop of both multiplications: a row \<open>x * b\<close> is added to the limbs.\<close>

fun mul32_loop :: "u64 \<Rightarrow> u32 \<Rightarrow> base_uint \<Rightarrow> base_uint" where
  "mul32_loop carry b32 [] = []"
| "mul32_loop carry b32 (p # pn) =
     (let n = carry + ucast b32 * ucast p in ucast (n AND 0xffffffff) # mul32_loop (drop_bit 32 n) b32 pn)"

definition base_mul32 :: "base_uint \<Rightarrow> u32 \<Rightarrow> base_uint" where
  "base_mul32 pn b32 = mul32_loop 0 b32 pn"

fun mul_row :: "u64 \<Rightarrow> u32 \<Rightarrow> base_uint \<Rightarrow> base_uint \<Rightarrow> base_uint" where
  "mul_row carry x (p # pn) (q # b) =
     (let n = carry + ucast p + ucast x * ucast q
      in ucast (n AND 0xffffffff) # mul_row (drop_bit 32 n) x pn b)"
| "mul_row carry x _ _ = []"

definition base_mul :: "base_uint \<Rightarrow> base_uint \<Rightarrow> base_uint" where
  "base_mul a b = fold (\<lambda>j pn. take j pn @ mul_row 0 (a ! j) (drop j pn) b) [0 ..< length a] (replicate (length a) 0)"

text \<open>\<open>base_mul\<close> is \<open>*=\<close> with another object, as everywhere in the code (the binary \<open>*\<close> copies its
  left operand).  In \<open>x *= x\<close> the loop reads its operand from the very limbs it has just cleared.\<close>

definition mul_self_step :: "u32 \<Rightarrow> nat \<Rightarrow> nat \<Rightarrow> u64 \<times> base_uint \<Rightarrow> u64 \<times> base_uint" where
  "mul_self_step x j i = (\<lambda>(carry, pn).
     let n = carry + ucast (pn ! (i + j)) + ucast x * ucast (pn ! i)
     in (drop_bit 32 n, pn[i + j := ucast (n AND 0xffffffff)]))"

definition base_mul_self :: "base_uint \<Rightarrow> base_uint" where
  "base_mul_self a =
     fold (\<lambda>j pn. snd (fold (mul_self_step (a ! j) j) [0 ..< length a - j] (0, pn)))
       [0 ..< length a] (replicate (length a) 0)"

lemma base_mul_self_zero: "base_mul_self a = replicate (length a) 0"
proof -
  have upd: "(replicate n 0)[k := 0] = replicate n (0 :: u32)" for n k
    by (cases "k < n") (simp_all add: list_update_same_conv list_update_beyond)
  have "fold (mul_self_step x j) is (0, replicate n 0) = (0, replicate n 0)"
    if "\<forall>i \<in> set is. i + j < n" for x j n and "is" :: "nat list"
    using that by (induction "is") (simp_all add: mul_self_step_def upd Let_def)
  then have row: "snd (fold (mul_self_step (a ! j) j) [0 ..< length a - j] (0, replicate (length a) 0)) =
      replicate (length a) 0" for j by (simp add: less_diff_conv)
  have "fold (\<lambda>j pn. snd (fold (mul_self_step (a ! j) j) [0 ..< length a - j] (0, pn))) js (replicate (length a) 0) =
      replicate (length a) 0" for js
    by (induction js) (simp_all add: row)
  then show ?thesis by (simp add: base_mul_self_def)
qed

fun cmp_loop :: "base_uint \<Rightarrow> base_uint \<Rightarrow> int" where
  "cmp_loop (p # pn) (q # b) = (if p < q then - 1 else if p > q then 1 else cmp_loop pn b)"
| "cmp_loop _ _ = 0"

definition CompareTo :: "base_uint \<Rightarrow> base_uint \<Rightarrow> int" where
  "CompareTo pn b = cmp_loop (rev pn) (rev b)"

definition EqualTo :: "base_uint \<Rightarrow> u64 \<Rightarrow> bool" where
  "EqualTo pn b \<longleftrightarrow>
     list_all (\<lambda>p. p = 0) (drop 2 pn) \<and> pn ! 1 = ucast (drop_bit 32 b) \<and> pn ! 0 = ucast (b AND 0xffffffff)"

text \<open>The position of the highest bit: of a limb, counting down from \<open>bits\<close>, and of the number.\<close>

fun limb_bits :: "u32 \<Rightarrow> nat \<Rightarrow> nat" where
  "limb_bits p 0 = 1"
| "limb_bits p (Suc n) = (if p AND push_bit (Suc n) 1 \<noteq> 0 then Suc n + 1 else limb_bits p n)"

fun bits_loop :: "base_uint \<Rightarrow> nat \<Rightarrow> nat" where
  "bits_loop pn 0 = 0"
| "bits_loop pn (Suc pos) = (if pn ! pos \<noteq> 0 then 32 * pos + limb_bits (pn ! pos) 31 else bits_loop pn pos)"

definition base_bits :: "base_uint \<Rightarrow> nat" where
  "base_bits pn = bits_loop pn (length pn)"

definition GetLow64 :: "base_uint \<Rightarrow> u64" where
  "GetLow64 pn = ucast (pn ! 0) OR push_bit 32 (ucast (pn ! 1))"

text \<open>Long division: the loop from \<open>shift\<close> down to 0.\<close>

definition div_step :: "nat \<Rightarrow> base_uint \<times> base_uint \<times> base_uint \<Rightarrow> base_uint \<times> base_uint \<times> base_uint" where
  "div_step shift = (\<lambda>(pn, num, dv).
     let (pn, num) = (if CompareTo num dv \<ge> 0
           then (pn[shift div 32 := (pn ! (shift div 32)) OR push_bit (shift mod 32) 1], base_sub num dv)
           else (pn, num))
     in (pn, num, base_shr dv 1))"

fun div_loop :: "nat \<Rightarrow> base_uint \<times> base_uint \<times> base_uint \<Rightarrow> base_uint \<times> base_uint \<times> base_uint" where
  "div_loop 0 s = div_step 0 s"
| "div_loop (Suc shift) s = div_loop shift (div_step (Suc shift) s)"

definition base_div :: "base_uint \<Rightarrow> base_uint \<Rightarrow> base_uint option" where
  "base_div a b =
     (let num_bits = base_bits a; div_bits = base_bits b
      in if div_bits = 0 then None
         else if div_bits > num_bits then Some (replicate (length a) 0)
         else let shift = num_bits - div_bits
           in Some (fst (div_loop shift (replicate (length a) 0, a, base_shl b (word_of_nat shift)))))"

subsection \<open>The compact format\<close>

definition SetCompact :: "u32 \<Rightarrow> base_uint \<times> bool \<times> bool" where
  "SetCompact nCompact =
     (let nSize = unat (drop_bit 24 nCompact);
          nWord0 = nCompact AND 0x007fffff;
          nWord = (if nSize \<le> 3 then drop_bit (8 * (3 - nSize)) nWord0 else nWord0);
          v = (if nSize \<le> 3 then base_uint_of 8 (ucast nWord)
               else base_shl (base_uint_of 8 (ucast nWord)) (word_of_nat (8 * (nSize - 3))))
      in (v, nWord \<noteq> 0 \<and> nCompact AND 0x00800000 \<noteq> 0,
          nWord \<noteq> 0 \<and> (nSize > 34 \<or> nWord > 0xff \<and> nSize > 33 \<or> nWord > 0xffff \<and> nSize > 32)))"

text \<open>The two assertions at the end are modelled by \<open>None\<close>.\<close>

definition GetCompact :: "base_uint \<Rightarrow> bool \<Rightarrow> u32 option" where
  "GetCompact pn fNegative =
     (let nSize = (base_bits pn + 7) div 8;
          nCompact = (if nSize \<le> 3 then ucast (push_bit (8 * (3 - nSize)) (GetLow64 pn))
                      else ucast (GetLow64 (base_shr pn (word_of_nat (8 * (nSize - 3))))));
          (nCompact, nSize) = (if nCompact AND 0x00800000 \<noteq> 0 then (drop_bit 8 nCompact, nSize + 1)
                               else (nCompact, nSize))
      in if nCompact AND NOT 0x007fffff \<noteq> 0 \<or> nSize \<ge> 256 then None
         else let nCompact = nCompact OR push_bit 24 (word_of_nat nSize)
           in Some (nCompact OR (if fNegative \<and> nCompact AND 0x007fffff \<noteq> 0 then 0x00800000 else 0)))"

definition ArithToUint256 :: "base_uint \<Rightarrow> byte list" where
  "ArithToUint256 a = concat (map WriteLE32 a)"

definition UintToArith256 :: "byte list \<Rightarrow> base_uint" where
  "UintToArith256 a = map (\<lambda>x. ReadLE32 (drop (x * 4) a)) [0 ..< 8]"

subsection \<open>The value of the limbs\<close>

fun base_val :: "base_uint \<Rightarrow> nat" where
  "base_val [] = 0"
| "base_val (p # pn) = unat p + 2 ^ 32 * base_val pn"

lemma limb_less: "unat (p :: u32) < 4294967296"
  using unsigned_less [of p] by simp

lemma base_val_less: "base_val pn < 2 ^ (32 * length pn)"
proof (induction pn)
  case (Cons p pn)
  have "unat p + 2 ^ 32 * base_val pn < 2 ^ 32 * (base_val pn + 1)" using limb_less [of p] by simp
  also have "\<dots> \<le> 2 ^ 32 * 2 ^ (32 * length pn)" using Cons.IH by (intro mult_le_mono2) simp
  finally show ?case by (simp add: power_add)
qed simp

lemma base_val_mod [simp]: "base_val pn mod 2 ^ (32 * length pn) = base_val pn"
  by (rule mod_less [OF base_val_less])

lemma base_val_inj: "length a = length b \<Longrightarrow> base_val a = base_val b \<longleftrightarrow> a = b"
proof (induction a b rule: list_induct2)
  case (Cons x xs y ys)
  have "unat x + 2 ^ 32 * base_val xs = unat y + 2 ^ 32 * base_val ys \<longleftrightarrow> unat x = unat y \<and> base_val xs = base_val ys"
  proof
    assume e: "unat x + 2 ^ 32 * base_val xs = unat y + 2 ^ 32 * base_val ys"
    from arg_cong [OF e, of "\<lambda>n. n mod 2 ^ 32"] have "unat x = unat y"
      by (simp del: of_nat_power add: mod_mult_self2)
    with e show "unat x = unat y \<and> base_val xs = base_val ys" by simp
  qed simp
  with Cons show ?case by (simp add: word_unat_eq_iff)
qed simp

lemma base_val_replicate [simp]: "base_val (replicate n 0) = 0"
  by (induction n) auto

lemma base_val_append: "base_val (xs @ ys) = base_val xs + 2 ^ (32 * length xs) * base_val ys"
  by (induction xs) (simp_all add: power_add algebra_simps)

text \<open>One limb of a sum with carry.\<close>

lemma limb_split:
  "unat (ucast ((n :: u64) AND 0xffffffff) :: u32) = unat n mod 2 ^ 32" "unat (drop_bit 32 n) = unat n div 2 ^ 32"
proof -
  have "n AND 0xffffffff = take_bit 32 n" by (simp add: take_bit_eq_mask mask_eq_exp_minus_1)
  then show "unat (ucast (n AND 0xffffffff) :: u32) = unat n mod 2 ^ 32"
    by (simp only: unsigned_ucast_eq unsigned_take_bit_eq) (simp add: take_bit_eq_mod)
qed (simp add: unat_drop_bit_div)

lemma carry_mod: "((x :: nat) + 2 ^ 32 * y) mod (2 ^ 32 * m) = x mod 2 ^ 32 + 2 ^ 32 * ((x div 2 ^ 32 + y) mod m)"
  by (simp add: mod_mult2_eq add.commute)

lemma carry_mod':
  "((x :: nat) + 2 ^ 32 * y) mod 2 ^ (32 * Suc m) = x mod 2 ^ 32 + 2 ^ 32 * ((x div 2 ^ 32 + y) mod 2 ^ (32 * m))"
  using carry_mod [of x y "2 ^ (32 * m)"] by (simp add: power_add)

lemma unat_ucast_limb [simp]: "unat (ucast (p :: u32) :: u64) = unat p"
  using limb_less [of p] by (simp add: unsigned_ucast_eq take_bit_nat_eq_self_iff del: unat_word_less)

lemma add_loop_val:
  "length a = length b \<Longrightarrow> unat c \<le> 1 \<Longrightarrow>
     base_val (add_loop c a b) = (unat c + base_val a + base_val b) mod 2 ^ (32 * length a) \<and>
     length (add_loop c a b) = length a"
proof (induction a b arbitrary: c rule: list_induct2)
  case (Cons p a q b)
  let ?n = "c + ucast p + ucast q :: u64"
  have "unat c + unat p + unat q < 2 * 4294967296" using Cons.prems limb_less [of p] limb_less [of q] by linarith
  then have n: "unat ?n = unat c + unat p + unat q" and "unat (drop_bit 32 ?n) \<le> 1"
    by (simp_all add: unat_word_ariths limb_split less_mult_imp_div_less mod_simps)
  note this(2)
  from Cons.IH [OF this] n show ?case
    using carry_mod' [of "unat c + unat p + unat q" "base_val a + base_val b" "length a"]
    by (simp add: Let_def limb_split algebra_simps)
qed simp

lemma base_add_val [simp]:
  "length a = length b \<Longrightarrow> base_val (base_add a b) = (base_val a + base_val b) mod 2 ^ (32 * length a)"
  "length a = length b \<Longrightarrow> length (base_add a b) = length a"
  using add_loop_val [of a b 0] by (simp_all add: base_add_def)

lemma base_not_val: "base_val (base_not a) + base_val a + 1 = 2 ^ (32 * length a)"
proof (induction a)
  case (Cons p a)
  have "NOT p = - 1 - p" by (simp add: not_eq_complement)
  then have "unat (NOT p) = 4294967295 - unat p" using unat_sub [of p "- 1"] by (simp add: unsigned_minus_1_eq_mask mask_eq_exp_minus_1)
  then have "unat (NOT p) + unat p + 1 = 2 ^ 32" using limb_less [of p] by (simp del: unat_word_less)
  then have "base_val (base_not (p # a)) + base_val (p # a) + 1 =
      2 ^ 32 * (base_val (base_not a) + base_val a + 1)"
    by (simp add: base_not_def algebra_simps)
  also have "\<dots> = 2 ^ (32 * length (p # a))" unfolding Cons.IH by (simp add: power_add)
  finally show ?case .
qed (simp add: base_not_def)

lemma length_base_not [simp]: "length (base_not a) = length a"
  by (simp add: base_not_def)

lemma length_base_inc [simp]: "length (base_inc a) = length a"
  by (induction a) auto

lemma base_inc_val [simp]: "base_val (base_inc a) = (base_val a + 1) mod 2 ^ (32 * length a)"
proof (induction a)
  case (Cons p a)
  have s: "unat (p + 1) = (unat p + 1) mod 2 ^ 32" by (simp add: unat_word_ariths)
  have z: "p + 1 = 0 \<longleftrightarrow> (unat p + 1) mod 2 ^ 32 = 0" unfolding s [symmetric] by (simp only: unat_eq_0)
  have m: "(base_val (p # a) + 1) mod 2 ^ (32 * length (p # a)) =
      (unat p + 1) mod 2 ^ 32 + 2 ^ 32 * (((unat p + 1) div 2 ^ 32 + base_val a) mod 2 ^ (32 * length a))"
    using carry_mod' [of "unat p + 1" "base_val a" "length a"] by (simp add: algebra_simps)
  show ?case
  proof (cases "unat p + 1 = 4294967296")
    case True
    then show ?thesis unfolding m using s z Cons.IH by (simp add: algebra_simps)
  next
    case False
    with limb_less [of p] have "unat p + 1 < 4294967296" by linarith
    then show ?thesis unfolding m using s z by simp
  qed
qed simp

lemma base_uminus_val [simp]:
  "base_val (base_uminus a) = (2 ^ (32 * length a) - base_val a) mod 2 ^ (32 * length a)"
  "length (base_uminus a) = length a"
proof -
  have "base_val (base_not a) + 1 = 2 ^ (32 * length a) - base_val a" using base_not_val [of a] by simp
  then show "base_val (base_uminus a) = (2 ^ (32 * length a) - base_val a) mod 2 ^ (32 * length a)"
    by (simp add: base_uminus_def del: One_nat_def)
qed (simp add: base_uminus_def)

lemma length_base_sub [simp]: "length a = length b \<Longrightarrow> length (base_sub a b) = length a"
  by (simp add: base_sub_def)

lemma base_sub_val [simp]:
  "length a = length b \<Longrightarrow>
     base_val (base_sub a b) = (base_val a + (2 ^ (32 * length a) - base_val b)) mod 2 ^ (32 * length a)"
  by (simp add: base_sub_def mod_simps)

lemma base_sub_val_le:
  assumes "length a = length b" "base_val b \<le> base_val a"
  shows "base_val (base_sub a b) = base_val a - base_val b"
proof -
  have "base_val a + (2 ^ (32 * length a) - base_val b) = base_val a - base_val b + 2 ^ (32 * length a)"
    using assms base_val_less [of b] by simp
  moreover have "(base_val a - base_val b) mod 2 ^ (32 * length a) = base_val a - base_val b"
    using base_val_less [of a] by (intro mod_less) linarith
  ultimately show ?thesis using assms(1) by simp
qed

text \<open>Multiplication: a carry below \<open>2 ^ 32\<close> keeps each step within 64 bits.\<close>

lemma mul_step:
  assumes "unat c < 2 ^ 32" "unat q < 2 ^ 32"
  shows "unat (c + q + ucast (x :: u32) * ucast (y :: u32) :: u64) = unat c + unat q + unat x * unat y"
    "(unat c + unat q + unat x * unat y) div 2 ^ 32 < 2 ^ 32"
proof -
  have "unat x * unat y \<le> 4294967295 * 4294967295"
    using limb_less [of x] limb_less [of y] by (intro mult_le_mono) linarith+
  with assms have l: "unat c + unat q + unat x * unat y < 18446744073709551616" by simp
  then show "unat (c + q + ucast (x :: u32) * ucast (y :: u32) :: u64) = unat c + unat q + unat x * unat y"
    by (simp add: unat_word_ariths mod_simps)
  from l show "(unat c + unat q + unat x * unat y) div 2 ^ 32 < 2 ^ 32" by (simp add: less_mult_imp_div_less)
qed

lemma mul32_loop_val:
  "unat c < 2 ^ 32 \<Longrightarrow>
     base_val (mul32_loop c b a) = (unat c + unat b * base_val a) mod 2 ^ (32 * length a) \<and>
     length (mul32_loop c b a) = length a"
proof (induction a arbitrary: c)
  case (Cons p a)
  let ?n = "c + ucast b * ucast p :: u64"
  have n: "unat ?n = unat c + unat b * unat p" "unat (drop_bit 32 ?n) < 2 ^ 32"
    using mul_step [of c 0 b p] Cons.prems by (simp_all add: limb_split)
  from Cons.IH [OF n(2)] n(1) show ?case
    using carry_mod' [of "unat c + unat b * unat p" "unat b * base_val a" "length a"]
    by (simp add: Let_def limb_split algebra_simps)
qed simp

lemma base_mul32_val [simp]:
  "base_val (base_mul32 a b) = unat b * base_val a mod 2 ^ (32 * length a)" "length (base_mul32 a b) = length a"
  using mul32_loop_val [of 0 b a] by (simp_all add: base_mul32_def)

lemma mul_row_val:
  "length a \<le> length b \<Longrightarrow> unat c < 2 ^ 32 \<Longrightarrow>
     base_val (mul_row c x a b) = (unat c + base_val a + unat x * base_val b) mod 2 ^ (32 * length a) \<and>
     length (mul_row c x a b) = length a"
proof (induction c x a b rule: mul_row.induct)
  case (1 c x p a q b)
  let ?n = "c + ucast p + ucast x * ucast q :: u64"
  have n: "unat ?n = unat c + unat p + unat x * unat q" "unat (drop_bit 32 ?n) < 2 ^ 32"
    using mul_step [of c "ucast p" x q] limb_less [of p] 1 by (simp_all add: limb_split)
  from 1(1) [OF refl _ n(2)] 1 n(1) show ?case
    using carry_mod' [of "unat c + unat p + unat x * unat q" "base_val a + unat x * base_val b" "length a"]
    by (simp add: Let_def limb_split algebra_simps)
qed auto

lemma shifted_mod:
  "(x :: nat) < 2 ^ k \<Longrightarrow> k \<le> n \<Longrightarrow> x + 2 ^ k * (y mod 2 ^ (n - k)) = (x + 2 ^ k * y) mod 2 ^ n"
  using mod_mult2_eq [of "x + 2 ^ k * y" "2 ^ k" "2 ^ (n - k)"]
  by (simp add: power_add [symmetric] div_mult_self2 mod_mult_self2)

lemma base_mul_rows:
  assumes "length a \<le> length b" "j \<le> length a"
  defines "pn \<equiv> fold (\<lambda>j pn. take j pn @ mul_row 0 (a ! j) (drop j pn) b) [0 ..< j] (replicate (length a) 0)"
  shows "length pn = length a \<and> base_val pn = base_val (take j a) * base_val b mod 2 ^ (32 * length a)"
  using assms(2) unfolding pn_def
proof (induction j)
  case (Suc j)
  let ?f = "\<lambda>j pn. take j pn @ mul_row 0 (a ! j) (drop j pn) b"
  let ?p = "fold ?f [0 ..< j] (replicate (length a) 0)" and ?n = "32 * length a" and ?x = "unat (a ! j)"
  have l: "length ?p = length a" and v: "base_val ?p = base_val (take j a) * base_val b mod 2 ^ ?n"
    using Suc by simp_all
  have row: "base_val (mul_row 0 (a ! j) (drop j ?p) b) = (base_val (drop j ?p) + ?x * base_val b) mod 2 ^ (?n - 32 * j)"
      "length (mul_row 0 (a ! j) (drop j ?p) b) = length a - j"
    using mul_row_val [of "drop j ?p" b 0 "a ! j"] l assms(1) by (simp_all add: diff_mult_distrib2)
  have t: "base_val (take j ?p) < 2 ^ (32 * j)" using base_val_less [of "take j ?p"] l Suc.prems by simp
  have "base_val (?f j ?p) = base_val (take j ?p) + 2 ^ (32 * j) * ((base_val (drop j ?p) + ?x * base_val b) mod 2 ^ (?n - 32 * j))"
    using row l Suc.prems by (simp add: base_val_append)
  also have "\<dots> = (base_val (take j ?p) + 2 ^ (32 * j) * (base_val (drop j ?p) + ?x * base_val b)) mod 2 ^ ?n"
    using shifted_mod [OF t, of ?n] Suc.prems by simp
  also have "base_val (take j ?p) + 2 ^ (32 * j) * (base_val (drop j ?p) + ?x * base_val b) =
      base_val ?p + 2 ^ (32 * j) * ?x * base_val b"
    using base_val_append [of "take j ?p" "drop j ?p"] l Suc.prems by (simp add: algebra_simps)
  also have "(base_val ?p + 2 ^ (32 * j) * ?x * base_val b) mod 2 ^ ?n = base_val (take (Suc j) a) * base_val b mod 2 ^ ?n"
    using Suc.prems by (simp add: v mod_simps take_Suc_conv_app_nth base_val_append algebra_simps)
  finally show ?case using l row Suc.prems by simp
qed simp

lemma base_mul_val [simp]:
  "length a = length b \<Longrightarrow> base_val (base_mul a b) = base_val a * base_val b mod 2 ^ (32 * length a)"
  "length a = length b \<Longrightarrow> length (base_mul a b) = length a"
  using base_mul_rows [of a b "length a"] by (simp_all add: base_mul_def)

lemma cmp_loop_val:
  "length a = length b \<Longrightarrow> cmp_loop a b =
     (if base_val (rev a) < base_val (rev b) then - 1 else if base_val (rev b) < base_val (rev a) then 1 else 0)"
proof (induction a b rule: list_induct2)
  case (Cons p a q b)
  let ?m = "2 ^ (32 * length a)"
  have l: "base_val (rev a) < ?m" "base_val (rev b) < ?m"
    using base_val_less [of "rev a"] base_val_less [of "rev b"] Cons by simp_all
  have less: "x + ?m * u < y + ?m * v" if "x < ?m" "u < v" for x y u v :: nat
  proof -
    have "x + ?m * u < ?m * (u + 1)" using that by simp
    also have "\<dots> \<le> ?m * v" using that by (intro mult_le_mono2) simp
    finally show ?thesis by simp
  qed
  show ?case
    using less [OF l(1), of "unat p" "unat q" "base_val (rev b)"] less [OF l(2), of "unat q" "unat p" "base_val (rev a)"] Cons
    by (cases p q rule: linorder_cases) (auto simp: base_val_append word_less_nat_alt)
qed simp

lemma compare_simps [simp]:
  assumes "length a = length b"
  shows "CompareTo a b > 0 \<longleftrightarrow> base_val b < base_val a" "CompareTo a b \<ge> 0 \<longleftrightarrow> base_val b \<le> base_val a"
    "CompareTo a b < 0 \<longleftrightarrow> base_val a < base_val b" "CompareTo a b \<le> 0 \<longleftrightarrow> base_val a \<le> base_val b"
  using cmp_loop_val [of "rev a" "rev b"] assms by (auto simp: CompareTo_def)

text \<open>The bits of the value are the bits of the limbs.\<close>

lemma bit_base_val: "bit (base_val a) i \<longleftrightarrow> i < 32 * length a \<and> bit (a ! (i div 32)) (i mod 32)"
proof (induction a arbitrary: i)
  case (Cons p a)
  have d: "(unat p + 2 ^ 32 * base_val a) div 2 ^ 32 = base_val a" "(unat p + 2 ^ 32 * base_val a) mod 2 ^ 32 = unat p"
    by simp_all
  show ?case
  proof (cases "i < 32")
    case True
    then have "bit (base_val (p # a)) i \<longleftrightarrow> bit (take_bit 32 (base_val (p # a))) i" by (simp add: bit_take_bit_iff)
    also have "take_bit 32 (base_val (p # a)) = unat p" using d(2) by (simp add: take_bit_eq_mod)
    finally show ?thesis using True by (simp add: bit_unsigned_iff)
  next
    case False
    then obtain k where k: "i = 32 + k" using le_Suc_ex [of 32 i] by auto
    then have "bit (base_val (p # a)) i \<longleftrightarrow> bit (drop_bit 32 (base_val (p # a))) k" by (simp add: bit_drop_bit_eq)
    also have "drop_bit 32 (base_val (p # a)) = base_val a" using d(1) by (simp add: drop_bit_eq_div)
    finally show ?thesis using k Cons.IH [of k] div_add_self1 [of 32 k] by simp
  qed
qed simp

lemma bit_base_val_at:
  assumes "r < 32"
  shows "bit (base_val a) (r + 32 * q) \<longleftrightarrow> q < length a \<and> bit (a ! q) r"
proof -
  have "r + 32 * q < 32 * length a \<longleftrightarrow> q < length a" using assms by linarith
  with assms show ?thesis by (simp add: bit_base_val)
qed

text \<open>The limbs that the loop of a shift has written after \<open>n\<close> rounds.\<close>

definition shl_limb :: "nat \<Rightarrow> nat \<Rightarrow> base_uint \<Rightarrow> nat \<Rightarrow> nat \<Rightarrow> u32" where
  "shl_limb k s a n j =
    (if k \<le> j \<and> j < k + n then push_bit s (a ! (j - k)) else 0) OR
    (if k + 1 \<le> j \<and> j < k + 1 + n \<and> s \<noteq> 0 then drop_bit (32 - s) (a ! (j - k - 1)) else 0)"

lemma length_shl_step [simp]: "length (shl_step k s a n pn) = length pn"
  by (simp add: shl_step_def Let_def)

lemma nth_shl_step:
  "length pn = length a \<Longrightarrow> j < length a \<Longrightarrow> shl_step k s a n pn ! j =
     pn ! j OR (if j = k + n then push_bit s (a ! n) else 0) OR
     (if j = k + n + 1 \<and> s \<noteq> 0 then drop_bit (32 - s) (a ! n) else 0)"
  by (auto simp: shl_step_def Let_def nth_list_update ac_simps)

lemma shl_limb_Suc:
  "shl_limb k s a (Suc n) j = shl_limb k s a n j OR (if j = k + n then push_bit s (a ! n) else 0) OR
     (if j = k + n + 1 \<and> s \<noteq> 0 then drop_bit (32 - s) (a ! n) else 0)"
  by (auto simp: shl_limb_def ac_simps)

lemma shl_step_limbs:
  "shl_step k s a n (map (shl_limb k s a n) [0 ..< length a]) = map (shl_limb k s a (Suc n)) [0 ..< length a]"
  by (rule nth_equalityI) (simp_all add: nth_shl_step shl_limb_Suc)

lemma shl_loop:
  "fold (shl_step k s a) [0 ..< n] (replicate (length a) 0) = map (shl_limb k s a n) [0 ..< length a]"
proof (induction n)
  case 0
  show ?case by (rule nth_equalityI) (auto simp: shl_limb_def)
qed (simp add: shl_step_limbs)

lemma bit_shl_limb:
  assumes "s < 32" "r < 32" "q < length a"
  shows "bit (shl_limb k s a (length a) q) r \<longleftrightarrow>
    32 * k + s \<le> r + 32 * q \<and> bit (base_val a) (r + 32 * q - (32 * k + s))"
proof -
  consider "k \<le> q" "s \<le> r" | "k < q" "r < s" | "q < k \<or> q = k \<and> r < s" by linarith
  then show ?thesis
  proof cases
    case 1
    then have l: "32 * k + s \<le> r + 32 * q" and e: "r + 32 * q - (32 * k + s) = (r - s) + 32 * (q - k)" by linarith+
    have "\<not> bit (drop_bit (32 - s) w) r" if "s \<noteq> 0" for w :: u32
      using 1 bit_imp_le_length [of w "r + (32 - s)"] assms(1) by (auto simp: bit_drop_bit_eq ac_simps)
    then show ?thesis
      unfolding e using 1 l assms by (subst bit_base_val_at) (auto simp: shl_limb_def bit_or_iff bit_push_bit_iff)
  next
    case 2
    then have l: "32 * k + s \<le> r + 32 * q" and e: "r + 32 * q - (32 * k + s) = (r + 32 - s) + 32 * (q - k - 1)"
      using assms(1) by linarith+
    show ?thesis
      unfolding e using 2 l assms
      by (subst bit_base_val_at) (auto simp: shl_limb_def bit_or_iff bit_push_bit_iff bit_drop_bit_eq ac_simps)
  next
    case 3
    then have "r + 32 * q < 32 * k + s" using assms by linarith
    with 3 show ?thesis by (auto simp: shl_limb_def bit_or_iff bit_push_bit_iff)
  qed
qed

lemma unat_shift_parts: "32 * unat (shift div 32) + unat (shift mod 32) = unat (shift :: u32)" "unat (shift mod 32) < 32"
  by (simp_all add: unat_div unat_mod)

lemma length_base_shl [simp]: "length (base_shl a shift) = length a"
  by (simp add: base_shl_def shl_loop)

lemma base_shl_val [simp]: "base_val (base_shl a shift) = base_val a * 2 ^ unat shift mod 2 ^ (32 * length a)"
proof -
  let ?k = "unat (shift div 32)" and ?s = "unat (shift mod 32)"
  have "base_val (base_shl a shift) = take_bit (32 * length a) (push_bit (unat shift) (base_val a))"
  proof (rule bit_eqI)
    fix i
    show "bit (base_val (base_shl a shift)) i \<longleftrightarrow>
        bit (take_bit (32 * length a) (push_bit (unat shift) (base_val a))) i"
    proof (cases "i < 32 * length a")
      case True
      then have "bit (base_val (base_shl a shift)) i \<longleftrightarrow> bit (shl_limb ?k ?s a (length a) (i div 32)) (i mod 32)"
        by (simp add: bit_base_val base_shl_def shl_loop less_mult_imp_div_less ac_simps)
      then show ?thesis
        using True bit_shl_limb [OF unat_shift_parts(2) [of shift], where r = "i mod 32" and q = "i div 32" and k = ?k] unat_shift_parts(1) [of shift]
        by (simp add: bit_take_bit_iff bit_push_bit_iff)
    qed (simp add: bit_base_val bit_take_bit_iff)
  qed
  then show ?thesis by (simp add: take_bit_eq_mod push_bit_eq_mult)
qed

text \<open>The same for the right shift.\<close>

definition shr_limb :: "nat \<Rightarrow> nat \<Rightarrow> base_uint \<Rightarrow> nat \<Rightarrow> nat \<Rightarrow> u32" where
  "shr_limb k s a n j =
    (if j + k < n then drop_bit s (a ! (j + k)) else 0) OR
    (if j + k + 1 < n \<and> s \<noteq> 0 then push_bit (32 - s) (a ! (j + k + 1)) else 0)"

lemma length_shr_step [simp]: "length (shr_step k s a n pn) = length pn"
  by (simp add: shr_step_def Let_def)

lemma nth_shr_step:
  "length pn = length a \<Longrightarrow> n < length a \<Longrightarrow> j < length a \<Longrightarrow> shr_step k s a n pn ! j =
     pn ! j OR (if j + k = n then drop_bit s (a ! n) else 0) OR
     (if j + k + 1 = n \<and> s \<noteq> 0 then push_bit (32 - s) (a ! n) else 0)"
  by (auto simp: shr_step_def Let_def nth_list_update ac_simps)

lemma shr_limb_Suc:
  "shr_limb k s a (Suc n) j = shr_limb k s a n j OR (if j + k = n then drop_bit s (a ! n) else 0) OR
     (if j + k + 1 = n \<and> s \<noteq> 0 then push_bit (32 - s) (a ! n) else 0)"
  by (auto simp: shr_limb_def ac_simps less_Suc_eq)

lemma shr_loop:
  "n \<le> length a \<Longrightarrow>
     fold (shr_step k s a) [0 ..< n] (replicate (length a) 0) = map (shr_limb k s a n) [0 ..< length a]"
proof (induction n)
  case 0
  show ?case by (rule nth_equalityI) (auto simp: shr_limb_def)
next
  case (Suc n)
  have "shr_step k s a n (map (shr_limb k s a n) [0 ..< length a]) = map (shr_limb k s a (Suc n)) [0 ..< length a]"
    using Suc.prems by (intro nth_equalityI) (simp_all add: nth_shr_step shr_limb_Suc)
  with Suc show ?case by simp
qed

lemma bit_shr_limb:
  assumes "s < 32" "r < 32"
  shows "bit (shr_limb k s a (length a) q) r \<longleftrightarrow> bit (base_val a) (r + 32 * q + (32 * k + s))"
proof (cases "r + s < 32")
  case True
  have e: "r + 32 * q + (32 * k + s) = (r + s) + 32 * (q + k)" by simp
  have "\<not> bit (push_bit (32 - s) w) r" for w :: u32
    using True assms(2) by (auto simp: bit_push_bit_iff)
  then show ?thesis
    unfolding e bit_base_val_at [OF True] by (auto simp: shr_limb_def bit_or_iff bit_drop_bit_eq ac_simps)
next
  case False
  then have e: "r + 32 * q + (32 * k + s) = (r + s - 32) + 32 * (q + k + 1)" and r: "r + s - 32 < 32"
    using assms by simp_all
  have "\<not> bit (drop_bit s w) r" for w :: u32
    using False bit_imp_le_length [of w "r + s"] by (auto simp: bit_drop_bit_eq ac_simps)
  moreover have "r - (32 - s) = r + s - 32" using assms by simp
  ultimately show ?thesis
    unfolding e bit_base_val_at [OF r] using False assms(2) by (auto simp: shr_limb_def bit_or_iff bit_push_bit_iff)
qed

lemma length_base_shr [simp]: "length (base_shr a shift) = length a"
  by (simp add: base_shr_def shr_loop)

lemma base_shr_val [simp]: "base_val (base_shr a shift) = base_val a div 2 ^ unat shift"
proof -
  let ?k = "unat (shift div 32)" and ?s = "unat (shift mod 32)"
  have "base_val (base_shr a shift) = drop_bit (unat shift) (base_val a)"
  proof (rule bit_eqI)
    fix i
    show "bit (base_val (base_shr a shift)) i \<longleftrightarrow> bit (drop_bit (unat shift) (base_val a)) i"
    proof (cases "i < 32 * length a")
      case True
      then have "bit (base_val (base_shr a shift)) i \<longleftrightarrow> bit (shr_limb ?k ?s a (length a) (i div 32)) (i mod 32)"
        by (simp add: bit_base_val base_shr_def shr_loop less_mult_imp_div_less ac_simps)
      then show ?thesis
        using True bit_shr_limb [OF unat_shift_parts(2) [of shift], where r = "i mod 32" and q = "i div 32" and k = ?k] unat_shift_parts(1) [of shift]
        by (simp add: bit_drop_bit_eq ac_simps)
    qed (simp add: bit_base_val bit_drop_bit_eq)
  qed
  then show ?thesis by (simp add: drop_bit_eq_div)
qed

subsection \<open>Bit length and division\<close>

lemma odd_top_bit:
  assumes "(x :: nat) < 2 ^ Suc n"
  shows "odd (x div 2 ^ n) \<longleftrightarrow> 2 ^ n \<le> x"
proof -
  have "x div 2 ^ n < 2" using assms by (simp add: less_mult_imp_div_less)
  then have "odd (x div 2 ^ n) \<longleftrightarrow> x div 2 ^ n \<noteq> 0" by (auto simp: less_2_cases_iff)
  then show ?thesis by (simp add: div_eq_0_iff not_less)
qed

lemma limb_bits_bounds:
  "n < 32 \<Longrightarrow> p \<noteq> 0 \<Longrightarrow> unat p < 2 ^ (n + 1) \<Longrightarrow>
     0 < limb_bits p n \<and> 2 ^ (limb_bits p n - 1) \<le> unat p \<and> unat p < 2 ^ limb_bits p n \<and> limb_bits p n \<le> n + 1"
proof (induction n)
  case 0
  then show ?case by (auto simp: unat_gt_0 Suc_le_eq)
next
  case (Suc n)
  have b: "p AND push_bit (Suc n) 1 \<noteq> 0 \<longleftrightarrow> bit p (Suc n)"
    using and_exp_eq_0_iff_not_bit [of p "Suc n"] by (simp add: push_bit_eq_mult)
  have u: "bit p (Suc n) \<longleftrightarrow> 2 ^ Suc n \<le> unat p"
    using bit_unsigned_iff [of p "Suc n", where ?'a = nat] odd_top_bit [of "unat p" "Suc n"] Suc.prems(3)
    by (simp add: bit_iff_odd)
  show ?case using Suc b u by (auto simp: not_le)
qed

definition has_bits :: "nat \<Rightarrow> nat \<Rightarrow> bool" where
  "has_bits v b \<longleftrightarrow> (if v = 0 then b = 0 else 0 < b \<and> 2 ^ (b - 1) \<le> v \<and> v < 2 ^ b)"

lemma bits_loop_val: "n \<le> length a \<Longrightarrow> has_bits (base_val (take n a)) (bits_loop a n) \<and> bits_loop a n \<le> 32 * n"
proof (induction n)
  case (Suc n)
  let ?v = "base_val (take n a)" and ?p = "a ! n"
  have v: "base_val (take (Suc n) a) = ?v + 2 ^ (32 * n) * unat ?p" "?v < 2 ^ (32 * n)"
    using Suc.prems base_val_less [of "take n a"] by (simp_all add: take_Suc_conv_app_nth base_val_append)
  show ?case
  proof (cases "?p = 0")
    case False
    then obtain c where c: "limb_bits ?p 31 = Suc c" "2 ^ c \<le> unat ?p" "unat ?p < 2 ^ Suc c" "c \<le> 31"
      using limb_bits_bounds [of 31 ?p] limb_less [of ?p] by (cases "limb_bits ?p 31") auto
    have "2 ^ (32 * n + c) \<le> 2 ^ (32 * n) * unat ?p" using c(2) by (simp add: power_add)
    moreover have "2 ^ (32 * n) * (unat ?p + 1) \<le> 2 ^ (32 * n) * 2 ^ Suc c" using c(3) by (intro mult_le_mono2) simp
    then have "?v + 2 ^ (32 * n) * unat ?p < 2 ^ (32 * n + Suc c)" using v(2) by (simp add: power_add)
    ultimately show ?thesis using False v(1) c by (simp add: has_bits_def unat_gt_0)
  qed (use Suc v in simp)
qed (simp add: has_bits_def)

lemma base_bits_val: "has_bits (base_val a) (base_bits a)" "base_bits a \<le> 32 * length a"
  using bits_loop_val [of "length a" a] by (simp_all add: base_bits_def)

lemma base_val_set_bit:
  assumes "k < 32 * length a" "2 ^ Suc k dvd base_val a"
  shows "base_val (a[k div 32 := (a ! (k div 32)) OR push_bit (k mod 32) 1]) = base_val a + 2 ^ k"
proof -
  have "\<not> bit (base_val a) k" using assms(2) by (auto simp: bit_iff_odd)
  then have "base_val a + 2 ^ k = base_val a OR 2 ^ k" by (intro disjunctive_add) (auto simp: bit_exp_iff)
  moreover have "base_val (a[k div 32 := (a ! (k div 32)) OR push_bit (k mod 32) 1]) = base_val a OR 2 ^ k"
  proof (rule bit_eqI)
    fix i
    have "i div 32 = k div 32 \<and> i mod 32 = k mod 32 \<longleftrightarrow> i = k" by (metis div_mult_mod_eq)
    then show "bit (base_val (a[k div 32 := (a ! (k div 32)) OR push_bit (k mod 32) 1])) i \<longleftrightarrow> bit (base_val a OR 2 ^ k) i"
      using assms(1) by (auto simp: bit_base_val bit_or_iff bit_exp_iff nth_list_update bit_push_bit_iff bit_1_iff)
  qed
  ultimately show ?thesis by simp
qed

text \<open>Before the round for \<open>k\<close> the quotient is known down to bit \<open>k + 1\<close>.\<close>

definition div_inv :: "nat \<Rightarrow> nat \<Rightarrow> nat \<Rightarrow> nat \<Rightarrow> base_uint \<times> base_uint \<times> base_uint \<Rightarrow> bool" where
  "div_inv w a b k = (\<lambda>(pn, num, dv). length pn = w \<and> length num = w \<and> length dv = w \<and>
     2 ^ Suc k dvd base_val pn \<and> a = base_val pn * b + base_val num \<and> base_val num < b * 2 ^ Suc k \<and>
     base_val dv = b * 2 ^ k)"

lemma div_step_inv:
  assumes "div_inv w a b k (pn, num, dv)" "k < 32 * w"
  obtains pn' num' dv' where "div_step k (pn, num, dv) = (pn', num', dv')" "length pn' = w" "length num' = w"
    "length dv' = w" "2 ^ k dvd base_val pn'" "a = base_val pn' * b + base_val num'" "base_val num' < b * 2 ^ k"
    "base_val dv' = b * 2 ^ k div 2"
proof (cases "base_val dv \<le> base_val num")
  case True
  let ?pn = "pn[k div 32 := (pn ! (k div 32)) OR push_bit (k mod 32) 1]"
  have v: "base_val ?pn = base_val pn + 2 ^ k" using assms by (intro base_val_set_bit) (simp_all add: div_inv_def)
  have n: "base_val (base_sub num dv) = base_val num - b * 2 ^ k"
    using base_sub_val_le [of num dv] True assms(1) by (simp add: div_inv_def)
  show ?thesis
  proof (rule that)
    show "div_step k (pn, num, dv) = (?pn, base_sub num dv, base_shr dv 1)"
      using True assms(1) by (simp add: div_step_def div_inv_def)
    show "2 ^ k dvd base_val ?pn" unfolding v using assms(1) by (auto simp: div_inv_def intro: dvd_trans [of _ "2 ^ Suc k"])
    show "a = base_val ?pn * b + base_val (base_sub num dv)"
      unfolding v n using True assms(1) by (simp add: div_inv_def algebra_simps)
    show "base_val (base_sub num dv) < b * 2 ^ k" 
      unfolding n using assms(1) by (intro less_diff_conv2 [THEN iffD2]) (use True in \<open>auto simp: div_inv_def\<close>)
  qed (use assms(1) in \<open>simp_all add: div_inv_def\<close>)
next
  case False
  show ?thesis
  proof (rule that)
    show "div_step k (pn, num, dv) = (pn, num, base_shr dv 1)"
      using False assms(1) by (simp add: div_step_def div_inv_def)
    show "2 ^ k dvd base_val pn" using assms(1) by (auto simp: div_inv_def intro: dvd_trans [of _ "2 ^ Suc k"])
  qed (use False assms(1) in \<open>simp_all add: div_inv_def\<close>)
qed

lemma div_loop_val:
  "div_inv w a b k s \<Longrightarrow> k < 32 * w \<Longrightarrow>
     length (fst (div_loop k s)) = w \<and> base_val (fst (div_loop k s)) = a div b"
proof (induction k arbitrary: s)
  case 0
  obtain pn num dv where s: "s = (pn, num, dv)" by (cases s) auto
  obtain pn' num' dv' where "div_step 0 s = (pn', num', dv')" "length pn' = w" "a = base_val pn' * b + base_val num'"
      "base_val num' < b * 2 ^ 0"
    using div_step_inv [of w a b 0 pn num dv] 0 unfolding s by metis
  then show ?case by simp
next
  case (Suc k)
  obtain pn num dv where s: "s = (pn, num, dv)" by (cases s) auto
  have "div_inv w a b (Suc k) (pn, num, dv)" using Suc.prems(1) s by simp
  then have "div_inv w a b k (div_step (Suc k) s)" unfolding s
  proof (rule div_step_inv)
    fix pn' num' dv'
    assume "div_step (Suc k) (pn, num, dv) = (pn', num', dv')" "length pn' = w" "length num' = w"
      "length dv' = w" "2 ^ Suc k dvd base_val pn'" "a = base_val pn' * b + base_val num'"
      "base_val num' < b * 2 ^ Suc k" "base_val dv' = b * 2 ^ Suc k div 2"
    then show "div_inv w a b k (div_step (Suc k) (pn, num, dv))" by (simp add: div_inv_def)
  qed (rule Suc.prems(2))
  with Suc show ?case by simp
qed

lemma base_div_val:
  assumes "length a = length b" "length a < 2 ^ 27"
  shows "base_div a b = None \<longleftrightarrow> base_val b = 0"
    "base_div a b = Some q \<Longrightarrow> base_val q = base_val a div base_val b \<and> length q = length a"
proof -
  let ?n = "base_bits a" and ?d = "base_bits b" and ?w = "length a"
  have d: "has_bits (base_val b) ?d" "has_bits (base_val a) ?n" "?n \<le> 32 * ?w"
    using base_bits_val [of a] base_bits_val [of b] by simp_all
  show z: "base_div a b = None \<longleftrightarrow> base_val b = 0" using d(1) by (auto simp: base_div_def Let_def has_bits_def split: if_splits)
  assume q: "base_div a b = Some q"
  with z have b: "base_val b \<noteq> 0" by auto
  with d have bd: "0 < ?d" "2 ^ (?d - 1) \<le> base_val b" "base_val b < 2 ^ ?d" by (simp_all add: has_bits_def)
  have an: "base_val a < 2 ^ ?n" using d(2) by (simp add: has_bits_def split: if_splits)
  show "base_val q = base_val a div base_val b \<and> length q = length a"
  proof (cases "?d > ?n")
    case True
    then have "(2 :: nat) ^ ?n \<le> 2 ^ (?d - 1)" by (intro power_increasing) auto
    then have "base_val a < base_val b" using an bd(2) by linarith
    with bd(1) True q show ?thesis by (auto simp: base_div_def)
  next
    case False
    let ?s = "?n - ?d"
    have "base_val b * 2 ^ ?s < 2 ^ ?d * 2 ^ ?s" using bd by simp
    also have "\<dots> \<le> 2 ^ (32 * ?w)" using False d(3) by (simp add: power_add [symmetric])
    finally have sh: "base_val (base_shl b (word_of_nat ?s)) = base_val b * 2 ^ ?s"
      using assms d(3) by (simp add: unat_of_nat)
    have "?n = (?d - 1) + Suc ?s" using False bd(1) by simp
    then have "(2 :: nat) ^ ?n \<le> 2 ^ (?d - 1) * 2 ^ Suc ?s" by (metis order_refl power_add)
    also have "\<dots> \<le> base_val b * 2 ^ Suc ?s" using bd(2) by (intro mult_le_mono1)
    finally have "div_inv ?w (base_val a) (base_val b) ?s (replicate ?w 0, a, base_shl b (word_of_nat ?s))"
      using an sh assms(1) by (simp add: div_inv_def)
    from div_loop_val [OF this] False bd(1) d(3) q show ?thesis by (auto simp: base_div_def Let_def)
  qed
qed

lemma diff_mod_of_nat:
  assumes "b \<le> m"
  shows "int ((a + (m - b)) mod m) = (int a - int b) mod int m"
proof -
  have "int (a + (m - b)) = int a - int b + int m" using assms by simp
  then show ?thesis by (simp only: of_nat_mod mod_add_self2)
qed

text \<open>C39. \<open>arith_uint256\<close> is arithmetic modulo \<open>2 ^ 256\<close>: the limb loops of all operators compute
  the operation on the value of the limbs, comparison is comparison of the values, and long
  division gives the quotient, failing exactly for a zero divisor.\<close>

theorem arith_uint256_refines:
  assumes "length a = 8" "length b = 8"
  shows "base_val (base_add a b) = (base_val a + base_val b) mod 2 ^ 256 \<and>
    int (base_val (base_sub a b)) = (int (base_val a) - int (base_val b)) mod 2 ^ 256 \<and>
    base_val (base_mul a b) = base_val a * base_val b mod 2 ^ 256 \<and>
    base_val (base_mul32 a c) = unat c * base_val a mod 2 ^ 256 \<and>
    base_val (base_shl a n) = base_val a * 2 ^ unat n mod 2 ^ 256 \<and>
    base_val (base_shr a n) = base_val a div 2 ^ unat n \<and>
    (CompareTo a b < 0 \<longleftrightarrow> base_val a < base_val b) \<and>
    map_option base_val (base_div a b) = (if base_val b = 0 then None else Some (base_val a div base_val b))"
proof -
  have "int ((base_val a + (2 ^ 256 - base_val b)) mod 2 ^ 256) = (int (base_val a) - int (base_val b)) mod 2 ^ 256"
    using diff_mod_of_nat [of "base_val b" "2 ^ 256" "base_val a"] base_val_less [of b] assms by simp
  moreover have "map_option base_val (base_div a b) = (if base_val b = 0 then None else Some (base_val a div base_val b))"
    using base_div_val [of a b] assms by (cases "base_div a b") auto
  ultimately show ?thesis using assms by simp
qed

theorem arith_uint256_refines_witness:
  "let a = [5, 0, 0, 0, 0, 0, 0, 1]; b = [7, 0, 0, 0, 0, 0, 0, 0]
   in base_val (base_add a b) = 2 ^ 224 + 12 \<and> map_option base_val (base_div a b) = Some ((2 ^ 224 + 5) div 7)"
  using arith_uint256_refines [of "[5, 0, 0, 0, 0, 0, 0, 1]" "[7, 0, 0, 0, 0, 0, 0, 0]"] by (simp add: Let_def)

subsection \<open>Compact numbers\<close>

lemma GetLow64_val: "2 \<le> length a \<Longrightarrow> unat (GetLow64 a) = base_val a mod 2 ^ 64"
proof -
  assume "2 \<le> length a"
  then obtain x y r where a: "a = x # y # r" by (cases a; cases "tl a") auto
  have "unat (push_bit 32 (ucast y :: u64)) = unat y * 2 ^ 32"
    using limb_less [of y] by (simp add: push_bit_eq_mult unat_word_ariths)
  moreover have "ucast x OR push_bit 32 (ucast y) = ucast x + push_bit 32 (ucast y :: u64)"
    by (rule disjunctive_add [symmetric]) (auto simp: bit_push_bit_iff bit_ucast_iff dest: bit_imp_le_length)
  moreover have l: "unat x + unat y * 4294967296 < 18446744073709551616" using limb_less [of x] limb_less [of y] by linarith
  ultimately have "unat (GetLow64 a) = unat x + unat y * 2 ^ 32" by (simp add: a GetLow64_def unat_word_ariths)
  moreover note l
  moreover have "base_val a = unat x + unat y * 2 ^ 32 + 2 ^ 64 * base_val r" by (simp add: a)
  ultimately show ?thesis by simp
qed

text \<open>The number of bytes, and the mantissa and exponent that \<open>GetCompact\<close> computes.\<close>

definition byte_len :: "nat \<Rightarrow> nat \<Rightarrow> bool" where
  "byte_len v n \<longleftrightarrow> v < 256 ^ n \<and> (v = 0 \<longrightarrow> n = 0) \<and> (v \<noteq> 0 \<longrightarrow> 0 < n \<and> 256 ^ (n - 1) \<le> v)"

lemma pow256: "(256 :: nat) ^ n = 2 ^ (8 * n)"
  by (simp add: power_mult)

lemma has_bits_bytes: "has_bits v b \<Longrightarrow> byte_len v ((b + 7) div 8)"
proof (cases "v = 0")
  case False
  assume "has_bits v b"
  with False have b: "0 < b" "2 ^ (b - 1) \<le> v" "v < 2 ^ b" by (simp_all add: has_bits_def)
  let ?n = "(b + 7) div 8"
  have n: "b \<le> 8 * ?n" "8 * (?n - 1) \<le> b - 1" "0 < ?n" using b(1) by linarith+
  have "(2 :: nat) ^ b \<le> 2 ^ (8 * ?n)" "(2 :: nat) ^ (8 * (?n - 1)) \<le> 2 ^ (b - 1)"
    using n by (auto intro: power_increasing)
  then show ?thesis using b n False unfolding byte_len_def pow256 by linarith
qed (simp add: has_bits_def byte_len_def)

definition compact_mantissa :: "nat \<Rightarrow> nat \<Rightarrow> nat" where
  "compact_mantissa v n = (if n \<le> 3 then v * 256 ^ (3 - n) else v div 256 ^ (n - 3))"

definition compact_parts :: "nat \<Rightarrow> nat \<Rightarrow> nat \<times> nat" where
  "compact_parts v n =
     (let m = compact_mantissa v n in if 2 ^ 23 \<le> m then (m div 256, n + 1) else (m, n))"

lemma compact_mantissa_less:
  assumes "byte_len v n"
  shows "compact_mantissa v n < 2 ^ 24"
proof (cases "n \<le> 3")
  case True
  have "v * 256 ^ (3 - n) < 256 ^ n * 256 ^ (3 - n)" using assms by (simp add: byte_len_def)
  also have "\<dots> = 256 ^ 3" using True by (simp add: power_add [symmetric])
  finally show ?thesis using True by (simp add: compact_mantissa_def)
next
  case False
  then have "(256 :: nat) ^ n = 256 ^ 3 * 256 ^ (n - 3)" by (simp only: power_add [symmetric]) simp
  then have "v < 256 ^ 3 * 256 ^ (n - 3)" using assms by (simp add: byte_len_def)
  with False show ?thesis by (simp add: compact_mantissa_def less_mult_imp_div_less)
qed

lemma limb_sign: "(w :: u32) AND 0x00800000 \<noteq> 0 \<longleftrightarrow> odd (unat w div 2 ^ 23)"
proof -
  have "w AND 0x00800000 \<noteq> 0 \<longleftrightarrow> bit w 23" using and_exp_eq_0_iff_not_bit [of w 23] by simp
  also have "\<dots> \<longleftrightarrow> bit (unat w) 23" by (simp add: bit_unsigned_iff)
  finally show ?thesis by (simp add: bit_iff_odd)
qed

lemma limb_23: "unat (w :: u32) < 2 ^ 24 \<Longrightarrow> w AND 0x00800000 \<noteq> 0 \<longleftrightarrow> 2 ^ 23 \<le> unat w"
  using limb_sign [of w] odd_top_bit [of "unat w" 23] by simp

lemma and_not_eq_0: "w AND NOT m = 0 \<longleftrightarrow> w AND m = (w :: u32)"
  by (auto simp: bit_eq_iff bit_and_iff bit_not_iff bit_imp_le_length)

lemma limb_low:
  "unat ((w :: u32) AND 0x007fffff) = unat w mod 2 ^ 23" "w AND NOT 0x007fffff = 0 \<longleftrightarrow> unat w < 2 ^ 23"
proof -
  have m: "(0x007fffff :: u32) = mask 23" by (simp add: mask_eq_exp_minus_1)
  then have t: "w AND 0x007fffff = take_bit 23 w" by (simp only: take_bit_eq_mask)
  then show l: "unat (w AND 0x007fffff) = unat w mod 2 ^ 23"
    by (simp only: unsigned_take_bit_eq) (simp add: take_bit_eq_mod)
  have "w AND NOT 0x007fffff = 0 \<longleftrightarrow> w AND 0x007fffff = w"
    by (rule and_not_eq_0)
  also have "\<dots> \<longleftrightarrow> unat w mod 2 ^ 23 = unat w" using l by (metis word_unat_eq_iff)
  also have "\<dots> \<longleftrightarrow> unat w < 2 ^ 23" by (simp add: mod_eq_self_iff_div_eq_0 div_eq_0_iff)
  finally show "w AND NOT 0x007fffff = 0 \<longleftrightarrow> unat w < 2 ^ 23" .
qed

lemma compact_word:
  assumes "unat (w :: u32) < 2 ^ 24" "k < 256"
  shows "unat (w OR push_bit 24 (word_of_nat k)) = unat w + 2 ^ 24 * k"
proof -
  have "\<not> bit w i \<or> \<not> bit (push_bit 24 (word_of_nat k) :: u32) i" for i
  proof (cases "i < 24")
    case False
    then have "unat w < 2 ^ i" using assms(1) power_increasing [of 24 i "2 :: nat"] by simp
    then have "\<not> bit (unat w) i" by (simp add: bit_iff_odd)
    then show ?thesis by (auto simp: bit_unsigned_iff)
  qed (simp add: bit_push_bit_iff)
  then have "w OR push_bit 24 (word_of_nat k) = w + push_bit 24 (word_of_nat k)" by (intro disjunctive_add [symmetric])
  moreover have "unat (push_bit 24 (word_of_nat k) :: u32) = 2 ^ 24 * k"
    using assms(2) by (simp add: push_bit_eq_mult unat_word_ariths unat_of_nat)
  ultimately show ?thesis using assms by (simp add: unat_word_ariths)
qed

lemma GetCompact_mantissa:
  assumes "length a = 8" "byte_len (base_val a) n" "n \<le> 32"
  shows "unat (if n \<le> 3 then ucast (push_bit (8 * (3 - n)) (GetLow64 a))
    else ucast (GetLow64 (base_shr a (word_of_nat (8 * (n - 3))))) :: u32) = compact_mantissa (base_val a) n"
proof (cases "n \<le> 3")
  case True
  have m: "base_val a * 2 ^ (8 * (3 - n)) < 2 ^ 24"
    using compact_mantissa_less [OF assms(2)] True by (simp add: compact_mantissa_def pow256)
  have "base_val a * 1 \<le> base_val a * 2 ^ (8 * (3 - n))" by (intro mult_le_mono2) simp
  with m have v: "base_val a < 2 ^ 24" by linarith
  have "unat (push_bit (8 * (3 - n)) (GetLow64 a)) = base_val a * 2 ^ (8 * (3 - n)) mod 2 ^ 64"
    using v assms(1) by (simp only: unsigned_push_bit_eq) (simp add: push_bit_eq_mult take_bit_eq_mod GetLow64_val)
  with m True show ?thesis by (simp add: unsigned_ucast_eq take_bit_eq_mod compact_mantissa_def pow256)
next
  case False
  then have "base_val a div 2 ^ (8 * (n - 3)) < 2 ^ 24"
    using compact_mantissa_less [OF assms(2)] by (simp add: compact_mantissa_def pow256)
  moreover have "unat (word_of_nat (8 * (n - 3)) :: u32) = 8 * (n - 3)" using assms(3) by (simp add: unat_of_nat del: of_nat_mult)
  ultimately have "unat (GetLow64 (base_shr a (word_of_nat (8 * (n - 3))))) = base_val a div 2 ^ (8 * (n - 3))"
    "base_val a div 2 ^ (8 * (n - 3)) < 2 ^ 24"
    using assms(1) by (simp_all add: GetLow64_val)
  with False show ?thesis by (simp add: unsigned_ucast_eq take_bit_eq_mod compact_mantissa_def pow256)
qed

lemma GetCompact_val:
  assumes "length a = 8" "compact_parts (base_val a) ((base_bits a + 7) div 8) = (m, k)"
  shows "\<exists>c. GetCompact a False = Some c \<and> unat c = m + 2 ^ 24 * k" "m < 2 ^ 23" "k \<le> 33"
proof -
  let ?n = "(base_bits a + 7) div 8" and ?v = "base_val a"
  have n: "byte_len ?v ?n" "?n \<le> 32" using has_bits_bytes base_bits_val [of a] assms(1) by auto
  obtain w :: u32 where w: "(if ?n \<le> 3 then ucast (push_bit (8 * (3 - ?n)) (GetLow64 a))
    else ucast (GetLow64 (base_shr a (word_of_nat (8 * (?n - 3)))))) = w" by blast
  have u: "unat w = compact_mantissa ?v ?n" "unat w < 2 ^ 24"
    using GetCompact_mantissa [OF assms(1) n] compact_mantissa_less [OF n(1)] w by simp_all
  show k: "m < 2 ^ 23" "k \<le> 33"
    using assms(2) u n(2) by (auto simp: compact_parts_def Let_def less_mult_imp_div_less split: if_splits)
  show "\<exists>c. GetCompact a False = Some c \<and> unat c = m + 2 ^ 24 * k"
  proof (cases "2 ^ 23 \<le> unat w")
    case True
    then have "m = unat (drop_bit 8 w)" "k = ?n + 1"
      using assms(2) u(1) by (simp_all add: compact_parts_def Let_def unat_drop_bit_div)
    with True k u compact_word [of "drop_bit 8 w" k] limb_23 [of w] limb_low(2) [of "drop_bit 8 w"] w show ?thesis
      by (simp add: GetCompact_def Let_def)
  next
    case False
    then have "m = unat w" "k = ?n" using assms(2) u(1) by (auto simp: compact_parts_def Let_def)
    with False k u compact_word [of w k] limb_23 [of w] limb_low(2) [of w] w show ?thesis
      by (simp add: GetCompact_def Let_def)
  qed
qed

lemma base_uint_of_val: "base_val (base_uint_of 8 (ucast (w :: u32))) = unat w" "length (base_uint_of 8 b) = 8"
proof -
  have "ucast (ucast w :: u64) = w" "drop_bit 32 (ucast w :: u64) = 0"
    by (simp_all add: bit_eq_iff bit_ucast_iff bit_drop_bit_eq)
      (auto dest: bit_imp_le_length)
  then show "base_val (base_uint_of 8 (ucast w)) = unat w" by (simp add: base_uint_of_def base_val_append)
qed (simp add: base_uint_of_def)

text \<open>\<open>SetCompact\<close> on a number in normal form: no sign bit, and a mantissa that fits.\<close>

lemma SetCompact_val:
  assumes "unat c = m + 2 ^ 24 * k" "m < 2 ^ 23" "m * 256 ^ (k - 3) < 2 ^ 256" "k < 256"
    "m \<noteq> 0 \<longrightarrow> k \<le> 32 \<or> k = 33 \<and> m \<le> 0xffff"
  shows "\<exists>y. SetCompact c = (y, False, False) \<and> length y = 8 \<and>
    base_val y = (if k \<le> 3 then m div 256 ^ (3 - k) else m * 256 ^ (k - 3))"
proof -
  have "unat c = m + 2 ^ 23 * (2 * k)" using assms(1) by simp
  then have mods: "unat c mod 2 ^ 23 = m" "unat c div 2 ^ 23 = 2 * k"
    using assms(2) by (simp_all only: mod_mult_self2 div_mult_self2 power_eq_0_iff) simp_all
  then have c: "unat (drop_bit 24 c) = k" "unat (c AND 0x007fffff) = m" "c AND 0x00800000 = 0"
    using assms(1,2) limb_sign [of c] by (simp_all add: unat_drop_bit_div limb_low)
  obtain w where w: "(if k \<le> 3 then drop_bit (8 * (3 - k)) (c AND 0x007fffff) else c AND 0x007fffff) = w" by blast
  have u: "unat w = (if k \<le> 3 then m div 256 ^ (3 - k) else m)"
    unfolding w [symmetric] using c(2) by (simp add: unat_drop_bit_div pow256 del: drop_bit_and)
  obtain y where y: "(if k \<le> 3 then base_uint_of 8 (ucast w)
      else base_shl (base_uint_of 8 (ucast w)) (word_of_nat (8 * (k - 3)))) = y" by blast
  have "unat (word_of_nat (8 * (k - 3)) :: u32) = 8 * (k - 3)" using assms(4) by (simp add: unat_of_nat del: of_nat_mult)
  then have "length y = 8" "base_val y = (if k \<le> 3 then m div 256 ^ (3 - k) else m * 256 ^ (k - 3))"
    using y u assms(3) by (auto simp: base_uint_of_val pow256)
  moreover have "SetCompact c = (y, False, False)"
    using c w y u assms(5) unfolding SetCompact_def Let_def
    by (auto simp: word_less_nat_alt unat_eq_0 split: if_splits)
  ultimately show ?thesis by blast
qed

text \<open>The number that the compact form stands for: the low \<open>k\<close> bytes are dropped.\<close>

lemma compact_mantissa_Suc: "compact_mantissa v (Suc n) = compact_mantissa v n div 256"
proof -
  consider (small) "n \<le> 2" | (three) "n = 3" | (large) "n > 3" by linarith
  then show ?thesis
  proof cases
    case small
    then have "3 - n = Suc (3 - Suc n)" by simp
    then have "v * 256 ^ (3 - n) div 256 = v * 256 ^ (3 - Suc n)" by (simp only: power_Suc mult.left_commute)
    with small show ?thesis by (simp add: compact_mantissa_def)
  next
    case large
    then have "Suc n - 3 = Suc (n - 3)" by simp
    with large show ?thesis by (simp add: compact_mantissa_def div_mult2_eq [symmetric] mult.commute)
  qed (simp add: compact_mantissa_def)
qed

lemma compact_parts_cases:
  assumes "byte_len v n" "n \<le> 32" "compact_parts v n = (m, k)"
  shows "m = compact_mantissa v k" "k \<le> 32 \<or> k = 33 \<and> m \<le> 0xffff" "v \<noteq> 0 \<longrightarrow> 3 < k \<longrightarrow> 2 ^ 15 \<le> m" "v < 256 ^ k"
proof -
  let ?M = "compact_mantissa v n"
  have M: "?M < 2 ^ 24" by (rule compact_mantissa_less [OF assms(1)])
  have parts: "m = compact_mantissa v k \<and> (k \<le> 32 \<or> k = 33 \<and> m \<le> 0xffff) \<and> (v \<noteq> 0 \<longrightarrow> 3 < k \<longrightarrow> 2 ^ 15 \<le> m) \<and> n \<le> k"
  proof (cases "2 ^ 23 \<le> ?M")
    case True
    then have mk: "m = ?M div 256" "k = Suc n" using assms(3) by (simp_all add: compact_parts_def Let_def)
    moreover have "?M div 256 < 2 ^ 16" using M by (simp add: less_mult_imp_div_less)
    moreover have "2 ^ 15 \<le> ?M div 256" using div_le_mono [OF True, of 256] by simp
    ultimately show ?thesis using assms(2) compact_mantissa_Suc [of v n] by auto
  next
    case False
    then have mk: "m = ?M" "k = n" using assms(3) by (auto simp: compact_parts_def Let_def)
    have "2 ^ 15 \<le> ?M" if "v \<noteq> 0" "3 < n"
    proof -
      have "n - 1 = 2 + (n - 3)" using that by simp
      then have "256 ^ 2 * 256 ^ (n - 3) \<le> v" using assms(1) that unfolding byte_len_def by (metis power_add)
      from div_le_mono [OF this, of "256 ^ (n - 3)"] that show ?thesis by (simp add: compact_mantissa_def)
    qed
    with mk assms(2) show ?thesis by simp
  qed
  then show "m = compact_mantissa v k" "k \<le> 32 \<or> k = 33 \<and> m \<le> 0xffff" "v \<noteq> 0 \<longrightarrow> 3 < k \<longrightarrow> 2 ^ 15 \<le> m" by blast+
  have "v < 256 ^ n" using assms(1) by (simp add: byte_len_def)
  also have "\<dots> \<le> 256 ^ k" using parts by (intro power_increasing) auto
  finally show "v < 256 ^ k" .
qed

lemma compact_parts_val:
  assumes "byte_len v n" "n \<le> 32" "compact_parts v n = (m, k)"
  defines "y \<equiv> (if k \<le> 3 then m div 256 ^ (3 - k) else m * 256 ^ (k - 3))"
  shows "y = v div 256 ^ (k - 3) * 256 ^ (k - 3)" "2 ^ 15 * (v - y) \<le> v"
proof -
  let ?p = "256 ^ (k - 3) :: nat"
  note c = compact_parts_cases [OF assms(1-3)]
  show y: "y = v div ?p * ?p" unfolding y_def c(1) by (simp add: compact_mantissa_def)
  show "2 ^ 15 * (v - y) \<le> v"
  proof (cases "k \<le> 3 \<or> v = 0")
    case False
    then have "m = v div ?p" using c(1) by (simp add: compact_mantissa_def)
    then have "2 ^ 15 * ?p \<le> v div ?p * ?p" using c(3) False by (intro mult_le_mono1) simp
    then have "2 ^ 15 * ?p \<le> v" using div_times_less_eq_dividend [of v ?p] by linarith
    moreover have "v - y = v mod ?p" unfolding y by (simp add: minus_div_mult_eq_mod)
    moreover have "2 ^ 15 * (v mod ?p) \<le> 2 ^ 15 * ?p" by (intro mult_le_mono2 less_imp_le) simp
    ultimately show ?thesis by (metis le_trans)
  qed (auto simp: y)
qed

text \<open>The compact form of the truncated number is the same: the normal form is stable.\<close>

lemma byte_len_unique: "byte_len v n \<Longrightarrow> byte_len v n' \<Longrightarrow> n = n'"
proof -
  have le: "n \<le> n'" if "byte_len v n" "byte_len v n'" for n n'
  proof (rule ccontr)
    assume "\<not> n \<le> n'"
    then have "(256 :: nat) ^ n' \<le> 256 ^ (n - 1)" by (intro power_increasing) auto
    moreover have "v \<noteq> 0" "v < 256 ^ n'" "256 ^ (n - 1) \<le> v" using that \<open>\<not> n \<le> n'\<close> by (auto simp: byte_len_def)
    ultimately show False by linarith
  qed
  show "byte_len v n \<Longrightarrow> byte_len v n' \<Longrightarrow> n = n'" using le [of n n'] le [of n' n] by simp
qed

lemma byte_len_truncate:
  assumes "byte_len v n" "j \<le> n - 1"
  shows "byte_len (v div 256 ^ j * 256 ^ j) n"
proof (cases "v = 0")
  case False
  have e: "256 ^ (n - 1) = 256 ^ (n - 1 - j) * (256 :: nat) ^ j" using assms(2) by (simp flip: power_add)
  have "256 ^ (n - 1) div 256 ^ j * 256 ^ j \<le> v div 256 ^ j * 256 ^ j"
    using assms(1) False by (intro mult_le_mono1 div_le_mono) (simp add: byte_len_def)
  then have "256 ^ (n - 1) \<le> v div 256 ^ j * 256 ^ j" unfolding e by simp
  moreover have "v div 256 ^ j * 256 ^ j < 256 ^ n"
    using assms(1) by (intro le_less_trans [OF div_times_less_eq_dividend]) (simp add: byte_len_def)
  moreover from calculation have "v div 256 ^ j * 256 ^ j \<noteq> 0" by (intro notI) simp
  ultimately show ?thesis using assms(1) False unfolding byte_len_def by blast
qed (use assms in simp)

lemma compact_mantissa_large: "3 \<le> n \<Longrightarrow> compact_mantissa v n = v div 256 ^ (n - 3)"
  by (simp add: compact_mantissa_def)

lemma compact_parts_stable:
  assumes "byte_len v n" "compact_parts v n = (m, k)"
  defines "y \<equiv> v div 256 ^ (k - 3) * 256 ^ (k - 3)"
  shows "byte_len y n" "compact_parts y n = (m, k)"
proof -
  have k: "k = n \<or> k = n + 1" using assms(2) by (auto simp: compact_parts_def Let_def split: if_splits)
  then show "byte_len y n" unfolding y_def by (intro byte_len_truncate [OF assms(1)]) auto
  show "compact_parts y n = (m, k)"
  proof (cases "k \<le> 3")
    case True
    then show ?thesis using assms(2) by (simp add: y_def)
  next
    case large: False
    show ?thesis
    proof (cases "k = n")
      case True
      then have "compact_mantissa y n = compact_mantissa v n" using large by (simp add: y_def compact_mantissa_large)
      then show ?thesis using assms(2) by (simp add: compact_parts_def)
    next
      case False
      with k have k: "k = n + 1" by simp
      let ?M = "compact_mantissa v n"
      have "2 ^ 23 \<le> ?M" "m = ?M div 256" using assms(2) k by (auto simp: compact_parts_def Let_def split: if_splits)
      moreover have "k - 3 = Suc (n - 3)" using k large by simp
      then have "y = ?M div 256 * 256 * 256 ^ (n - 3)"
        using k large by (simp add: y_def compact_mantissa_large div_mult2_eq [symmetric] mult.commute mult.left_commute)
      then have "compact_mantissa y n = ?M div 256 * 256" using k large by (simp add: compact_mantissa_large)
      moreover have "2 ^ 15 \<le> ?M div 256" using div_le_mono [OF \<open>2 ^ 23 \<le> ?M\<close>, of 256] by simp
      ultimately show ?thesis using k by (simp add: compact_parts_def)
    qed
  qed
qed

lemma base_val_eq_0: "base_val a = 0 \<longleftrightarrow> list_all (\<lambda>p. p = 0) a"
  by (induction a) (auto simp: unsigned_eq_0_iff)

lemma EqualTo_zero: "length a = 8 \<Longrightarrow> EqualTo a 0 \<longleftrightarrow> base_val a = 0"
  by (auto simp: EqualTo_def base_val_eq_0 length_Suc_conv eval_nat_numeral)

text \<open>A number read from the compact form is never the largest one: it is small or even.\<close>

lemma SetCompact_less: "SetCompact c = (y, n, v) \<Longrightarrow> length y = 8 \<and> base_val y + 1 < 2 ^ 256"
proof -
  define s where "s = unat (drop_bit 24 c)"
  assume c: "SetCompact c = (y, n, v)"
  show ?thesis
  proof (cases "s \<le> 3")
    case True
    with c obtain w :: u32 where "y = base_uint_of 8 (ucast w)" by (auto simp: SetCompact_def Let_def s_def)
    then show ?thesis using base_uint_of_val(1) [of w] limb_less [of w] by (simp add: base_uint_of_val(2) del: unat_word_less)
  next
    case False
    with c obtain w :: u32 where y: "y = base_shl (base_uint_of 8 (ucast w)) (word_of_nat (8 * (s - 3)))"
      by (auto simp: SetCompact_def Let_def s_def)
    define k where "k = unat (word_of_nat (8 * (s - 3)) :: u32)"
    have "s < 256" using unat_drop_bit_div [of 24 c] limb_less [of c] by (simp add: s_def less_mult_imp_div_less del: unat_word_less)
    then have "k = 8 * (s - 3)" unfolding k_def unsigned_of_nat by (simp only: of_nat_id, intro take_bit_nat_eq_self) simp
    then have "0 < k" using False by simp
    have "even (base_val y)" unfolding y base_shl_val k_def [symmetric] using \<open>0 < k\<close> by (simp add: even_mod_2_iff dvd_mod base_uint_of_val)
    moreover have "base_val y < 2 ^ 256" using base_val_less [of y] by (simp add: y base_uint_of_val)
    ultimately have "base_val y \<noteq> 2 ^ 256 - 1" by auto
    with \<open>base_val y < 2 ^ 256\<close> show ?thesis by (simp add: y base_uint_of_val)
  qed
qed

lemma compact_read_back:
  assumes "length x = 8"
  shows "\<exists>c y. GetCompact x False = Some c \<and> SetCompact c = (y, False, False) \<and> length y = 8 \<and>
    base_val y \<le> base_val x \<and> 2 ^ 15 * (base_val x - base_val y) \<le> base_val x \<and> GetCompact y False = Some c"
proof -
  let ?v = "base_val x" and ?n = "(base_bits x + 7) div 8"
  obtain m k where mk: "compact_parts ?v ?n = (m, k)" by (cases "compact_parts ?v ?n")
  have n: "byte_len ?v ?n" "?n \<le> 32" using has_bits_bytes base_bits_val [of x] assms by auto
  note g = GetCompact_val [OF assms mk] and c = compact_parts_cases [OF n mk] and p = compact_parts_val [OF n mk]
  obtain w where w: "GetCompact x False = Some w" "unat w = m + 2 ^ 24 * k" using g(1) by blast
  have "m * 256 ^ (k - 3) < 2 ^ 256"
  proof (cases "k \<le> 3")
    case False
    then have "m * 256 ^ (k - 3) \<le> ?v" unfolding c(1) by (simp add: compact_mantissa_large)
    with base_val_less [of x] assms show ?thesis by simp
  qed (use g(2) in simp)
  then obtain y where y: "SetCompact w = (y, False, False)" "length y = 8"
      "base_val y = ?v div 256 ^ (k - 3) * 256 ^ (k - 3)"
    using SetCompact_val [OF w(2) g(2)] g(3) c(2) p(1) by auto
  have "(base_bits y + 7) div 8 = ?n"
    using byte_len_unique compact_parts_stable(1) [OF n(1) mk] has_bits_bytes [OF base_bits_val(1) [of y]] y(3) by metis
  then obtain w' where "GetCompact y False = Some w'" "unat w' = m + 2 ^ 24 * k"
    using GetCompact_val(1) [OF y(2), of m k] compact_parts_stable(2) [OF n(1) mk] y(3) by auto
  then have "GetCompact y False = Some w" using w(2) by (simp add: word_unat_eq_iff)
  moreover have "2 ^ 15 * (?v - base_val y) \<le> ?v" "base_val y \<le> ?v" using p y(3) by simp_all
  ultimately show ?thesis using w(1) y by blast
qed

text \<open>C40. Targets in compact form: \<open>GetCompact\<close> never fails its assertions; reading its result back
  raises neither flag and gives the number with its low bytes cleared, below the number by at most
  one part in \<open>2 ^ 15\<close>; and the number read back has the same compact form.\<close>

theorem compact_roundtrip:
  assumes "length x = 8"
  shows "\<exists>c y. GetCompact x False = Some c \<and> SetCompact c = (y, False, False) \<and> length y = 8 \<and>
    base_val y \<le> base_val x \<and> 2 ^ 15 * (base_val x - base_val y) \<le> base_val x \<and> GetCompact y False = Some c"
  using assms by (rule compact_read_back)

theorem compact_roundtrip_witness:
  "\<exists>c y. GetCompact [0x12345678, 0xff, 0, 0, 0, 0, 0, 0] False = Some c \<and> SetCompact c = (y, False, False) \<and>
     base_val y \<le> 0xff12345678 \<and> 2 ^ 15 * (0xff12345678 - base_val y) \<le> 0xff12345678"
  using compact_roundtrip [of "[0x12345678, 0xff, 0, 0, 0, 0, 0, 0]"] by auto

end
