(* ===== verification/Block_Index.thy ===== *)
theory Block_Index
  imports Block Arith_Uint256
begin

text \<open>
  The index of block headers: \<open>src/src/block_index.h\<close>, \<open>block_index.cpp\<close> and \<open>block_index_store.h\<close>.
  Index entries are objects on a heap that point to their predecessor and, through the skip
  list, to an earlier ancestor.  Every operation is a function on the heap, the set of dirty entries
  and the map from block hashes to entries.  The members of type \<open>int\<close> and \<open>int32_t\<close> (heights, sequence
  numbers, soft rejection counters, file numbers) are integers without a bound: a height is the number of a
  block's ancestors, and where the last 32-bit height matters the theorems assume it.
\<close>

subsection \<open>Validity and status\<close>

datatype BlockValidity =
    VALIDITY_UNKNOWN | VALIDITY_HEADER | VALIDITY_TREE | VALIDITY_TRANSACTIONS | VALIDITY_CHAIN | VALIDITY_SCRIPTS

fun validity_value :: "BlockValidity \<Rightarrow> u32" where
  "validity_value VALIDITY_UNKNOWN = 0"
| "validity_value VALIDITY_HEADER = 1"
| "validity_value VALIDITY_TREE = 2"
| "validity_value VALIDITY_TRANSACTIONS = 3"
| "validity_value VALIDITY_CHAIN = 4"
| "validity_value VALIDITY_SCRIPTS = 5"

type_synonym BlockStatus = u32

abbreviation VALIDITY_MASK :: BlockStatus where "VALIDITY_MASK \<equiv> 0x07"
abbreviation HAS_DATA_FLAG :: BlockStatus where "HAS_DATA_FLAG \<equiv> 0x08"
abbreviation HAS_UNDO_FLAG :: BlockStatus where "HAS_UNDO_FLAG \<equiv> 0x10"
abbreviation FAILED_FLAG :: BlockStatus where "FAILED_FLAG \<equiv> 0x20"
abbreviation FAILED_PARENT_FLAG :: BlockStatus where "FAILED_PARENT_FLAG \<equiv> 0x40"
abbreviation HAS_DISK_BLOCK_META_DATA_FLAG :: BlockStatus where "HAS_DISK_BLOCK_META_DATA_FLAG \<equiv> 0x80"
abbreviation HAS_SOFT_REJ_FLAG :: BlockStatus where "HAS_SOFT_REJ_FLAG \<equiv> 0x100"
abbreviation INVALID_MASK :: BlockStatus where "INVALID_MASK \<equiv> FAILED_FLAG OR FAILED_PARENT_FLAG"

definition getValidity :: "BlockStatus \<Rightarrow> u32" where
  "getValidity status = status AND VALIDITY_MASK"

definition withValidity :: "BlockValidity \<Rightarrow> BlockStatus \<Rightarrow> BlockStatus" where
  "withValidity validity status = (status AND NOT VALIDITY_MASK) OR validity_value validity"

definition has_flag :: "BlockStatus \<Rightarrow> BlockStatus \<Rightarrow> bool" where
  "has_flag flag status \<longleftrightarrow> status AND flag \<noteq> 0"

definition with_flag :: "BlockStatus \<Rightarrow> bool \<Rightarrow> BlockStatus \<Rightarrow> BlockStatus" where
  "with_flag flag b status = (status AND NOT flag) OR (if b then flag else 0)"

definition isInvalid :: "BlockStatus \<Rightarrow> bool" where
  "isInvalid status \<longleftrightarrow> status AND INVALID_MASK \<noteq> 0"

definition isValid :: "BlockValidity \<Rightarrow> BlockStatus \<Rightarrow> bool" where
  "isValid nUpTo status \<longleftrightarrow> (if isInvalid status then False else getValidity status \<ge> validity_value nUpTo)"

definition withClearedFailureFlags :: "BlockStatus \<Rightarrow> BlockStatus" where
  "withClearedFailureFlags status = status AND NOT INVALID_MASK"

subsection \<open>Index entries\<close>

type_synonym block_ref = nat

text \<open>Points of the steady clock count its ticks, a signed 64-bit integer.\<close>

abbreviation time_min :: int where "time_min \<equiv> - (2 ^ 63)"
abbreviation time_max :: int where "time_max \<equiv> 2 ^ 63 - 1"

record CDiskBlockMetaData =
  diskDataHash :: uint256
  diskDataSize :: u64

definition null_metadata :: CDiskBlockMetaData where
  "null_metadata = \<lparr>diskDataHash = null_hash, diskDataSize = 0\<rparr>"

record CBlockIndex =
  phashBlock :: "uint256 option"
  pprev :: "block_ref option"
  pskip :: "block_ref option"
  nHeight :: int
  nFile :: int
  nDataPos :: u32
  nUndoPos :: u32
  nChainWork :: base_uint
  nTx :: u32
  nChainTx :: u32
  nStatus :: BlockStatus
  index_nVersion :: u32
  index_hashMerkleRoot :: uint256
  index_nTime :: u32
  index_nBits :: u32
  index_nNonce :: u32
  nSequenceId :: int
  nTimeReceived :: u64
  nTimeMax :: u32
  mDiskBlockMetaData :: CDiskBlockMetaData
  nSoftRejected :: int
  mValidationCompletionTime :: int

type_synonym index_heap = "block_ref \<Rightarrow> CBlockIndex"

definition CBlockIndex_default :: CBlockIndex where
  "CBlockIndex_default =
     \<lparr>phashBlock = None, pprev = None, pskip = None, nHeight = 0, nFile = 0, nDataPos = 0, nUndoPos = 0,
      nChainWork = base_uint_of 8 0, nTx = 0, nChainTx = 0, nStatus = 0, index_nVersion = 0,
      index_hashMerkleRoot = null_hash, index_nTime = 0, index_nBits = 0, index_nNonce = 0, nSequenceId = 0,
      nTimeReceived = 0, nTimeMax = 0, mDiskBlockMetaData = null_metadata, nSoftRejected = - 1,
      mValidationCompletionTime = time_max\<rparr>"

definition CBlockIndex_of_header :: "CBlockHeader \<Rightarrow> CBlockIndex" where
  "CBlockIndex_of_header block = CBlockIndex_default
     \<lparr>index_nVersion := nBlockVersion block, index_hashMerkleRoot := hashMerkleRoot block,
      index_nTime := nTime block, index_nBits := nBits block, index_nNonce := nNonce block,
      nTimeReceived := ucast (nTime block)\<rparr>"

definition index_header :: "index_heap \<Rightarrow> CBlockIndex \<Rightarrow> CBlockHeader" where
  "index_header hp ix =
     \<lparr>nBlockVersion = index_nVersion ix,
      hashPrevBlock = (case pprev ix of None \<Rightarrow> null_hash | Some p \<Rightarrow> the (phashBlock (hp p))),
      hashMerkleRoot = index_hashMerkleRoot ix, nTime = index_nTime ix, nBits = index_nBits ix,
      nNonce = index_nNonce ix\<rparr>"

subsection \<open>Ancestors\<close>

definition InvertLowestOne :: "int \<Rightarrow> int" where
  "InvertLowestOne n = n AND (n - 1)"

definition GetSkipHeight :: "int \<Rightarrow> int" where
  "GetSkipHeight height =
     (if height < 2 then 0
      else if height AND 1 \<noteq> 0 then InvertLowestOne (InvertLowestOne (height - 1)) + 1
      else InvertLowestOne height)"

lemma InvertLowestOne_bounds: "0 \<le> n \<Longrightarrow> 0 \<le> InvertLowestOne n" "0 < n \<Longrightarrow> InvertLowestOne n < n"
  "0 \<le> n \<Longrightarrow> InvertLowestOne n \<le> n"
proof -
  show *: "0 < n \<Longrightarrow> InvertLowestOne n < n"
    unfolding InvertLowestOne_def using AND_upper2 [of "n - 1" n] by (simp add: ac_simps)
  show "0 \<le> n \<Longrightarrow> InvertLowestOne n \<le> n" using * by (cases "n = 0") (auto simp: InvertLowestOne_def)
qed (simp add: InvertLowestOne_def)

lemma GetSkipHeight_bounds: "0 \<le> GetSkipHeight h" "0 < h \<Longrightarrow> GetSkipHeight h < h"
proof -
  show "0 \<le> GetSkipHeight h"
    using InvertLowestOne_bounds(1) [of "InvertLowestOne (h - 1)"] InvertLowestOne_bounds(1) [of "h - 1"]
      InvertLowestOne_bounds(1) [of h]
    by (simp add: GetSkipHeight_def)
  assume "0 < h"
  then show "GetSkipHeight h < h"
    using InvertLowestOne_bounds(3) [of "InvertLowestOne (h - 1)"] InvertLowestOne_bounds(1,2) [of "h - 1"]
      InvertLowestOne_bounds(2) [of h]
    by (auto simp: GetSkipHeight_def)
qed

function ancestor_walk :: "index_heap \<Rightarrow> nat \<Rightarrow> block_ref \<Rightarrow> int \<Rightarrow> cxx_exn + block_ref" where
  "ancestor_walk hp height pindexWalk heightWalk =
     (if heightWalk > int height then
        let heightSkip = GetSkipHeight heightWalk;
            heightSkipPrev = GetSkipHeight (heightWalk - 1)
        in if pskip (hp pindexWalk) \<noteq> None \<and>
              (heightSkip = int height \<or>
               heightSkip > int height \<and> \<not> (heightSkipPrev < heightSkip - 2 \<and> heightSkipPrev \<ge> int height))
           then ancestor_walk hp height (the (pskip (hp pindexWalk))) heightSkip
           else (case pprev (hp pindexWalk) of None \<Rightarrow> Inl assert_failure
                 | Some p \<Rightarrow> ancestor_walk hp height p (heightWalk - 1))
      else Inr pindexWalk)"
  by pat_completeness auto
termination
proof (relation "measure (\<lambda>(_, _, _, heightWalk). nat heightWalk)")
  fix height :: nat and heightWalk x :: int
  assume "int height < heightWalk" "x = GetSkipHeight heightWalk"
  then show "((hp, height, r, x), hp, height, q, heightWalk) \<in> measure (\<lambda>(_, _, _, heightWalk). nat heightWalk)"
    for hp r q
    using GetSkipHeight_bounds [of heightWalk] by simp
qed auto

declare ancestor_walk.simps [simp del]

definition GetAncestor :: "index_heap \<Rightarrow> block_ref \<Rightarrow> int \<Rightarrow> cxx_exn + block_ref option" where
  "GetAncestor hp this height =
     (if height > nHeight (hp this) \<or> height < 0 then Inr None
      else bindE (ancestor_walk hp (nat height) this (nHeight (hp this))) (\<lambda>p. Inr (Some p)))"

definition BuildSkipNL :: "index_heap \<Rightarrow> CBlockIndex \<Rightarrow> cxx_exn + CBlockIndex" where
  "BuildSkipNL hp ix =
     (case pprev ix of None \<Rightarrow> Inr ix
      | Some p \<Rightarrow> bindE (GetAncestor hp p (GetSkipHeight (nHeight ix))) (\<lambda>s. Inr (ix\<lparr>pskip := s\<rparr>)))"

text \<open>Walking back step by step with both entries at the same height.\<close>

function common_walk :: "index_heap \<Rightarrow> nat \<Rightarrow> block_ref option \<Rightarrow> block_ref option \<Rightarrow> (block_ref option \<times> block_ref option) option" where
  "common_walk hp fuel pa pb =
     (if pa \<noteq> pb \<and> pa \<noteq> None \<and> pb \<noteq> None then
        case fuel of 0 \<Rightarrow> None
        | Suc fuel \<Rightarrow> common_walk hp fuel (pprev (hp (the pa))) (pprev (hp (the pb)))
      else Some (pa, pb))"
  by pat_completeness auto
termination by (relation "measure (\<lambda>(_, fuel, _). fuel)") auto

declare common_walk.simps [simp del]

definition LastCommonAncestor :: "index_heap \<Rightarrow> nat \<Rightarrow> block_ref \<Rightarrow> block_ref \<Rightarrow> (cxx_exn + block_ref option) option" where
  "LastCommonAncestor hp fuel pa pb =
     (let ha = nHeight (hp pa); hb = nHeight (hp pb)
      in case (if ha > hb then bindE (GetAncestor hp pa hb) (\<lambda>pa. Inr (pa, Some pb))
               else if hb > ha then bindE (GetAncestor hp pb ha) (\<lambda>pb. Inr (Some pa, pb))
               else Inr (Some pa, Some pb)) of
        Inl e \<Rightarrow> Some (Inl e)
      | Inr (pa, pb) \<Rightarrow>
          (case common_walk hp fuel pa pb of None \<Rightarrow> None
           | Some (pa, pb) \<Rightarrow> Some (if pa = pb then Inr pa else Inl assert_failure)))"

subsection \<open>Work and time\<close>

definition GetBlockProof :: "u32 \<Rightarrow> cxx_exn + base_uint" where
  "GetBlockProof bits =
     (let (bnTarget, fNegative, fOverflow) = SetCompact bits
      in if fNegative \<or> fOverflow \<or> EqualTo bnTarget 0 then Inr (base_uint_of 8 0)
         else (case base_div (base_not bnTarget) (base_add bnTarget (base_uint_of 8 1)) of
             None \<Rightarrow> Inl std_exception
           | Some q \<Rightarrow> Inr (base_add q (base_uint_of 8 1))))"

definition GetBlockProofEquivalentTime :: "CBlockIndex \<Rightarrow> CBlockIndex \<Rightarrow> CBlockIndex \<Rightarrow> i64 \<Rightarrow> cxx_exn + int" where
  "GetBlockProofEquivalentTime to from tip nPowTargetSpacing =
     (let (r, sign) = (if CompareTo (nChainWork to) (nChainWork from) > 0
                       then (base_sub (nChainWork to) (nChainWork from), 1)
                       else (base_sub (nChainWork from) (nChainWork to), - 1))
      in bindE (GetBlockProof (index_nBits tip)) (\<lambda>proof.
           case base_div (base_mul r (base_uint_of 8 nPowTargetSpacing)) proof of
             None \<Rightarrow> Inl std_exception
           | Some r \<Rightarrow> Inr (sign * (if base_bits r > 63 then 2 ^ 63 - 1 else int (unat (GetLow64 r))))))"

text \<open>The work of the parent, zero for a block without parent, and the work of the block itself.\<close>

definition SetChainWorkNL :: "index_heap \<Rightarrow> CBlockIndex \<Rightarrow> cxx_exn + CBlockIndex" where
  "SetChainWorkNL hp ix =
     bindE (GetBlockProof (index_nBits ix)) (\<lambda>proof.
       Inr (ix\<lparr>nChainWork := base_add (case pprev ix of None \<Rightarrow> base_uint_of 8 0 | Some p \<Rightarrow> nChainWork (hp p)) proof\<rparr>))"

definition GetBlockTime :: "CBlockIndex \<Rightarrow> int" where
  "GetBlockTime ix = int (unat (index_nTime ix))"

definition nMedianTimeSpan :: nat where "nMedianTimeSpan = 11"

fun block_times :: "index_heap \<Rightarrow> nat \<Rightarrow> block_ref option \<Rightarrow> int list" where
  "block_times hp (Suc i) (Some p) = GetBlockTime (hp p) # block_times hp i (pprev (hp p))"
| "block_times hp _ _ = []"

definition GetMedianTimePast :: "index_heap \<Rightarrow> block_ref \<Rightarrow> int" where
  "GetMedianTimePast hp this =
     (let times = block_times hp nMedianTimeSpan (Some this) in sort times ! (length times div 2))"

subsection \<open>Operations on entries\<close>

record block_index_state =
  heap :: index_heap
  mDirty :: "block_ref set"

type_synonym 'a index_state = "'a block_index_state_scheme"

definition set_index :: "block_ref \<Rightarrow> CBlockIndex \<Rightarrow> 'a index_state \<Rightarrow> 'a index_state" where
  "set_index r ix st = st\<lparr>heap := (heap st)(r := ix)\<rparr>"

definition modify_index :: "block_ref \<Rightarrow> (CBlockIndex \<Rightarrow> CBlockIndex) \<Rightarrow> 'a index_state \<Rightarrow> 'a index_state" where
  "modify_index r f st = set_index r (f (heap st r)) st"

definition notifyDirty :: "block_ref \<Rightarrow> 'a index_state \<Rightarrow> 'a index_state" where
  "notifyDirty r st = st\<lparr>mDirty := insert r (mDirty st)\<rparr>"

definition Extract :: "'a index_state \<Rightarrow> block_ref set \<times> 'a index_state" where
  "Extract st = (mDirty st, st\<lparr>mDirty := {}\<rparr>)"

definition RaiseValidityNL :: "int \<Rightarrow> BlockValidity \<Rightarrow> block_ref \<Rightarrow> 'a index_state \<Rightarrow> bool \<times> 'a index_state" where
  "RaiseValidityNL now nUpTo r st =
     (let st = notifyDirty r st; ix = heap st r
      in if isInvalid (nStatus ix) then (False, st)
         else if getValidity (nStatus ix) \<ge> validity_value nUpTo then (False, st)
         else let ix = (if nUpTo = VALIDITY_SCRIPTS \<and> mValidationCompletionTime ix = time_max
                        then ix\<lparr>mValidationCompletionTime := now\<rparr> else ix);
                  ix = ix\<lparr>nStatus := withValidity nUpTo (nStatus ix)\<rparr>
           in (True, set_index r ix st))"

definition SetSequenceId :: "int \<Rightarrow> block_ref \<Rightarrow> 'a index_state \<Rightarrow> 'a index_state" where
  "SetSequenceId n r = modify_index r (\<lambda>ix. ix\<lparr>nSequenceId := n\<rparr>)"

definition SetChainTxAndSequenceId :: "u32 \<Rightarrow> int \<Rightarrow> block_ref \<Rightarrow> 'a index_state \<Rightarrow> 'a index_state" where
  "SetChainTxAndSequenceId chainTx n r = modify_index r (\<lambda>ix. ix\<lparr>nChainTx := chainTx, nSequenceId := n\<rparr>)"

definition SetDiskBlockData ::
  "int \<Rightarrow> u64 \<Rightarrow> int \<times> u32 \<Rightarrow> CDiskBlockMetaData \<Rightarrow> block_ref \<Rightarrow> 'a index_state \<Rightarrow> 'a index_state" where
  "SetDiskBlockData now transactionsCount pos metaData r st =
     (let st = modify_index r (\<lambda>ix. ix\<lparr>nTx := ucast transactionsCount, nChainTx := 0, nFile := fst pos, nDataPos := snd pos,
            nUndoPos := 0, nStatus := with_flag HAS_DATA_FLAG True (nStatus ix)\<rparr>) st;
          st = snd (RaiseValidityNL now VALIDITY_TRANSACTIONS r st)
      in if diskDataHash metaData \<noteq> null_hash \<and> diskDataSize metaData \<noteq> 0
         then modify_index r (\<lambda>ix. ix\<lparr>mDiskBlockMetaData := metaData,
                nStatus := with_flag HAS_DISK_BLOCK_META_DATA_FLAG True (nStatus ix)\<rparr>) st
         else st)"

definition IsSoftRejectedNL :: "CBlockIndex \<Rightarrow> bool" where
  "IsSoftRejectedNL ix \<longleftrightarrow> nSoftRejected ix \<ge> 0"

definition ShouldBeConsideredSoftRejectedBecauseOfParentNL :: "index_heap \<Rightarrow> CBlockIndex \<Rightarrow> cxx_exn + bool" where
  "ShouldBeConsideredSoftRejectedBecauseOfParentNL hp ix =
     (case pprev ix of None \<Rightarrow> Inl assert_failure | Some p \<Rightarrow> Inr (nSoftRejected (hp p) > 0))"

definition SetSoftRejectedFor :: "int \<Rightarrow> block_ref \<Rightarrow> 'a index_state \<Rightarrow> cxx_exn + 'a index_state" where
  "SetSoftRejectedFor numBlocks r st =
     (if \<not> numBlocks \<ge> - 1 then Inl assert_failure
      else bindE (ShouldBeConsideredSoftRejectedBecauseOfParentNL (heap st) (heap st r)) (\<lambda>b.
        if b then Inl assert_failure
        else let st = modify_index r (\<lambda>ix. ix\<lparr>nSoftRejected := numBlocks\<rparr>) st;
                 st = modify_index r (\<lambda>ix. ix\<lparr>nStatus := with_flag HAS_SOFT_REJ_FLAG (IsSoftRejectedNL ix) (nStatus ix)\<rparr>) st
          in Inr (notifyDirty r st)))"

definition SetSoftRejectedFromParentBaseNL :: "index_heap \<Rightarrow> CBlockIndex \<Rightarrow> cxx_exn + CBlockIndex" where
  "SetSoftRejectedFromParentBaseNL hp ix =
     bindE (ShouldBeConsideredSoftRejectedBecauseOfParentNL hp ix) (\<lambda>b.
       if b then Inr (ix\<lparr>nSoftRejected := nSoftRejected (hp (the (pprev ix))) - 1,
                         nStatus := with_flag HAS_SOFT_REJ_FLAG True (nStatus ix)\<rparr>)
       else Inr (ix\<lparr>nSoftRejected := - 1, nStatus := with_flag HAS_SOFT_REJ_FLAG False (nStatus ix)\<rparr>))"

definition SetSoftRejectedFromParent :: "block_ref \<Rightarrow> 'a index_state \<Rightarrow> cxx_exn + 'a index_state" where
  "SetSoftRejectedFromParent r st =
     bindE (SetSoftRejectedFromParentBaseNL (heap st) (heap st r)) (\<lambda>ix. Inr (notifyDirty r (set_index r ix st)))"

definition SetChainWork :: "block_ref \<Rightarrow> 'a index_state \<Rightarrow> cxx_exn + 'a index_state" where
  "SetChainWork r st = bindE (SetChainWorkNL (heap st) (heap st r)) (\<lambda>ix. Inr (set_index r ix st))"

definition ClearFileInfoIfFileNumberEquals :: "int \<Rightarrow> block_ref \<Rightarrow> 'a index_state \<Rightarrow> bool \<times> 'a index_state" where
  "ClearFileInfoIfFileNumberEquals fileNumber r st =
     (if nFile (heap st r) = fileNumber then
        (True, notifyDirty r (modify_index r (\<lambda>ix. ix\<lparr>
            nStatus := with_flag HAS_DISK_BLOCK_META_DATA_FLAG False
              (with_flag HAS_UNDO_FLAG False (with_flag HAS_DATA_FLAG False (nStatus ix))),
            nFile := 0, nDataPos := 0, nUndoPos := 0, mDiskBlockMetaData := null_metadata\<rparr>) st))
      else (False, st))"

definition ModifyStatusWithFailed :: "block_ref \<Rightarrow> 'a index_state \<Rightarrow> 'a index_state" where
  "ModifyStatusWithFailed r st =
     notifyDirty r (modify_index r (\<lambda>ix. ix\<lparr>nStatus := with_flag FAILED_FLAG True (nStatus ix)\<rparr>) st)"

definition ModifyStatusWithClearedFailedFlags :: "block_ref \<Rightarrow> 'a index_state \<Rightarrow> 'a index_state" where
  "ModifyStatusWithClearedFailedFlags r st =
     notifyDirty r (modify_index r (\<lambda>ix. ix\<lparr>nStatus := withClearedFailureFlags (nStatus ix)\<rparr>) st)"

definition ModifyStatusWithFailedParent :: "block_ref \<Rightarrow> 'a index_state \<Rightarrow> 'a index_state" where
  "ModifyStatusWithFailedParent r st =
     notifyDirty r (modify_index r (\<lambda>ix. ix\<lparr>nStatus := with_flag FAILED_PARENT_FLAG True (nStatus ix)\<rparr>) st)"

definition IgnoreValidationTime :: "block_ref \<Rightarrow> 'a index_state \<Rightarrow> 'a index_state" where
  "IgnoreValidationTime r = modify_index r (\<lambda>ix. ix\<lparr>mValidationCompletionTime := time_min\<rparr>)"

definition SetDiskBlockMetaData :: "uint256 \<Rightarrow> u64 \<Rightarrow> block_ref \<Rightarrow> 'a index_state \<Rightarrow> cxx_exn + 'a index_state" where
  "SetDiskBlockMetaData hash sz r st =
     (if hash = null_hash \<or> sz = 0 then Inl assert_failure
      else Inr (notifyDirty r (modify_index r (\<lambda>ix. ix\<lparr>mDiskBlockMetaData := \<lparr>diskDataHash = hash, diskDataSize = sz\<rparr>,
             nStatus := with_flag HAS_DISK_BLOCK_META_DATA_FLAG True (nStatus ix)\<rparr>) st)))"

definition SetBlockIndexFileMetaDataIfNotSetNL :: "CDiskBlockMetaData \<Rightarrow> block_ref \<Rightarrow> 'a index_state \<Rightarrow> cxx_exn + 'a index_state" where
  "SetBlockIndexFileMetaDataIfNotSetNL metadata r st =
     (if \<not> has_flag HAS_DISK_BLOCK_META_DATA_FLAG (nStatus (heap st r))
      then if \<not> has_flag HAS_DATA_FLAG (nStatus (heap st r)) then Inr st
           else SetDiskBlockMetaData (diskDataHash metadata) (diskDataSize metadata) r st
      else Inr st)"

text \<open>Where the block and its undo data are stored; \<open>None\<close> is the null position.\<close>

definition GetBlockPosNL :: "CBlockIndex \<Rightarrow> (int \<times> u32) option" where
  "GetBlockPosNL ix = (if has_flag HAS_DATA_FLAG (nStatus ix) then Some (nFile ix, nDataPos ix) else None)"

definition GetUndoPosNL :: "CBlockIndex \<Rightarrow> (int \<times> u32) option" where
  "GetUndoPosNL ix = (if has_flag HAS_UNDO_FLAG (nStatus ix) then Some (nFile ix, nUndoPos ix) else None)"

definition GetFileNumber :: "CBlockIndex \<Rightarrow> int option" where
  "GetFileNumber ix = (if has_flag HAS_DATA_FLAG (nStatus ix) then Some (nFile ix) else None)"

text \<open>\<open>FindUndoPos\<close> and \<open>UndoWriteToDisk\<close> are the file store: the position found, and whether the write succeeds.\<close>

definition writeUndoToDisk ::
  "int \<Rightarrow> (int \<times> u32) option \<Rightarrow> bool \<Rightarrow> block_ref \<Rightarrow> 'a index_state \<Rightarrow> bool \<times> 'a index_state" where
  "writeUndoToDisk now FindUndoPos UndoWriteToDisk r st =
     (if GetUndoPosNL (heap st r) = None \<or> \<not> isValid VALIDITY_SCRIPTS (nStatus (heap st r)) then
        if GetUndoPosNL (heap st r) = None then
          (case FindUndoPos of None \<Rightarrow> (False, st)
           | Some pos \<Rightarrow>
               if \<not> UndoWriteToDisk then (False, st)
               else (True, snd (RaiseValidityNL now VALIDITY_SCRIPTS r (modify_index r (\<lambda>ix. ix\<lparr>nUndoPos := snd pos,
                      nStatus := with_flag HAS_UNDO_FLAG True (nStatus ix)\<rparr>) st))))
        else (True, snd (RaiseValidityNL now VALIDITY_SCRIPTS r st))
      else (True, st))"

definition PostLoadIndexConnect :: "block_ref \<Rightarrow> 'a index_state \<Rightarrow> cxx_exn + bool \<times> 'a index_state" where
  "PostLoadIndexConnect r st =
     bindE (BuildSkipNL (heap st) (heap st r)) (\<lambda>ix.
     bindE (SetChainWorkNL (heap st) ix) (\<lambda>ix.
       let ix = ix\<lparr>nTimeMax := (case pprev ix of None \<Rightarrow> index_nTime ix | Some p \<Rightarrow> max (nTimeMax (heap st p)) (index_nTime ix))\<rparr>
       in Inr (if nTx ix > 0 then
                 (case pprev ix of
                    Some p \<Rightarrow>
                      if nChainTx (heap st p) \<noteq> 0 then (True, set_index r (ix\<lparr>nChainTx := nChainTx (heap st p) + nTx ix\<rparr>) st)
                      else (False, set_index r (ix\<lparr>nChainTx := 0\<rparr>) st)
                  | None \<Rightarrow> (True, set_index r (ix\<lparr>nChainTx := nTx ix\<rparr>) st))
               else (True, set_index r ix st))))"

text \<open>The constructor, at the address \<open>r\<close>; \<open>time\<close> is \<open>GetTime()\<close> and \<open>now\<close> the steady clock.\<close>

definition CBlockIndex_new ::
  "int \<Rightarrow> u64 \<Rightarrow> CBlockHeader \<Rightarrow> block_ref option \<Rightarrow> block_ref \<Rightarrow> 'a index_state \<Rightarrow> cxx_exn + 'a index_state" where
  "CBlockIndex_new now time block prev r st =
     (let ix = CBlockIndex_of_header block; hp = heap st
      in bindE (case prev of None \<Rightarrow> Inr ix
            | Some p \<Rightarrow>
                let ix = ix\<lparr>pprev := Some p, nHeight := nHeight (hp p) + 1\<rparr>
                in bindE (BuildSkipNL hp ix) (SetSoftRejectedFromParentBaseNL hp)) (\<lambda>ix.
         let ix = ix\<lparr>nTimeReceived := time,
               nTimeMax := (case pprev ix of None \<Rightarrow> index_nTime ix | Some p \<Rightarrow> max (nTimeMax (hp p)) (index_nTime ix))\<rparr>
         in bindE (SetChainWorkNL hp ix) (\<lambda>ix. Inr (snd (RaiseValidityNL now VALIDITY_TREE r (set_index r ix st))))))"

definition CBlockIndexWorkComparator :: "index_heap \<Rightarrow> block_ref \<Rightarrow> block_ref \<Rightarrow> bool" where
  "CBlockIndexWorkComparator hp pa pb =
     (let c = CompareTo (nChainWork (hp pa)) (nChainWork (hp pb));
          ta = mValidationCompletionTime (hp pa); tb = mValidationCompletionTime (hp pb);
          sa = nSequenceId (hp pa); sb = nSequenceId (hp pb)
      in if c > 0 then False else if c < 0 then True
         else if ta < tb then False else if ta > tb then True
         else if sa < sb then False else if sa > sb then True
         else if pa < pb then False else if pa > pb then True
         else False)"

subsection \<open>The store\<close>

record BlockIndexStore = block_index_state +
  mStore :: "uint256 \<rightharpoonup> block_ref"
  mBestHeader :: "block_ref option"

definition empty_store :: "index_heap \<Rightarrow> BlockIndexStore" where
  "empty_store hp = \<lparr>heap = hp, mDirty = {}, mStore = Map.empty, mBestHeader = None\<rparr>"

text \<open>\<open>alloc\<close> is the allocator of the hash map: the address of a new node, given those in use.\<close>

definition Insert :: "(block_ref set \<Rightarrow> block_ref) \<Rightarrow> int \<Rightarrow> u64 \<Rightarrow> CBlockHeader \<Rightarrow> BlockIndexStore \<Rightarrow> cxx_exn + block_ref \<times> BlockIndexStore" where
  "Insert alloc now time block st =
     (let prev = mStore st (hashPrevBlock block); hash = header_GetHash block
      in if \<not> (hashPrevBlock block = null_hash \<and> prev = None \<or> prev \<noteq> None) then Inl assert_failure
         else bindE (case mStore st hash of
               Some r \<Rightarrow> Inr (r, st)
             | None \<Rightarrow>
                 let r = alloc (ran (mStore st))
                 in bindE (CBlockIndex_new now time block prev r st) (\<lambda>st. Inr (r, st\<lparr>mStore := (mStore st)(hash \<mapsto> r)\<rparr>))) (\<lambda>(r, st).
           let st = modify_index r (\<lambda>ix. ix\<lparr>phashBlock := Some hash\<rparr>) st
           in Inr (r, if (case mBestHeader st of None \<Rightarrow> True | Some b \<Rightarrow> CBlockIndexWorkComparator (heap st) b r)
                      then st\<lparr>mBestHeader := Some r\<rparr> else st)))"

definition GetOrInsertNL :: "(block_ref set \<Rightarrow> block_ref) \<Rightarrow> uint256 \<Rightarrow> BlockIndexStore \<Rightarrow> block_ref \<times> BlockIndexStore" where
  "GetOrInsertNL alloc blockHash st =
     (case mStore st blockHash of Some r \<Rightarrow> (r, st)
      | None \<Rightarrow>
          let r = alloc (ran (mStore st));
              st = (set_index r CBlockIndex_default st)\<lparr>mStore := (mStore st)(blockHash \<mapsto> r)\<rparr>
          in (r, modify_index r (\<lambda>ix. ix\<lparr>phashBlock := Some blockHash\<rparr>) st))"

definition SetBestHeader :: "block_ref \<Rightarrow> BlockIndexStore \<Rightarrow> BlockIndexStore" where
  "SetBestHeader r st =
     (if isValid VALIDITY_TREE (nStatus (heap st r)) \<and>
         (case mBestHeader st of None \<Rightarrow> True | Some b \<Rightarrow> CBlockIndexWorkComparator (heap st) b r)
      then st\<lparr>mBestHeader := Some r\<rparr> else st)"

definition GetBestHeader :: "BlockIndexStore \<Rightarrow> cxx_exn + block_ref" where
  "GetBestHeader st = of_opt assert_failure (mBestHeader st)"

subsection \<open>Linked entries\<close>

text \<open>The reference for \<open>GetAncestor\<close>: \<open>n\<close> steps along \<open>pprev\<close>.\<close>

fun nth_prev :: "index_heap \<Rightarrow> nat \<Rightarrow> block_ref \<Rightarrow> block_ref option" where
  "nth_prev hp 0 r = Some r"
| "nth_prev hp (Suc n) r = (case pprev (hp r) of None \<Rightarrow> None | Some p \<Rightarrow> nth_prev hp n p)"

text \<open>An entry whose chain ends at height 0, with heights and skip pointers in order.\<close>

inductive linked :: "index_heap \<Rightarrow> block_ref \<Rightarrow> bool" for hp where
  linked_genesis: "pprev (hp r) = None \<Longrightarrow> pskip (hp r) = None \<Longrightarrow> nHeight (hp r) = 0 \<Longrightarrow> linked hp r"
| linked_child: "pprev (hp r) = Some p \<Longrightarrow> linked hp p \<Longrightarrow> nHeight (hp r) = nHeight (hp p) + 1 \<Longrightarrow>
    pskip (hp r) = None \<or> pskip (hp r) = nth_prev hp (nat (nHeight (hp r) - GetSkipHeight (nHeight (hp r)))) r \<Longrightarrow> linked hp r"

inductive_cases linkedE: "linked hp r"

lemma linked_height: "linked hp r \<Longrightarrow> 0 \<le> nHeight (hp r)"
  by (induction rule: linked.induct) auto

lemma linked_parent: "linked hp r \<Longrightarrow> nHeight (hp r) \<noteq> 0 \<Longrightarrow> \<exists>p. pprev (hp r) = Some p \<and> linked hp p \<and> nHeight (hp r) = nHeight (hp p) + 1"
  by (erule linkedE) auto

lemma linked_root: "linked hp r \<Longrightarrow> nHeight (hp r) = 0 \<Longrightarrow> pprev (hp r) = None"
  by (erule linkedE) (auto dest: linked_height)

lemma nth_prev_add: "nth_prev hp (m + n) r = Option.bind (nth_prev hp m r) (nth_prev hp n)"
  by (induction m arbitrary: r) (auto split: option.splits)

lemma linked_nth_prev:
  "linked hp r \<Longrightarrow> int n \<le> nHeight (hp r) \<Longrightarrow>
     \<exists>q. nth_prev hp n r = Some q \<and> linked hp q \<and> nHeight (hp q) = nHeight (hp r) - int n"
proof (induction n arbitrary: r)
  case (Suc n)
  from Suc.prems obtain p where p: "pprev (hp r) = Some p" "linked hp p" "nHeight (hp r) = nHeight (hp p) + 1"
    by (auto elim: linkedE)
  with Suc.IH [of p] Suc.prems(2) show ?case by auto
qed auto

lemma linked_no_more: "linked hp r \<Longrightarrow> nHeight (hp r) < int n \<Longrightarrow> nth_prev hp n r = None"
proof (induction n arbitrary: r)
  case (Suc n)
  from Suc.prems(1) show ?case by (cases rule: linkedE) (use Suc in auto)
qed (auto dest: linked_height)

lemma ancestor_walk_linked:
  "linked hp r \<Longrightarrow> h = nHeight (hp r) \<Longrightarrow> int height \<le> h \<Longrightarrow>
     \<exists>q. ancestor_walk hp height r h = Inr q \<and> nth_prev hp (nat (h - int height)) r = Some q"
proof (induction hp height r h rule: ancestor_walk.induct)
  case (1 hp height r h)
  let ?s = "GetSkipHeight h" and ?t = "GetSkipHeight (h - 1)"
  show ?case
  proof (cases "h > int height")
    case True
    let ?skip = "pskip (hp r) \<noteq> None \<and> (?s = int height \<or> ?s > int height \<and> \<not> (?t < ?s - 2 \<and> ?t \<ge> int height))"
    have s: "0 \<le> ?s" "?s < h" using GetSkipHeight_bounds [of h] True by auto
    show ?thesis
    proof (cases ?skip)
      case skip: True
      then have "pskip (hp r) = nth_prev hp (nat (h - ?s)) r" using 1(3,4) by (auto elim: linkedE)
      moreover from linked_nth_prev [OF 1(3), of "nat (h - ?s)"] s 1(4) obtain q where
        q: "nth_prev hp (nat (h - ?s)) r = Some q" "linked hp q" "nHeight (hp q) = ?s" by auto
      ultimately have p: "the (pskip (hp r)) = q" by simp
      have "int height \<le> ?s" using skip by auto
      with 1(1) [OF True refl refl skip] q p obtain x where
        x: "ancestor_walk hp height q ?s = Inr x" "nth_prev hp (nat (?s - int height)) q = Some x" by auto
      have "nat (h - int height) = nat (h - ?s) + nat (?s - int height)" using s skip by auto
      then have "nth_prev hp (nat (h - int height)) r = Some x" using q(1) x(2) by (simp add: nth_prev_add)
      with x(1) True skip p show ?thesis by (simp add: ancestor_walk.simps [of hp height r h] Let_def)
    next
      case step: False
      from 1(3,4) True obtain p where p: "pprev (hp r) = Some p" "linked hp p" "h - 1 = nHeight (hp p)"
        by (auto elim: linkedE)
      with 1(2) [OF True refl refl step p(1)] True obtain x where
        x: "ancestor_walk hp height p (h - 1) = Inr x" "nth_prev hp (nat (h - 1 - int height)) p = Some x" by auto
      have "nat (h - int height) = Suc (nat (h - 1 - int height))" using True by auto
      with x p(1) True step show ?thesis by (auto simp: ancestor_walk.simps [of hp height r h] Let_def)
    qed
  qed (use 1 in \<open>auto simp: ancestor_walk.simps [of hp height r]\<close>)
qed

lemma GetAncestor_nth_prev:
  "linked hp r \<Longrightarrow> GetAncestor hp r height = Inr (if 0 \<le> height \<and> height \<le> nHeight (hp r)
     then nth_prev hp (nat (nHeight (hp r) - height)) r else None)"
  using ancestor_walk_linked [OF _ refl, of hp r "nat height"] by (auto simp: GetAncestor_def)

text \<open>A straight chain, as a concrete heap.\<close>

definition straight_chain :: index_heap where
  "straight_chain r = CBlockIndex_default\<lparr>pprev := (if r = 0 then None else Some (r - 1)), nHeight := int r,
     pskip := (if r = 0 then None else Some (nat (GetSkipHeight (int r)))), index_nTime := word_of_nat r\<rparr>"

lemma straight_chain_simps [simp]:
  "pprev (straight_chain r) = (if r = 0 then None else Some (r - 1))" "nHeight (straight_chain r) = int r"
  "pskip (straight_chain r) = (if r = 0 then None else Some (nat (GetSkipHeight (int r))))"
  "index_nTime (straight_chain r) = word_of_nat r" "length (nChainWork (straight_chain r)) = 8"
  by (simp_all add: straight_chain_def CBlockIndex_default_def base_uint_of_def)

lemma nth_prev_straight: "n \<le> r \<Longrightarrow> nth_prev straight_chain n r = Some (r - n)"
  by (induction n arbitrary: r) auto

lemma linked_straight: "linked straight_chain r"
proof (induction r)
  case (Suc r)
  have "0 \<le> GetSkipHeight (int (Suc r))" "GetSkipHeight (int (Suc r)) < int (Suc r)"
    using GetSkipHeight_bounds [of "int (Suc r)"] by auto
  then have "nth_prev straight_chain (nat (int (Suc r) - GetSkipHeight (int (Suc r)))) (Suc r) = Some (nat (GetSkipHeight (int (Suc r))))"
    by (subst nth_prev_straight) auto
  with Suc show ?case by (intro linked_child [of straight_chain "Suc r" r]) auto
qed (auto intro: linked_genesis)

text \<open>C33. On a linked entry the skip list changes nothing: \<open>GetAncestor\<close> never fails an assertion and returns the
  entry that is reached by following \<open>pprev\<close> down to the height asked for, and null outside of the chain.\<close>

theorem GetAncestor_linear:
  assumes "linked hp r"
  shows "GetAncestor hp r height = Inr (if 0 \<le> height \<and> height \<le> nHeight (hp r)
     then nth_prev hp (nat (nHeight (hp r) - height)) r else None)"
  using assms by (rule GetAncestor_nth_prev)

theorem GetAncestor_linear_witness:
  "linked straight_chain 1000 \<and> GetAncestor straight_chain 1000 37 = Inr (Some 37) \<and> GetAncestor straight_chain 1000 1001 = Inr None"
  using GetAncestor_linear [OF linked_straight, of 1000 37] GetAncestor_linear [OF linked_straight, of 1000 1001]
  by (simp add: linked_straight nth_prev_straight)

definition is_ancestor :: "index_heap \<Rightarrow> block_ref \<Rightarrow> block_ref \<Rightarrow> bool" where
  "is_ancestor hp q r \<longleftrightarrow> (\<exists>n. nth_prev hp n r = Some q)"

lemma is_ancestor_refl [simp]: "is_ancestor hp r r"
  unfolding is_ancestor_def by (rule exI [of _ 0]) simp

lemma ancestor_height:
  assumes "linked hp r" "nth_prev hp n r = Some q"
  shows "linked hp q" "nHeight (hp q) = nHeight (hp r) - int n"
proof -
  have "int n \<le> nHeight (hp r)" using linked_no_more [OF assms(1), of n] assms(2) by (intro leI notI) simp
  with linked_nth_prev [OF assms(1) this] assms(2) show "linked hp q" "nHeight (hp q) = nHeight (hp r) - int n" by auto
qed

lemma is_ancestor_at:
  assumes "linked hp r"
  shows "is_ancestor hp q r \<longleftrightarrow> nHeight (hp q) \<le> nHeight (hp r) \<and> nth_prev hp (nat (nHeight (hp r) - nHeight (hp q))) r = Some q"
  unfolding is_ancestor_def using ancestor_height(2) [OF assms] by auto

lemma is_ancestor_step: "is_ancestor hp q r \<longleftrightarrow> q = r \<or> (\<exists>p. pprev (hp r) = Some p \<and> is_ancestor hp q p)"
proof
  assume "is_ancestor hp q r"
  then obtain n where "nth_prev hp n r = Some q" by (auto simp: is_ancestor_def)
  then show "q = r \<or> (\<exists>p. pprev (hp r) = Some p \<and> is_ancestor hp q p)"
    by (cases n) (auto simp: is_ancestor_def split: option.splits)
next
  assume "q = r \<or> (\<exists>p. pprev (hp r) = Some p \<and> is_ancestor hp q p)"
  then show "is_ancestor hp q r"
  proof
    assume "\<exists>p. pprev (hp r) = Some p \<and> is_ancestor hp q p"
    then obtain p n where "pprev (hp r) = Some p" "nth_prev hp n p = Some q" by (auto simp: is_ancestor_def)
    then show ?thesis unfolding is_ancestor_def by (intro exI [of _ "Suc n"]) simp
  qed simp
qed

text \<open>The highest common ancestor of two entries, or none.\<close>

definition last_common :: "index_heap \<Rightarrow> block_ref \<Rightarrow> block_ref \<Rightarrow> block_ref option \<Rightarrow> bool" where
  "last_common hp a b c \<longleftrightarrow>
     (\<forall>x. is_ancestor hp x a \<and> is_ancestor hp x b \<longleftrightarrow> (case c of None \<Rightarrow> False | Some q \<Rightarrow> is_ancestor hp x q))"

lemma common_walk_last:
  assumes "linked hp x" "linked hp y" "nHeight (hp x) = nHeight (hp y)" "nHeight (hp x) < int fuel"
  shows "\<exists>c. common_walk hp fuel (Some x) (Some y) = Some (c, c) \<and> last_common hp x y c"
  using assms
proof (induction fuel arbitrary: x y)
  case (Suc fuel)
  show ?case
  proof (cases "x = y")
    case True
    then show ?thesis by (simp add: common_walk.simps [of hp "Suc fuel"] last_common_def)
  next
    case neq: False
    have walk: "common_walk hp (Suc fuel) (Some x) (Some y) = common_walk hp fuel (pprev (hp x)) (pprev (hp y))"
      using neq by (simp add: common_walk.simps [of hp "Suc fuel"])
    have diff: "\<not> is_ancestor hp x y" "\<not> is_ancestor hp y x"
      using neq Suc.prems(1-3) by (auto simp: is_ancestor_at)
    show ?thesis
    proof (cases "nHeight (hp x) = 0")
      case True
      with Suc.prems(1-3) have n: "pprev (hp x) = None" "pprev (hp y) = None"
        by (simp_all add: linked_root)
      then have "last_common hp x y None" using neq
        by (auto simp: last_common_def is_ancestor_step [of hp _ x] is_ancestor_step [of hp _ y])
      with n walk show ?thesis by (simp add: common_walk.simps [of hp fuel])
    next
      case False
      with Suc.prems(1-3) obtain p q where p: "pprev (hp x) = Some p" "linked hp p" "nHeight (hp x) = nHeight (hp p) + 1"
          "pprev (hp y) = Some q" "linked hp q" "nHeight (hp y) = nHeight (hp q) + 1"
        using linked_parent [of hp x] linked_parent [of hp y] by metis
      have "nHeight (hp p) = nHeight (hp q)" "nHeight (hp p) < int fuel" using p(3,6) Suc.prems(3,4) by simp_all
      from Suc.IH [OF p(2,5) this] obtain c where
        c: "common_walk hp fuel (Some p) (Some q) = Some (c, c)" "last_common hp p q c" by blast
      have "is_ancestor hp z x \<and> is_ancestor hp z y \<longleftrightarrow> is_ancestor hp z p \<and> is_ancestor hp z q" for z
        using diff p(1,4) is_ancestor_step [of hp z x] is_ancestor_step [of hp z y] by auto
      then have "last_common hp x y c" using c(2) by (simp add: last_common_def)
      with c(1) p(1,4) walk show ?thesis by auto
    qed
  qed
qed (auto dest: linked_height)

lemma lower_common:
  assumes "linked hp a" "linked hp b" "nHeight (hp b) \<le> nHeight (hp a)"
    "nth_prev hp (nat (nHeight (hp a) - nHeight (hp b))) a = Some a'"
  shows "is_ancestor hp x a \<and> is_ancestor hp x b \<longleftrightarrow> is_ancestor hp x a' \<and> is_ancestor hp x b"
proof -
  let ?d = "nat (nHeight (hp a) - nHeight (hp b))"
  have a': "linked hp a'" "nHeight (hp a') = nHeight (hp b)" using ancestor_height [OF assms(1,4)] assms(3) by auto
  have "nth_prev hp (nat (nHeight (hp a) - nHeight (hp x))) a = nth_prev hp (nat (nHeight (hp a') - nHeight (hp x))) a'"
    if "nHeight (hp x) \<le> nHeight (hp b)"
  proof -
    have "nat (nHeight (hp a) - nHeight (hp x)) = ?d + nat (nHeight (hp a') - nHeight (hp x))" using that assms(3) a'(2) by simp
    then show ?thesis using assms(4) by (simp add: nth_prev_add)
  qed
  then show ?thesis using a' assms(3) by (auto simp: is_ancestor_at [OF assms(1)] is_ancestor_at [OF assms(2)] is_ancestor_at [OF a'(1)])
qed

text \<open>C34. For any two linked entries \<open>LastCommonAncestor\<close> ends without a failed assertion: a number of steps
  one above the lower height is enough.  Its result has exactly the common ancestors of the two entries as its
  ancestors; it is null just when the two chains start from different blocks.\<close>

theorem LastCommonAncestor_correct:
  assumes "linked hp a" "linked hp b" "min (nHeight (hp a)) (nHeight (hp b)) < int fuel"
  shows "\<exists>c. LastCommonAncestor hp fuel a b = Some (Inr c) \<and> last_common hp a b c"
proof -
  consider "nHeight (hp a) > nHeight (hp b)" | "nHeight (hp b) > nHeight (hp a)" | "nHeight (hp a) = nHeight (hp b)" by linarith
  then show ?thesis
  proof cases
    case 1
    then obtain a' where a': "nth_prev hp (nat (nHeight (hp a) - nHeight (hp b))) a = Some a'" "linked hp a'" "nHeight (hp a') = nHeight (hp b)"
      using linked_nth_prev [OF assms(1), of "nat (nHeight (hp a) - nHeight (hp b))"] linked_height [OF assms(2)] by auto
    with common_walk_last [OF a'(2) assms(2) a'(3), of fuel] assms(3) 1 obtain c where
      c: "common_walk hp fuel (Some a') (Some b) = Some (c, c)" "last_common hp a' b c" by auto
    have "last_common hp a b c" using c(2) lower_common [OF assms(1,2) _ a'(1)] 1 by (simp add: last_common_def)
    with c(1) 1 a'(1) linked_height [OF assms(2)] show ?thesis
      by (simp add: LastCommonAncestor_def Let_def GetAncestor_nth_prev [OF assms(1)])
  next
    case 2
    then obtain b' where b': "nth_prev hp (nat (nHeight (hp b) - nHeight (hp a))) b = Some b'" "linked hp b'" "nHeight (hp b') = nHeight (hp a)"
      using linked_nth_prev [OF assms(2), of "nat (nHeight (hp b) - nHeight (hp a))"] linked_height [OF assms(1)] by auto
    with common_walk_last [OF assms(1) b'(2) b'(3) [symmetric], of fuel] assms(3) 2 obtain c where
      c: "common_walk hp fuel (Some a) (Some b') = Some (c, c)" "last_common hp a b' c" by auto
    have "last_common hp a b c"
      using c(2) lower_common [OF assms(2,1) _ b'(1)] 2 unfolding last_common_def by (metis less_imp_le)
    with c(1) 2 b'(1) linked_height [OF assms(1)] show ?thesis
      by (simp add: LastCommonAncestor_def Let_def GetAncestor_nth_prev [OF assms(2)])
  next
    case 3
    then show ?thesis using common_walk_last [OF assms(1,2) 3, of fuel] assms(3) by (auto simp: LastCommonAncestor_def Let_def)
  qed
qed

theorem LastCommonAncestor_correct_witness:
  "\<exists>c. linked straight_chain 9 \<and> linked straight_chain 5 \<and>
     LastCommonAncestor straight_chain 6 9 5 = Some (Inr c) \<and> last_common straight_chain 9 5 c"
  using LastCommonAncestor_correct [OF linked_straight linked_straight, of 9 5 6] by (auto simp: linked_straight)

subsection \<open>Chain work\<close>

text \<open>The expected number of hashes for a block.\<close>

definition block_work :: "u32 \<Rightarrow> nat" where
  "block_work bits = (let (t, n, v) = SetCompact bits in if n \<or> v \<or> base_val t = 0 then 0 else 2 ^ 256 div (base_val t + 1))"

lemma base_uint_small: "base_val (base_uint_of 8 0) = 0" "base_val (base_uint_of 8 1) = 1" "length (base_uint_of 8 b) = 8"
  by (simp_all add: base_uint_of_def)

lemma GetBlockProof_val: "\<exists>w. GetBlockProof bits = Inr w \<and> length w = 8 \<and> base_val w = block_work bits"
proof -
  obtain t n v where t: "SetCompact bits = (t, n, v)" by (cases "SetCompact bits") auto
  note l = SetCompact_less [OF t]
  show ?thesis
  proof (cases "n \<or> v \<or> base_val t = 0")
    case True
    then show ?thesis using l by (auto simp: GetBlockProof_def block_work_def t EqualTo_zero base_uint_small)
  next
    case False
    let ?a = "base_not t" and ?b = "base_add t (base_uint_of 8 1)"
    have len: "length ?a = 8" "length ?b = 8" using l by (simp_all add: base_uint_small)
    have b: "base_val ?b = base_val t + 1" using l by (simp add: base_uint_small)
    have "base_div ?a ?b \<noteq> None" using base_div_val(1) [of ?a ?b] len b by simp
    then obtain q where q: "base_div ?a ?b = Some q" by blast
    then have qv: "base_val q = base_val ?a div (base_val t + 1)" "length q = 8" using base_div_val(2) [of ?a ?b q] len b by auto
    have a: "2 ^ 256 = base_val ?a + (base_val t + 1)" using base_not_val [of t] l by simp
    have w: "base_val q + 1 = 2 ^ 256 div (base_val t + 1)" unfolding a qv(1) by (rule div_add_self2 [symmetric]) simp
    have "2 ^ 256 div (base_val t + 1) \<le> 2 ^ 256 div (2 :: nat)" using False by (intro div_le_mono2) auto
    then have less: "2 ^ 256 div (base_val t + 1) < (2 :: nat) ^ 256" by (rule le_less_trans) simp
    have "base_val (base_add q (base_uint_of 8 1)) = (base_val q + 1) mod 2 ^ 256"
      using qv(2) base_add_val(1) [of q "base_uint_of 8 1"] by (simp only: base_uint_small) simp
    then have "base_val (base_add q (base_uint_of 8 1)) = 2 ^ 256 div (base_val t + 1)"
      unfolding w using less by (simp only: mod_less)
    then show ?thesis using False q l qv(2) by (auto simp: GetBlockProof_def block_work_def t EqualTo_zero base_uint_small)
  qed
qed

lemma work_order:
  assumes "length (nChainWork (hp a)) = 8" "length (nChainWork (hp b)) = 8"
  shows "CBlockIndexWorkComparator hp a b \<longleftrightarrow>
    (let wa = base_val (nChainWork (hp a)); wb = base_val (nChainWork (hp b));
         ta = mValidationCompletionTime (hp a); tb = mValidationCompletionTime (hp b)
     in wa < wb \<or> wa = wb \<and> (tb < ta \<or> ta = tb \<and> (nSequenceId (hp b) < nSequenceId (hp a) \<or>
          nSequenceId (hp a) = nSequenceId (hp b) \<and> b < a)))"
  using assms by (auto simp: CBlockIndexWorkComparator_def Let_def)

text \<open>C35. The comparator of the set of candidate tips is a strict total order on index entries: irreflexive,
  transitive and total.  An entry with more work is always above one with less.\<close>

theorem CBlockIndexWorkComparator_order:
  assumes "length (nChainWork (hp a)) = 8" "length (nChainWork (hp b)) = 8" "length (nChainWork (hp c)) = 8"
  shows "\<not> CBlockIndexWorkComparator hp a a \<and>
    (CBlockIndexWorkComparator hp a b \<and> CBlockIndexWorkComparator hp b c \<longrightarrow> CBlockIndexWorkComparator hp a c) \<and>
    (a = b \<or> CBlockIndexWorkComparator hp a b \<or> CBlockIndexWorkComparator hp b a) \<and>
    (base_val (nChainWork (hp a)) < base_val (nChainWork (hp b)) \<longrightarrow> CBlockIndexWorkComparator hp a b)"
  using assms by (auto simp: work_order Let_def)

theorem CBlockIndexWorkComparator_order_witness:
  "length (nChainWork (straight_chain 3)) = 8 \<and> \<not> CBlockIndexWorkComparator straight_chain 3 3 \<and>
   (CBlockIndexWorkComparator straight_chain 3 2 \<or> CBlockIndexWorkComparator straight_chain 2 3)"
  using CBlockIndexWorkComparator_order [of straight_chain 3 2 1] by simp

subsection \<open>Median time\<close>

lemma sorted_nth_count:
  "sorted xs \<Longrightarrow> k < length xs \<Longrightarrow> (m :: int) \<le> xs ! k \<longleftrightarrow> length (filter (\<lambda>x. x < m) xs) \<le> k"
proof (induction xs arbitrary: k)
  case (Cons x xs)
  show ?case
  proof (cases "x < m")
    case True
    with Cons show ?thesis by (cases k) (auto simp: not_le)
  next
    case False
    with Cons.prems(1) have "filter (\<lambda>x. x < m) xs = []" by (auto simp: filter_empty_conv)
    moreover have "x \<le> (x # xs) ! k" using Cons.prems by (cases k) (auto simp: less_Suc_eq_le)
    ultimately show ?thesis using False by auto
  qed
qed simp

lemma median_count: "xs \<noteq> [] \<Longrightarrow> (m :: int) \<le> sort xs ! (length xs div 2) \<longleftrightarrow> length (filter (\<lambda>x. x < m) xs) \<le> length xs div 2"
  using sorted_nth_count [of "sort xs" "length xs div 2" m] by (simp add: filter_sort)

lemma block_times_take: "block_times hp n p = take n (block_times hp (Suc n) p)"
proof (induction n arbitrary: p)
  case (Suc n)
  show ?case
  proof (cases p)
    case (Some q)
    then show ?thesis using Suc.IH [of "pprev (hp q)"] by simp
  qed simp
qed simp

lemma median_step:
  assumes "pprev (hp c) = Some p" "GetMedianTimePast hp p \<le> GetBlockTime (hp c)"
  shows "GetMedianTimePast hp p \<le> GetMedianTimePast hp c"
proof -
  let ?T = "block_times hp nMedianTimeSpan (Some p)" and ?m = "GetMedianTimePast hp p"
  let ?U = "block_times hp nMedianTimeSpan (Some c)"
  have U: "?U = GetBlockTime (hp c) # take 10 ?T"
    using block_times_take [of hp 10 "Some p"] assms(1) by (simp add: nMedianTimeSpan_def eval_nat_numeral)
  have T: "?T \<noteq> []" by (simp add: nMedianTimeSpan_def eval_nat_numeral)
  have "length ?T \<le> 11" using block_times_take [of hp nMedianTimeSpan "Some p"] by (metis length_take min.cobounded2 nMedianTimeSpan_def)
  then have "length ?T div 2 \<le> length ?U div 2" unfolding U by (auto simp: min_def)
  moreover have "length (filter (\<lambda>x. x < ?m) ?T) \<le> length ?T div 2"
    using median_count [OF T, of ?m] by (simp add: GetMedianTimePast_def Let_def)
  moreover have "length (filter (\<lambda>x. x < ?m) (take 10 ?T)) \<le> length (filter (\<lambda>x. x < ?m) ?T)"
    by (metis append_take_drop_id filter_append le_add1 length_append)
  moreover have "filter (\<lambda>x. x < ?m) ?U = filter (\<lambda>x. x < ?m) (take 10 ?T)" unfolding U using assms(2) by simp
  moreover have "?U \<noteq> []" unfolding U by simp
  ultimately show ?thesis using median_count [of ?U ?m] by (simp add: GetMedianTimePast_def Let_def)
qed

text \<open>C36. The median time of a chain never goes back.  If every block from \<open>r\<close> down to its \<open>n\<close>-th ancestor has a time
  above the median time past of its parent, the median time past of \<open>r\<close> is at least that of the ancestor.\<close>

theorem median_time_monotone:
  assumes "nth_prev hp n r = Some q"
    "\<forall>m < n. \<forall>c p. nth_prev hp m r = Some c \<longrightarrow> pprev (hp c) = Some p \<longrightarrow> GetMedianTimePast hp p < GetBlockTime (hp c)"
  shows "GetMedianTimePast hp q \<le> GetMedianTimePast hp r"
  using assms
proof (induction n arbitrary: r)
  case (Suc n)
  then obtain p where p: "pprev (hp r) = Some p" "nth_prev hp n p = Some q" by (auto split: option.splits)
  have "GetMedianTimePast hp p < GetBlockTime (hp r)" using Suc.prems(2) p(1) by (metis nth_prev.simps(1) zero_less_Suc)
  then have "GetMedianTimePast hp p \<le> GetMedianTimePast hp r" by (intro median_step [of hp r p]) (simp_all add: p(1))
  moreover have "\<forall>m < n. \<forall>c x. nth_prev hp m p = Some c \<longrightarrow> pprev (hp c) = Some x \<longrightarrow> GetMedianTimePast hp x < GetBlockTime (hp c)"
    using Suc.prems(2) p(1) by (metis Suc_less_eq nth_prev.simps(2) option.simps(5))
  with Suc.IH [OF p(2)] have "GetMedianTimePast hp q \<le> GetMedianTimePast hp p" by blast
  ultimately show ?case by linarith
qed simp

theorem median_time_monotone_witness:
  "nth_prev straight_chain 1 1 = Some 0 \<and> GetMedianTimePast straight_chain 0 \<le> GetMedianTimePast straight_chain 1"
proof -
  have "block_times straight_chain 11 (Some 0) = [0]"
    using block_times.simps(1) [of straight_chain 10 0] by (simp add: GetBlockTime_def)
  then have "GetMedianTimePast straight_chain 0 = 0" by (simp add: GetMedianTimePast_def nMedianTimeSpan_def)
  then have "GetMedianTimePast straight_chain 0 \<le> GetMedianTimePast straight_chain 1"
    by (intro median_time_monotone [of straight_chain 1 1 0]) (auto simp: nth_prev_straight GetBlockTime_def)
  then show ?thesis by (simp add: nth_prev_straight)
qed

end
