(* ===== verification/Block_Index_Store.thy ===== *)
theory Block_Index_Store
  imports Block_Index
begin

text \<open>
  The invariant of the block index (\<open>BlockIndexStore\<close> of \<open>src/src/block_index_store.h\<close>): what holds of
  every entry after any sequence of the public calls that change the index.  The loader of the index from disk
  (\<open>block_index_store_loader.cpp\<close>) is not modelled.
\<close>

subsection \<open>The invariant of the store\<close>

definition prev_work :: "index_heap \<Rightarrow> block_ref option \<Rightarrow> nat" where
  "prev_work hp p = (case p of None \<Rightarrow> 0 | Some q \<Rightarrow> base_val (nChainWork (hp q)))"

definition time_max_of :: "index_heap \<Rightarrow> CBlockIndex \<Rightarrow> u32" where
  "time_max_of hp ix = (case pprev ix of None \<Rightarrow> index_nTime ix | Some p \<Rightarrow> max (nTimeMax (hp p)) (index_nTime ix))"

definition skip_of :: "index_heap \<Rightarrow> CBlockIndex \<Rightarrow> block_ref option" where
  "skip_of hp ix = (case pprev ix of None \<Rightarrow> None | Some p \<Rightarrow> nth_prev hp (nat (nHeight ix - 1 - GetSkipHeight (nHeight ix))) p)"

text \<open>What only depends on the entry, and what never changes after the entry is made.\<close>

definition soft_ok :: "CBlockIndex \<Rightarrow> bool" where
  "soft_ok ix \<longleftrightarrow> - 1 \<le> nSoftRejected ix \<and> (has_flag HAS_SOFT_REJ_FLAG (nStatus ix) \<longleftrightarrow> IsSoftRejectedNL ix)"

definition fixed_part :: "CBlockIndex \<Rightarrow> CBlockIndex" where
  "fixed_part ix = CBlockIndex_default\<lparr>phashBlock := phashBlock ix, pprev := pprev ix, pskip := pskip ix, nHeight := nHeight ix,
     nChainWork := nChainWork ix, index_nVersion := index_nVersion ix, index_hashMerkleRoot := index_hashMerkleRoot ix,
     index_nTime := index_nTime ix, index_nBits := index_nBits ix, index_nNonce := index_nNonce ix, nTimeMax := nTimeMax ix\<rparr>"

definition entry_ok :: "index_heap \<Rightarrow> block_ref set \<Rightarrow> uint256 \<Rightarrow> block_ref \<Rightarrow> bool" where
  "entry_ok hp R h r \<longleftrightarrow>
     phashBlock (hp r) = Some h \<and> header_GetHash (index_header hp (hp r)) = h \<and> set_option (pprev (hp r)) \<subseteq> R \<and>
     nHeight (hp r) = (case pprev (hp r) of None \<Rightarrow> 0 | Some p \<Rightarrow> nHeight (hp p) + 1) \<and> 0 \<le> nHeight (hp r) \<and>
     pskip (hp r) = skip_of hp (hp r) \<and> nTimeMax (hp r) = time_max_of hp (hp r) \<and> length (nChainWork (hp r)) = 8 \<and>
     base_val (nChainWork (hp r)) = (prev_work hp (pprev (hp r)) + block_work (index_nBits (hp r))) mod 2 ^ 256 \<and> soft_ok (hp r)"

definition store_ok :: "BlockIndexStore \<Rightarrow> bool" where
  "store_ok st \<longleftrightarrow> finite (dom (mStore st)) \<and>
     (\<forall>h r. mStore st h = Some r \<longrightarrow> entry_ok (heap st) (ran (mStore st)) h r)"

lemma entry_linked:
  assumes "\<And>r. r \<in> R \<Longrightarrow> \<exists>h. entry_ok hp R h r" "r \<in> R"
  shows "linked hp r"
  using assms(2)
proof (induction "nat (nHeight (hp r))" arbitrary: r rule: less_induct)
  case less
  from assms(1) [OF less.prems] obtain h where ok: "entry_ok hp R h r" by blast
  show ?case
  proof (cases "pprev (hp r)")
    case None
    with ok show ?thesis by (intro linked_genesis) (auto simp: entry_ok_def skip_of_def)
  next
    case (Some p)
    with ok have p: "p \<in> R" "nHeight (hp r) = nHeight (hp p) + 1" by (simp_all add: entry_ok_def)
    from assms(1) [OF p(1)] have "0 \<le> nHeight (hp p)" by (auto simp: entry_ok_def)
    note p = p this
    have "nat (nHeight (hp r) - GetSkipHeight (nHeight (hp r))) = Suc (nat (nHeight (hp r) - 1 - GetSkipHeight (nHeight (hp r))))"
      using GetSkipHeight_bounds [of "nHeight (hp r)"] p by simp
    moreover have "linked hp p" using less.hyps [OF _ p(1)] p by simp
    ultimately show ?thesis using Some ok p(2) by (intro linked_child [of hp r p]) (simp_all add: entry_ok_def skip_of_def)
  qed
qed

lemma fixed_part_eqD:
  assumes "fixed_part a = fixed_part b"
  shows "phashBlock a = phashBlock b" "pprev a = pprev b" "pskip a = pskip b" "nHeight a = nHeight b" "nChainWork a = nChainWork b"
    "index_nVersion a = index_nVersion b" "index_hashMerkleRoot a = index_hashMerkleRoot b" "index_nTime a = index_nTime b"
    "index_nBits a = index_nBits b" "index_nNonce a = index_nNonce b" "nTimeMax a = nTimeMax b"
  using assms unfolding fixed_part_def
  by (simp_all add: CBlockIndex.ext_inject CBlockIndex_default_def)

lemma nth_prev_frame:
  assumes "\<And>q. q \<in> R \<Longrightarrow> pprev (hp' q) = pprev (hp q) \<and> set_option (pprev (hp q)) \<subseteq> R" "r \<in> R"
  shows "nth_prev hp' n r = nth_prev hp n r"
  using assms(2)
proof (induction n arbitrary: r)
  case (Suc n)
  from assms(1) [OF Suc.prems] Suc.IH show ?case by (cases "pprev (hp r)") auto
qed simp

text \<open>An entry stays in order when the fixed parts of the entries it can reach stay the same.\<close>

lemma entry_ok_frame:
  assumes ok: "entry_ok hp R h r" and r: "r \<in> R" and same: "\<And>q. q \<in> R \<Longrightarrow> fixed_part (hp' q) = fixed_part (hp q)"
    and closed: "\<And>q. q \<in> R \<Longrightarrow> set_option (pprev (hp q)) \<subseteq> R" and soft: "soft_ok (hp' r)" and R: "R \<subseteq> R'"
  shows "entry_ok hp' R' h r"
proof -
  note f = fixed_part_eqD [OF same]
  have np: "nth_prev hp' n q = nth_prev hp n q" if "q \<in> R" for n q
    by (rule nth_prev_frame [OF _ that]) (use f(2) closed in auto)
  have p: "p \<in> R" if "pprev (hp r) = Some p" for p using closed [OF r] that by auto
  have "index_header hp' (hp' r) = index_header hp (hp r)"
    using f [OF r] f(1) [OF p] by (auto simp: index_header_def split: option.splits)
  moreover have "skip_of hp' (hp' r) = skip_of hp (hp r)" using f(2,4) [OF r] np [OF p] by (auto simp: skip_of_def split: option.splits)
  moreover have "time_max_of hp' (hp' r) = time_max_of hp (hp r)"
    using f(2,8) [OF r] f(11) [OF p] by (auto simp: time_max_of_def split: option.splits)
  moreover have "prev_work hp' (pprev (hp' r)) = prev_work hp (pprev (hp r))"
    using f(2) [OF r] f(5) [OF p] by (auto simp: prev_work_def split: option.splits)
  moreover have "(case pprev (hp' r) of None \<Rightarrow> 0 | Some p \<Rightarrow> nHeight (hp' p) + 1) = (case pprev (hp r) of None \<Rightarrow> 0 | Some p \<Rightarrow> nHeight (hp p) + 1)"
    using f(2) [OF r] f(4) [OF p] by (auto split: option.splits)
  ultimately show ?thesis using ok soft R f [OF r] unfolding entry_ok_def by auto
qed

text \<open>The operations that leave the map and the fixed parts alone.\<close>

definition harmless :: "BlockIndexStore \<Rightarrow> BlockIndexStore \<Rightarrow> bool" where
  "harmless st st' \<longleftrightarrow> mStore st' = mStore st \<and> (\<forall>r \<in> ran (mStore st). fixed_part (heap st' r) = fixed_part (heap st r) \<and>
     (soft_ok (heap st r) \<longrightarrow> soft_ok (heap st' r)))"

lemma store_ok_entry: "store_ok st \<Longrightarrow> r \<in> ran (mStore st) \<Longrightarrow> \<exists>h. entry_ok (heap st) (ran (mStore st)) h r"
  by (auto simp: store_ok_def ran_def)

lemma store_ok_closed: "store_ok st \<Longrightarrow> r \<in> ran (mStore st) \<Longrightarrow> set_option (pprev (heap st r)) \<subseteq> ran (mStore st)"
  by (drule (1) store_ok_entry) (auto simp: entry_ok_def)

lemma store_ok_linked: "store_ok st \<Longrightarrow> r \<in> ran (mStore st) \<Longrightarrow> linked (heap st) r"
  by (rule entry_linked [of "ran (mStore st)"]) (auto dest: store_ok_entry)

lemma harmless_store_ok: "store_ok st \<Longrightarrow> harmless st st' \<Longrightarrow> store_ok st'"
proof -
  assume ok: "store_ok st" and h: "harmless st st'"
  have "entry_ok (heap st') (ran (mStore st)) k r" if "mStore st k = Some r" for k r
  proof (rule entry_ok_frame)
    show "r \<in> ran (mStore st)" using that by (rule ranI)
    show "entry_ok (heap st) (ran (mStore st)) k r" using ok that by (simp add: store_ok_def)
    then show "soft_ok (heap st' r)" using h ranI [of "mStore st" k r] that by (auto simp: harmless_def entry_ok_def)
  qed (use h store_ok_closed [OF ok] in \<open>auto simp: harmless_def\<close>)
  then show "store_ok st'" using ok h by (simp add: store_ok_def harmless_def)
qed

lemma harmless_refl: "harmless st st"
  by (simp add: harmless_def)

lemma harmless_trans: "harmless a b \<Longrightarrow> harmless b c \<Longrightarrow> harmless a c"
  by (auto simp: harmless_def)

lemma harmless_notify: "harmless st (notifyDirty r st')  \<longleftrightarrow> harmless st st'"
  by (simp add: harmless_def notifyDirty_def)

lemma harmless_set:
  "fixed_part ix = fixed_part (heap st r) \<Longrightarrow> (soft_ok (heap st r) \<Longrightarrow> soft_ok ix) \<Longrightarrow> harmless st (set_index r ix st)"
  by (simp add: harmless_def set_index_def)

lemma soft_bit: "has_flag HAS_SOFT_REJ_FLAG s \<longleftrightarrow> bit s 8"
  using and_exp_eq_0_iff_not_bit [of s 8] by (simp add: has_flag_def)

lemma soft_bit_simps [simp]:
  "bit (with_flag HAS_DATA_FLAG b s) 8 = bit s 8" "bit (with_flag HAS_UNDO_FLAG b s) 8 = bit s 8"
  "bit (with_flag FAILED_FLAG b s) 8 = bit s 8" "bit (with_flag FAILED_PARENT_FLAG b s) 8 = bit s 8"
  "bit (with_flag HAS_DISK_BLOCK_META_DATA_FLAG b s) 8 = bit s 8" "bit (with_flag HAS_SOFT_REJ_FLAG b s) 8 = b"
  "bit (withClearedFailureFlags s) 8 = bit s 8" "bit (withValidity v s) 8 = bit s 8"
proof -
  show "bit (withValidity v s) 8 = bit s 8"
    by (cases v) (simp_all add: withValidity_def bit_or_iff bit_and_iff bit_not_iff)
qed (simp_all add: with_flag_def withClearedFailureFlags_def bit_or_iff bit_and_iff bit_not_iff)

lemma harmless_modify:
  "(\<And>ix. fixed_part (f ix) = fixed_part ix) \<Longrightarrow> (\<And>ix. soft_ok ix \<Longrightarrow> soft_ok (f ix)) \<Longrightarrow> harmless st st' \<Longrightarrow>
     harmless st (modify_index r f st')"
  by (rule harmless_trans) (auto simp: modify_index_def intro!: harmless_set)

lemmas entry_defs = fixed_part_def soft_ok_def soft_bit IsSoftRejectedNL_def

lemma harmless_raise: "harmless st st' \<Longrightarrow> harmless st (snd (RaiseValidityNL now v r st'))"
proof (rule harmless_trans)
  have "harmless st' (notifyDirty r st')" by (simp add: harmless_notify harmless_refl)
  moreover have "harmless (notifyDirty r st') (snd (RaiseValidityNL now v r st'))"
    unfolding RaiseValidityNL_def Let_def by (auto simp: harmless_refl entry_defs intro!: harmless_set)
  ultimately show "harmless st' (snd (RaiseValidityNL now v r st'))" by (rule harmless_trans)
qed

lemma harmless_ops:
  "harmless st (SetSequenceId n r st)" "harmless st (SetChainTxAndSequenceId c n r st)"
  "harmless st (SetDiskBlockData now k pos m r st)" "harmless st (snd (ClearFileInfoIfFileNumberEquals f r st))"
  "harmless st (ModifyStatusWithFailed r st)" "harmless st (ModifyStatusWithClearedFailedFlags r st)"
  "harmless st (ModifyStatusWithFailedParent r st)" "harmless st (IgnoreValidationTime r st)"
  "harmless st (snd (writeUndoToDisk now u w r st))"
proof -
  show "harmless st (SetDiskBlockData now k pos m r st)"
    unfolding SetDiskBlockData_def Let_def
    by (auto intro!: harmless_modify harmless_raise harmless_refl simp: entry_defs)
  show "harmless st (snd (writeUndoToDisk now u w r st))"
    unfolding writeUndoToDisk_def
    by (auto intro!: harmless_modify harmless_raise harmless_refl simp: entry_defs split: option.split)
qed (auto simp: SetSequenceId_def SetChainTxAndSequenceId_def ClearFileInfoIfFileNumberEquals_def ModifyStatusWithFailed_def
    ModifyStatusWithClearedFailedFlags_def ModifyStatusWithFailedParent_def IgnoreValidationTime_def harmless_notify entry_defs
    intro!: harmless_modify harmless_refl)

lemma harmless_fallible:
  "SetSoftRejectedFor n r st = Inr st' \<Longrightarrow> harmless st st'"
  "SetSoftRejectedFromParent r st = Inr st' \<Longrightarrow> harmless st st'"
  "SetBlockIndexFileMetaDataIfNotSetNL m r st = Inr st' \<Longrightarrow> harmless st st'"
proof -
  assume "SetSoftRejectedFor n r st = Inr st'"
  then have "- 1 \<le> n" "st' = notifyDirty r (set_index r ((heap st r)\<lparr>nSoftRejected := n,
      nStatus := with_flag HAS_SOFT_REJ_FLAG (n \<ge> 0) (nStatus (heap st r))\<rparr>) st)"
    by (auto simp: SetSoftRejectedFor_def bindE_eq_Inr Let_def modify_index_def set_index_def IsSoftRejectedNL_def split: if_splits)
  then show "harmless st st'" by (auto simp: harmless_notify entry_defs intro!: harmless_set)
next
  assume "SetSoftRejectedFromParent r st = Inr st'"
  then obtain ix where ix: "SetSoftRejectedFromParentBaseNL (heap st) (heap st r) = Inr ix" "st' = notifyDirty r (set_index r ix st)"
    by (auto simp: SetSoftRejectedFromParent_def bindE_eq_Inr)
  then show "harmless st st'"
    by (auto simp: SetSoftRejectedFromParentBaseNL_def ShouldBeConsideredSoftRejectedBecauseOfParentNL_def bindE_eq_Inr
        harmless_notify entry_defs intro!: harmless_set split: option.splits if_splits)
next
  assume "SetBlockIndexFileMetaDataIfNotSetNL m r st = Inr st'"
  then show "harmless st st'"
    by (auto simp: SetBlockIndexFileMetaDataIfNotSetNL_def SetDiskBlockMetaData_def harmless_refl harmless_notify entry_defs
        intro!: harmless_modify split: if_splits)
qed

text \<open>Recomputing the derived data of an entry of the store gives the data it has.\<close>

lemma base_val_eqD: "length a = 8 \<Longrightarrow> length b = 8 \<Longrightarrow> base_val a = base_val b \<Longrightarrow> a = b"
  using base_val_inj [of a b] by simp

lemma SetChainWorkNL_val:
  assumes "\<And>p. pprev ix = Some p \<Longrightarrow> length (nChainWork (hp p)) = 8"
  shows "\<exists>w. SetChainWorkNL hp ix = Inr (ix\<lparr>nChainWork := w\<rparr>) \<and> length w = 8 \<and>
    base_val w = (prev_work hp (pprev ix) + block_work (index_nBits ix)) mod 2 ^ 256"
proof -
  obtain w where w: "GetBlockProof (index_nBits ix) = Inr w" "length w = 8" "base_val w = block_work (index_nBits ix)"
    using GetBlockProof_val by blast
  let ?p = "case pprev ix of None \<Rightarrow> base_uint_of 8 0 | Some p \<Rightarrow> nChainWork (hp p)"
  have p: "length ?p = 8" "base_val ?p = prev_work hp (pprev ix)"
    using assms by (auto simp: prev_work_def base_uint_small split: option.split)
  have "length (base_add ?p w) = 8" "base_val (base_add ?p w) = (base_val ?p + base_val w) mod 2 ^ 256"
    using base_add_val [of ?p w] p(1) w(2) by simp_all
  then show ?thesis using w p(2) by (intro exI [of _ "base_add ?p w"]) (simp add: SetChainWorkNL_def)
qed

lemma BuildSkipNL_val:
  assumes "\<And>p. pprev ix = Some p \<Longrightarrow> linked hp p \<and> nHeight ix = nHeight (hp p) + 1"
  shows "BuildSkipNL hp ix = Inr (if pprev ix = None then ix else ix\<lparr>pskip := skip_of hp ix\<rparr>)"
proof (cases "pprev ix")
  case (Some p)
  with assms have p: "linked hp p" "nHeight ix = nHeight (hp p) + 1" by simp_all
  have "0 \<le> GetSkipHeight (nHeight ix)" "GetSkipHeight (nHeight ix) \<le> nHeight (hp p)"
    using GetSkipHeight_bounds [of "nHeight ix"] p(2) linked_height [OF p(1)] by simp_all
  with Some p show ?thesis by (simp add: BuildSkipNL_def skip_of_def GetAncestor_nth_prev)
qed (simp add: BuildSkipNL_def)

lemma SetChainWorkNL_same:
  assumes "store_ok st" "r \<in> ran (mStore st)" "fixed_part ix = fixed_part (heap st r)"
  shows "SetChainWorkNL (heap st) ix = Inr ix"
proof -
  obtain h where ok: "entry_ok (heap st) (ran (mStore st)) h r" using store_ok_entry [OF assms(1,2)] by blast
  note f = fixed_part_eqD [OF assms(3)]
  have "length (nChainWork (heap st p)) = 8" if "pprev ix = Some p" for p
    using store_ok_entry [OF assms(1), of p] store_ok_closed [OF assms(1,2)] that f(2) by (auto simp: entry_ok_def)
  from SetChainWorkNL_val [of ix "heap st", OF this] obtain w where w: "SetChainWorkNL (heap st) ix = Inr (ix\<lparr>nChainWork := w\<rparr>)" "length w = 8"
      "base_val w = (prev_work (heap st) (pprev ix) + block_work (index_nBits ix)) mod 2 ^ 256" by blast
  then have "w = nChainWork ix" using ok f by (intro base_val_eqD) (simp_all add: entry_ok_def)
  with w(1) show ?thesis by simp
qed

lemma BuildSkipNL_same:
  assumes "store_ok st" "r \<in> ran (mStore st)"
  shows "BuildSkipNL (heap st) (heap st r) = Inr (heap st r)"
proof -
  obtain h where ok: "entry_ok (heap st) (ran (mStore st)) h r" using store_ok_entry [OF assms] by blast
  have "linked (heap st) p \<and> nHeight (heap st r) = nHeight (heap st p) + 1" if "pprev (heap st r) = Some p" for p
    using store_ok_linked [OF assms(1), of p] store_ok_closed [OF assms] that ok by (auto simp: entry_ok_def)
  from BuildSkipNL_val [of "heap st r" "heap st", OF this] ok show ?thesis by (simp add: entry_ok_def)
qed

lemma harmless_derived:
  assumes "store_ok st" "r \<in> ran (mStore st)"
  shows "SetChainWork r st = Inr st' \<Longrightarrow> harmless st st'"
    "PostLoadIndexConnect r st = Inr (b, st') \<Longrightarrow> harmless st st'"
proof -
  assume "SetChainWork r st = Inr st'"
  then show "harmless st st'"
    using SetChainWorkNL_same [OF assms refl] by (auto simp: SetChainWork_def intro!: harmless_set)
next
  obtain h where ok: "entry_ok (heap st) (ran (mStore st)) h r" using store_ok_entry [OF assms] by blast
  let ?ix = "heap st r"
  assume "PostLoadIndexConnect r st = Inr (b, st')"
  then have "st' \<in> (\<lambda>n. set_index r (?ix\<lparr>nTimeMax := time_max_of (heap st) ?ix, nChainTx := n\<rparr>) st) ` UNIV \<or>
      st' = set_index r (?ix\<lparr>nTimeMax := time_max_of (heap st) ?ix\<rparr>) st"
    by (auto simp: PostLoadIndexConnect_def BuildSkipNL_same [OF assms] SetChainWorkNL_same [OF assms refl] Let_def
        time_max_of_def split: if_splits option.splits)
  then show "harmless st st'" using ok by (auto simp: entry_defs entry_ok_def intro!: harmless_set)
qed

lemma derived_cong:
  "pprev a = pprev b \<Longrightarrow> nHeight a = nHeight b \<Longrightarrow> skip_of hp a = skip_of hp b"
  "pprev a = pprev b \<Longrightarrow> index_nTime a = index_nTime b \<Longrightarrow> time_max_of hp a = time_max_of hp b"
  by (auto simp: skip_of_def time_max_of_def split: option.split)

lemma raise_tree:
  "nStatus ix = 0 \<or> nStatus ix = HAS_SOFT_REJ_FLAG \<Longrightarrow> snd (RaiseValidityNL now VALIDITY_TREE r (set_index r ix st)) =
     notifyDirty r (set_index r (ix\<lparr>nStatus := withValidity VALIDITY_TREE (nStatus ix)\<rparr>) st)"
  by (auto simp: RaiseValidityNL_def isInvalid_def getValidity_def set_index_def notifyDirty_def Let_def)

lemma new_entry:
  assumes "store_ok st" "set_option prev \<subseteq> ran (mStore st)"
  shows "\<exists>ix. CBlockIndex_new now time block prev r st = Inr (notifyDirty r (set_index r ix st)) \<and>
    phashBlock ix = None \<and> pprev ix = prev \<and> nHeight ix = (case prev of None \<Rightarrow> 0 | Some p \<Rightarrow> nHeight (heap st p) + 1) \<and>
    pskip ix = skip_of (heap st) ix \<and> nTimeMax ix = time_max_of (heap st) ix \<and> length (nChainWork ix) = 8 \<and>
    base_val (nChainWork ix) = (prev_work (heap st) prev + block_work (nBits block)) mod 2 ^ 256 \<and> soft_ok ix \<and>
    index_nVersion ix = nBlockVersion block \<and> index_hashMerkleRoot ix = hashMerkleRoot block \<and>
    index_nTime ix = nTime block \<and> index_nBits ix = nBits block \<and> index_nNonce ix = nNonce block"
proof -
  let ?hp = "heap st"
  have p: "linked ?hp p" "length (nChainWork (?hp p)) = 8" if "prev = Some p" for p
    using that assms store_ok_linked [of st p] store_ok_entry [of st p] by (auto simp: entry_ok_def)
  note fields = CBlockIndex_of_header_def CBlockIndex_default_def
  let ?step = "case prev of None \<Rightarrow> Inr (CBlockIndex_of_header block)
    | Some p \<Rightarrow> let ix = CBlockIndex_of_header block\<lparr>pprev := Some p, nHeight := nHeight (?hp p) + 1\<rparr>
        in bindE (BuildSkipNL ?hp ix) (SetSoftRejectedFromParentBaseNL ?hp)"
  have "\<exists>ix. ?step = Inr ix \<and> phashBlock ix = None \<and> pprev ix = prev \<and>
    nHeight ix = (case prev of None \<Rightarrow> 0 | Some p \<Rightarrow> nHeight (?hp p) + 1) \<and> pskip ix = skip_of ?hp ix \<and> soft_ok ix \<and>
    (nStatus ix = 0 \<or> nStatus ix = HAS_SOFT_REJ_FLAG) \<and>
    index_nVersion ix = nBlockVersion block \<and> index_hashMerkleRoot ix = hashMerkleRoot block \<and>
    index_nTime ix = nTime block \<and> index_nBits ix = nBits block \<and> index_nNonce ix = nNonce block"
  proof (cases prev)
    case None
    then show ?thesis by (simp add: fields skip_of_def entry_defs)
  next
    case (Some q)
    let ?ix = "CBlockIndex_of_header block\<lparr>pprev := Some q, nHeight := nHeight (?hp q) + 1\<rparr>"
    have "BuildSkipNL ?hp ?ix = Inr (?ix\<lparr>pskip := skip_of ?hp ?ix\<rparr>)"
      using BuildSkipNL_val [of ?ix ?hp] p(1) Some by simp
    then show ?thesis using Some
      by (auto simp: SetSoftRejectedFromParentBaseNL_def ShouldBeConsideredSoftRejectedBecauseOfParentNL_def Let_def
          skip_of_def entry_defs fields) (auto simp: with_flag_def)
  qed
  then obtain ix where ix: "?step = Inr ix" "phashBlock ix = None" "pprev ix = prev"
      "nHeight ix = (case prev of None \<Rightarrow> 0 | Some p \<Rightarrow> nHeight (?hp p) + 1)" "pskip ix = skip_of ?hp ix" "soft_ok ix"
      "nStatus ix = 0 \<or> nStatus ix = HAS_SOFT_REJ_FLAG"
      "index_nVersion ix = nBlockVersion block" "index_hashMerkleRoot ix = hashMerkleRoot block"
      "index_nTime ix = nTime block" "index_nBits ix = nBits block" "index_nNonce ix = nNonce block" by blast
  define ix' where "ix' = ix\<lparr>nTimeReceived := time, nTimeMax := time_max_of ?hp ix\<rparr>"
  obtain w where w: "SetChainWorkNL ?hp ix' = Inr (ix'\<lparr>nChainWork := w\<rparr>)" "length w = 8"
      "base_val w = (prev_work ?hp prev + block_work (nBits block)) mod 2 ^ 256"
    using SetChainWorkNL_val [of ix' ?hp] p(2) ix(3,11) by (auto simp: ix'_def)
  have "CBlockIndex_new now time block prev r st = Inr (notifyDirty r (set_index r
      (ix'\<lparr>nChainWork := w, nStatus := withValidity VALIDITY_TREE (nStatus ix)\<rparr>) st))"
    unfolding CBlockIndex_new_def Let_def ix(1) [unfolded Let_def]
    using w(1) ix(7) by (simp add: ix'_def time_max_of_def raise_tree)
  moreover have "skip_of ?hp (ix'\<lparr>nChainWork := w, nStatus := s\<rparr>) = skip_of ?hp ix"
      "time_max_of ?hp (ix'\<lparr>nChainWork := w, nStatus := s\<rparr>) = time_max_of ?hp ix" for s
    by (rule derived_cong; simp add: ix'_def)+
  ultimately show ?thesis using w(2,3) ix
    by (intro exI [of _ "ix'\<lparr>nChainWork := w, nStatus := withValidity VALIDITY_TREE (nStatus ix)\<rparr>"] conjI)
      (simp_all add: ix'_def entry_defs)
qed

text \<open>\<open>Insert\<close> for a header that is not yet in the store: the new entry carries exactly the header.\<close>

lemma Insert_new:
  assumes ok: "store_ok st" and fresh: "alloc (ran (mStore st)) \<notin> ran (mStore st)" and new: "mStore st (header_GetHash block) = None"
    and prev: "hashPrevBlock block = null_hash \<or> mStore st (hashPrevBlock block) \<noteq> None"
  shows "\<exists>r st'. Insert alloc now time block st = Inr (r, st') \<and> store_ok st' \<and> r = alloc (ran (mStore st)) \<and>
    mStore st' = (mStore st)(header_GetHash block \<mapsto> r) \<and> index_header (heap st') (heap st' r) = block \<and>
    (\<forall>q \<in> ran (mStore st). heap st' q = heap st q)"
proof -
  let ?r = "alloc (ran (mStore st))" and ?h = "header_GetHash block" and ?p = "mStore st (hashPrevBlock block)" and ?hp = "heap st"
  have pR: "set_option ?p \<subseteq> ran (mStore st)" by (auto intro: ranI)
  obtain ix where ix: "CBlockIndex_new now time block ?p ?r st = Inr (notifyDirty ?r (set_index ?r ix st))"
    "phashBlock ix = None" "pprev ix = ?p" "nHeight ix = (case ?p of None \<Rightarrow> 0 | Some p \<Rightarrow> nHeight (heap st p) + 1)"
    "pskip ix = skip_of (heap st) ix" "nTimeMax ix = time_max_of (heap st) ix" "length (nChainWork ix) = 8"
    "base_val (nChainWork ix) = (prev_work (heap st) ?p + block_work (nBits block)) mod 2 ^ 256" "soft_ok ix"
    "index_nVersion ix = nBlockVersion block" "index_hashMerkleRoot ix = hashMerkleRoot block"
    "index_nTime ix = nTime block" "index_nBits ix = nBits block" "index_nNonce ix = nNonce block"
    using new_entry [OF ok pR, of now time block ?r] by blast
  define ix' where "ix' = ix\<lparr>phashBlock := Some ?h\<rparr>"
  define hp' where "hp' = ?hp(?r := ix')"
  define R' where "R' = insert ?r (ran (mStore st))"
  obtain st' where st': "Insert alloc now time block st = Inr (?r, st')" "heap st' = hp'" "mStore st' = (mStore st)(?h \<mapsto> ?r)"
  proof -
    have "\<exists>st'. Insert alloc now time block st = Inr (?r, st') \<and> heap st' = hp' \<and> mStore st' = (mStore st)(?h \<mapsto> ?r)"
      using prev ix(1) unfolding Insert_def Let_def new
      by (cases ?p) (auto simp: modify_index_def set_index_def notifyDirty_def hp'_def ix'_def)
    then show thesis using that by blast
  qed
  have R': "ran (mStore st') = R'" unfolding st'(3) R'_def using new by (rule ran_map_upd)
  have same: "hp' q = ?hp q" if "q \<in> ran (mStore st)" for q using that fresh by (auto simp: hp'_def)
  have np: "nth_prev hp' n q = nth_prev ?hp n q" if "q \<in> ran (mStore st)" for n q
    by (rule nth_prev_frame [OF _ that]) (use same store_ok_closed [OF ok] in auto)
  have p: "p \<in> ran (mStore st)" "phashBlock (?hp p) = Some (hashPrevBlock block)" "0 \<le> nHeight (?hp p)" if "?p = Some p" for p
  proof -
    have "entry_ok ?hp (ran (mStore st)) (hashPrevBlock block) p" using ok that by (simp add: store_ok_def)
    then show "p \<in> ran (mStore st)" "phashBlock (?hp p) = Some (hashPrevBlock block)" "0 \<le> nHeight (?hp p)"
      using that unfolding entry_ok_def by (blast intro: ranI)+
  qed
  have header: "index_header hp' ix' = block"
    using ix prev p(2) same [OF p(1)] by (auto simp: index_header_def ix'_def split: option.splits)
  have "skip_of hp' ix' = skip_of ?hp ix" "time_max_of hp' ix' = time_max_of ?hp ix" "prev_work hp' ?p = prev_work ?hp ?p"
    using ix(3) same [OF p(1)] np [OF p(1)] by (auto simp: skip_of_def time_max_of_def prev_work_def ix'_def split: option.splits)
  then have "entry_ok hp' R' ?h ?r"
    using ix header p pR same [OF p(1)] unfolding entry_ok_def
    by (auto simp: hp'_def ix'_def R'_def soft_ok_def IsSoftRejectedNL_def split: option.splits)
  moreover have "entry_ok hp' R' k q" if "mStore st k = Some q" for k q
  proof (rule entry_ok_frame)
    show e: "entry_ok ?hp (ran (mStore st)) k q" using ok that by (simp add: store_ok_def)
    show "q \<in> ran (mStore st)" using that by (rule ranI)
    then show "soft_ok (hp' q)" using e same by (simp add: entry_ok_def)
  qed (use same store_ok_closed [OF ok] R'_def in auto)
  ultimately have "store_ok st'" unfolding store_ok_def R' using ok st' by (auto simp: store_ok_def)
  with st' header same show ?thesis by (auto simp: hp'_def)
qed

text \<open>For a header that is in the store, nothing but the best header changes.\<close>

lemma Insert_old:
  assumes ok: "store_ok st" and old: "mStore st (header_GetHash block) = Some r"
    and prev: "hashPrevBlock block = null_hash \<or> mStore st (hashPrevBlock block) \<noteq> None"
  shows "\<exists>b. Insert alloc now time block st = Inr (r, st\<lparr>mBestHeader := b\<rparr>)"
proof -
  have "phashBlock (heap st r) = Some (header_GetHash block)" using ok old by (auto simp: store_ok_def entry_ok_def)
  then have "heap st r\<lparr>phashBlock := Some (header_GetHash block)\<rparr> = heap st r" by (cases "heap st r") simp
  then have "modify_index r (\<lambda>ix. ix\<lparr>phashBlock := Some (header_GetHash block)\<rparr>) st = st"
    by (simp add: modify_index_def set_index_def)
  then show ?thesis using prev unfolding Insert_def Let_def old
    by (cases "mStore st (hashPrevBlock block)") (auto intro: exI [of _ "mBestHeader st"])
qed

lemma harmless_best: "harmless st (st\<lparr>mBestHeader := b\<rparr>)" "harmless st (st\<lparr>mDirty := d\<rparr>)" "harmless st (SetBestHeader r st)"
  by (auto simp: harmless_def SetBestHeader_def)

text \<open>The calls that change the store, with the values of the clocks; entries are addressed by their hash.\<close>

datatype index_op =
    op_Insert u64 CBlockHeader | op_SetBestHeader block_ref | op_SetSequenceId int block_ref
  | op_SetChainTxAndSequenceId u32 int block_ref | op_SetDiskBlockData u64 "int \<times> u32" CDiskBlockMetaData block_ref
  | op_SetSoftRejectedFor int block_ref | op_SetSoftRejectedFromParent block_ref | op_SetChainWork block_ref
  | op_ClearFileInfo int block_ref | op_WithFailed block_ref | op_WithClearedFailed block_ref | op_WithFailedParent block_ref
  | op_IgnoreValidationTime block_ref | op_RaiseValidity BlockValidity block_ref
  | op_SetMetaData CDiskBlockMetaData block_ref | op_writeUndo "(int \<times> u32) option" bool block_ref
  | op_PostLoad block_ref | op_Extract

fun index_step :: "(block_ref set \<Rightarrow> block_ref) \<Rightarrow> BlockIndexStore \<Rightarrow> int \<times> index_op \<Rightarrow> cxx_exn + BlockIndexStore" where
  "index_step alloc st (now, op_Insert time block) = bindE (Insert alloc now time block st) (\<lambda>(r, st). Inr st)"
| "index_step alloc st (now, op_SetBestHeader r) = Inr (SetBestHeader r st)"
| "index_step alloc st (now, op_SetSequenceId n r) = Inr (SetSequenceId n r st)"
| "index_step alloc st (now, op_SetChainTxAndSequenceId c n r) = Inr (SetChainTxAndSequenceId c n r st)"
| "index_step alloc st (now, op_SetDiskBlockData k pos m r) = Inr (SetDiskBlockData now k pos m r st)"
| "index_step alloc st (now, op_SetSoftRejectedFor n r) = SetSoftRejectedFor n r st"
| "index_step alloc st (now, op_SetSoftRejectedFromParent r) = SetSoftRejectedFromParent r st"
| "index_step alloc st (now, op_SetChainWork r) = SetChainWork r st"
| "index_step alloc st (now, op_ClearFileInfo f r) = Inr (snd (ClearFileInfoIfFileNumberEquals f r st))"
| "index_step alloc st (now, op_WithFailed r) = Inr (ModifyStatusWithFailed r st)"
| "index_step alloc st (now, op_WithClearedFailed r) = Inr (ModifyStatusWithClearedFailedFlags r st)"
| "index_step alloc st (now, op_WithFailedParent r) = Inr (ModifyStatusWithFailedParent r st)"
| "index_step alloc st (now, op_IgnoreValidationTime r) = Inr (IgnoreValidationTime r st)"
| "index_step alloc st (now, op_RaiseValidity v r) = Inr (snd (RaiseValidityNL now v r st))"
| "index_step alloc st (now, op_SetMetaData m r) = SetBlockIndexFileMetaDataIfNotSetNL m r st"
| "index_step alloc st (now, op_writeUndo u w r) = Inr (snd (writeUndoToDisk now u w r st))"
| "index_step alloc st (now, op_PostLoad r) = bindE (PostLoadIndexConnect r st) (\<lambda>(b, st). Inr st)"
| "index_step alloc st (now, op_Extract) = Inr (snd (Extract st))"

text \<open>Entries outside of the store do not matter to it.\<close>

lemma harmless_outside: "r \<notin> ran (mStore st) \<Longrightarrow> harmless st (set_index r ix st)"
  by (auto simp: harmless_def set_index_def)

lemma harmless_derived_any:
  assumes "store_ok st"
  shows "SetChainWork r st = Inr st' \<Longrightarrow> harmless st st'" "PostLoadIndexConnect r st = Inr (b, st') \<Longrightarrow> harmless st st'"
proof -
  assume s: "SetChainWork r st = Inr st'"
  then obtain ix where "st' = set_index r ix st" by (auto simp: SetChainWork_def bindE_eq_Inr)
  then show "harmless st st'" using harmless_derived(1) [OF assms _ s] harmless_outside [of r st ix] by blast
next
  assume s: "PostLoadIndexConnect r st = Inr (b, st')"
  then obtain ix where "st' = set_index r ix st"
    by (auto simp: PostLoadIndexConnect_def bindE_eq_Inr Let_def split: if_splits option.splits)
  then show "harmless st st'" using harmless_derived(2) [OF assms _ s] harmless_outside [of r st ix] by blast
qed

lemma index_step_ok:
  assumes "store_ok st" "finite (ran (mStore st)) \<Longrightarrow> alloc (ran (mStore st)) \<notin> ran (mStore st)" "index_step alloc st (now, x) = Inr st'"
  shows "store_ok st'"
proof (cases "\<exists>time block. x = op_Insert time block")
  case True
  then obtain time block r where x: "Insert alloc now time block st = Inr (r, st')"
    using assms(3) by (auto simp: bindE_eq_Inr)
  then have prev: "hashPrevBlock block = null_hash \<or> mStore st (hashPrevBlock block) \<noteq> None"
    by (auto simp: Insert_def Let_def split: if_splits)
  show ?thesis
  proof (cases "mStore st (header_GetHash block)")
    case None
    have "finite (ran (mStore st))" using assms(1) by (simp add: store_ok_def finite_ran)
    with Insert_new [OF assms(1) _ None prev, of alloc now time] assms(2) x show ?thesis by auto
  next
    case (Some q)
    then obtain b where "st' = st\<lparr>mBestHeader := b\<rparr>" using Insert_old [OF assms(1) Some prev, of alloc now time] x by auto
    with harmless_store_ok [OF assms(1) harmless_best(1)] show ?thesis by simp
  qed
next
  case False
  then have "harmless st st'"
    using assms(3) harmless_fallible harmless_derived_any [OF assms(1)]
    by (cases x) (auto simp: harmless_ops harmless_best harmless_raise harmless_refl Extract_def bindE_eq_Inr)
  with assms(1) show ?thesis by (rule harmless_store_ok)
qed

lemma runE_store_ok:
  assumes "\<And>S. finite S \<Longrightarrow> alloc S \<notin> S"
  shows "store_ok st \<Longrightarrow> runE (index_step alloc) st xs = Inr st' \<Longrightarrow> store_ok st'"
proof (induction xs arbitrary: st)
  case (Cons x xs)
  then obtain st1 where s: "index_step alloc st x = Inr st1" "runE (index_step alloc) st1 xs = Inr st'"
    by (auto simp: bindE_eq_Inr)
  have "store_ok st1" by (rule index_step_ok [OF Cons.prems(1), of alloc "fst x" "snd x"]) (simp_all add: s(1) assms)
  with Cons.IH s(2) show ?case by blast
qed simp

text \<open>C26. Invariant of the block index.  Start from the empty store and make any sequence of the public calls that
  change it or one of its entries, in any order and on any entries, as long as none of them fails an assertion; the
  allocator only has to return an unused address.  Then every entry is found under the hash of the header it carries,
  it is linked to height 0 through entries of the store, its skip pointer and its largest time are the right ones, its
  work is the work of its parent plus the expected number of hashes for its target, and its soft rejection flag
  agrees with its counter.  The private \<open>GetOrInsertNL\<close> and \<open>CBlockIndex_SetPrev\<close>, with which
  \<open>BlockIndexStoreLoader::ForceLoad\<close> fills the store from the database at startup, are not among the calls:
  they store entries without a header, which \<open>ForceLoad\<close> completes from the disk.\<close>

theorem block_index_invariant:
  assumes "\<And>S. finite S \<Longrightarrow> alloc S \<notin> S" "runE (index_step alloc) (empty_store hp) calls = Inr st" "mStore st h = Some r"
  shows "entry_ok (heap st) (ran (mStore st)) h r \<and> linked (heap st) r"
proof -
  have "store_ok (empty_store hp)" by (simp add: store_ok_def empty_store_def)
  from runE_store_ok [OF assms(1) this assms(2)] have "store_ok st" .
  with assms(3) store_ok_linked [of st r] ranI [of "mStore st" h r] show ?thesis by (simp add: store_ok_def)
qed

definition first_fresh :: "block_ref set \<Rightarrow> block_ref" where
  "first_fresh S = (if S = {} then 0 else Suc (Max S))"

lemma first_fresh: "finite S \<Longrightarrow> first_fresh S \<notin> S"
  by (auto simp: first_fresh_def dest: Max_ge)

theorem block_index_invariant_witness:
  "\<exists>hp calls st h r. length calls = 2 \<and> runE (index_step first_fresh) (empty_store hp) calls = Inr st \<and> mStore st h = Some r \<and>
     entry_ok (heap st) (ran (mStore st)) h r \<and> linked (heap st) r"
proof -
  let ?e = "empty_store (\<lambda>_. CBlockIndex_default)" and ?g = "CBlockHeader_null\<lparr>nBits := 0x1d00ffff\<rparr>"
  have e: "store_ok ?e" by (simp add: store_ok_def empty_store_def)
  have "first_fresh (ran (mStore ?e)) \<notin> ran (mStore ?e)" by (simp add: empty_store_def)
  from Insert_new [of ?e first_fresh, OF e this, of ?g 5 7] obtain r st where
    r: "Insert first_fresh 5 7 ?g ?e = Inr (r, st)" "mStore st (header_GetHash ?g) = Some r"
    by (auto simp: empty_store_def CBlockHeader_null_def)
  let ?calls = "[(5, op_Insert 7 ?g), (6, op_WithFailed r)]" and ?st = "ModifyStatusWithFailed r st"
  have run: "runE (index_step first_fresh) ?e ?calls = Inr ?st" by (simp add: r(1))
  have m: "mStore ?st (header_GetHash ?g) = Some r"
    using r(2) by (simp add: ModifyStatusWithFailed_def notifyDirty_def modify_index_def set_index_def)
  have "length ?calls = 2" by simp
  with block_index_invariant [OF first_fresh run m] run m show ?thesis by blast
qed

end
