(* ===== verification/Chain.thy ===== *)
theory Chain
  imports Block_Index_Store
begin

text \<open>
  The active chain: \<open>src/src/chain.h\<close> and \<open>chain.cpp\<close>.  The vector of the chain is updated from its
  end only down to the first entry that is already right; it is shown to hold exactly the
  ancestors of the tip, and the lookups to agree with walking the index.
\<close>

record CChain =
  vChain :: "block_ref option list"
  mChainTip :: "block_ref option"

definition empty_chain :: CChain where
  "empty_chain = \<lparr>vChain = [], mChainTip = None\<rparr>"

definition Genesis :: "CChain \<Rightarrow> block_ref option" where
  "Genesis ch = (if length (vChain ch) > 0 then vChain ch ! 0 else None)"

definition chain_at :: "CChain \<Rightarrow> int \<Rightarrow> block_ref option" where
  "chain_at ch h = (if h < 0 \<or> h \<ge> int (length (vChain ch)) then None else vChain ch ! nat h)"

definition Contains :: "index_heap \<Rightarrow> CChain \<Rightarrow> block_ref \<Rightarrow> bool" where
  "Contains hp ch pindex \<longleftrightarrow> chain_at ch (nHeight (hp pindex)) = Some pindex"

definition Next :: "index_heap \<Rightarrow> CChain \<Rightarrow> block_ref \<Rightarrow> block_ref option" where
  "Next hp ch pindex = (if \<not> Contains hp ch pindex then None else chain_at ch (nHeight (hp pindex) + 1))"

definition Height :: "index_heap \<Rightarrow> CChain \<Rightarrow> int" where
  "Height hp ch = (case mChainTip ch of None \<Rightarrow> - 1 | Some tip \<Rightarrow> nHeight (hp tip))"

text \<open>Comparison reads the last element of both vectors, \<open>None\<close> when there is none.\<close>

definition chain_equal :: "CChain \<Rightarrow> CChain \<Rightarrow> bool option" where
  "chain_equal a b =
     (if length (vChain a) = length (vChain b) then
        if vChain a = [] then None else Some (last (vChain a) = last (vChain b))
      else Some False)"

text \<open>The loop of \<open>SetTip\<close>; it is \<open>None\<close> when the fuel runs out or the vector is indexed outside of its range.\<close>

fun set_tip_loop :: "index_heap \<Rightarrow> nat \<Rightarrow> block_ref option \<Rightarrow> block_ref option list \<Rightarrow> block_ref option list option" where
  "set_tip_loop hp fuel None v = Some v"
| "set_tip_loop hp fuel (Some pindex) v =
     (let h = nHeight (hp pindex)
      in if h < 0 \<or> h \<ge> int (length v) then None
         else if v ! nat h \<noteq> Some pindex then
           case fuel of 0 \<Rightarrow> None
           | Suc fuel \<Rightarrow> set_tip_loop hp fuel (pprev (hp pindex)) (v[nat h := Some pindex])
         else Some v)"

definition SetTip :: "index_heap \<Rightarrow> nat \<Rightarrow> block_ref option \<Rightarrow> CChain \<Rightarrow> CChain option" where
  "SetTip hp fuel pindex ch =
     (case pindex of None \<Rightarrow> Some (ch\<lparr>mChainTip := None, vChain := []\<rparr>)
      | Some tip \<Rightarrow>
          let n = nat (nHeight (hp tip) + 1);
              v = take n (vChain ch) @ replicate (n - length (vChain ch)) None
          in map_option (\<lambda>v. ch\<lparr>mChainTip := Some tip, vChain := v\<rparr>) (set_tip_loop hp fuel (Some tip) v))"

fun find_fork_loop :: "index_heap \<Rightarrow> CChain \<Rightarrow> nat \<Rightarrow> block_ref option \<Rightarrow> block_ref option option" where
  "find_fork_loop hp ch fuel None = Some None"
| "find_fork_loop hp ch fuel (Some pindex) =
     (if \<not> Contains hp ch pindex then
        case fuel of 0 \<Rightarrow> None | Suc fuel \<Rightarrow> find_fork_loop hp ch fuel (pprev (hp pindex))
      else Some (Some pindex))"

definition FindFork :: "index_heap \<Rightarrow> nat \<Rightarrow> CChain \<Rightarrow> block_ref option \<Rightarrow> (cxx_exn + block_ref option) option" where
  "FindFork hp fuel ch pindex =
     (case pindex of None \<Rightarrow> Some (Inr None)
      | Some p \<Rightarrow>
          (case (if nHeight (hp p) > Height hp ch then GetAncestor hp p (Height hp ch) else Inr (Some p)) of
             Inl e \<Rightarrow> Some (Inl e)
           | Inr q \<Rightarrow> map_option Inr (find_fork_loop hp ch fuel q)))"

text \<open>\<open>nStep\<close> is an \<open>int\<close> of the source.  Its last doubling may exceed 32 bits, but only when the step
  before has already reached height 0, and then it is not used again.\<close>

fun locator_loop :: "index_heap \<Rightarrow> CChain \<Rightarrow> nat \<Rightarrow> int \<Rightarrow> uint256 list \<Rightarrow> block_ref option \<Rightarrow> (cxx_exn + uint256 list) option" where
  "locator_loop hp ch fuel nStep vHave None = Some (Inr vHave)"
| "locator_loop hp ch fuel nStep vHave (Some pindex) =
     (let vHave = vHave @ [the (phashBlock (hp pindex))]
      in if nHeight (hp pindex) = 0 then Some (Inr vHave)
         else let nHeight' = max (nHeight (hp pindex) - nStep) 0
           in case (if Contains hp ch pindex then Inr (chain_at ch nHeight') else GetAncestor hp pindex nHeight') of
                Inl e \<Rightarrow> Some (Inl e)
              | Inr pindex \<Rightarrow>
                  (case fuel of 0 \<Rightarrow> None
                   | Suc fuel \<Rightarrow> locator_loop hp ch fuel (if length vHave > 10 then nStep * 2 else nStep) vHave pindex))"

definition GetLocator :: "index_heap \<Rightarrow> nat \<Rightarrow> CChain \<Rightarrow> block_ref option \<Rightarrow> (cxx_exn + uint256 list) option" where
  "GetLocator hp fuel ch pindex =
     locator_loop hp ch fuel 1 [] (case pindex of None \<Rightarrow> mChainTip ch | Some p \<Rightarrow> Some p)"

text \<open>The binary search of \<open>std::lower_bound\<close>.\<close>

function lower_bound :: "('a \<Rightarrow> bool) \<Rightarrow> 'a list \<Rightarrow> nat \<Rightarrow> nat \<Rightarrow> nat" where
  "lower_bound cmp v first count =
     (if count > 0 then
        let step = count div 2; i = first + step
        in if cmp (v ! i) then lower_bound cmp v (i + 1) (count - (step + 1))
           else lower_bound cmp v first step
      else first)"
  by pat_completeness auto
termination by (relation "measure (\<lambda>(_, _, _, count). count)") auto

declare lower_bound.simps [simp del]

definition FindEarliestAtLeast :: "index_heap \<Rightarrow> CChain \<Rightarrow> int \<Rightarrow> block_ref option" where
  "FindEarliestAtLeast hp ch time =
     (let lower = lower_bound (\<lambda>b. int (unat (nTimeMax (hp (the b)))) < time) (vChain ch) 0 (length (vChain ch))
      in if lower = length (vChain ch) then None else vChain ch ! lower)"

declare set_tip_loop.simps(2) [simp del] find_fork_loop.simps(2) [simp del] locator_loop.simps(2) [simp del]

subsection \<open>The chain of a tip\<close>

definition chain_ok :: "index_heap \<Rightarrow> CChain \<Rightarrow> bool" where
  "chain_ok hp ch \<longleftrightarrow>
     (case mChainTip ch of None \<Rightarrow> vChain ch = []
      | Some tip \<Rightarrow> linked hp tip \<and> vChain ch = map (\<lambda>i. nth_prev hp (nat (nHeight (hp tip)) - i) tip) [0 ..< nat (nHeight (hp tip)) + 1])"

lemma nth_prev_trans: "nth_prev hp m r = Some q \<Longrightarrow> nth_prev hp n q = nth_prev hp (m + n) r"
  by (simp add: nth_prev_add)

lemma diff_bound: "i \<le> n - Suc k \<Longrightarrow> n - k \<noteq> 0 \<Longrightarrow> i < n - (k :: nat)"
  by linarith

lemma diff_bound2: "i \<noteq> n - k \<Longrightarrow> n - Suc k < i \<Longrightarrow> n - (k :: nat) < i"
  by linarith

lemma set_tip_loop_ok:
  assumes "linked hp tip" "length v = nat (nHeight (hp tip)) + 1" "k \<le> nat (nHeight (hp tip))" "nth_prev hp k tip = Some p"
    "\<And>i. i \<le> nat (nHeight (hp tip)) \<Longrightarrow> nat (nHeight (hp tip)) - k < i \<Longrightarrow> v ! i = nth_prev hp (nat (nHeight (hp tip)) - i) tip"
    "\<And>i q j. i \<le> nat (nHeight (hp tip)) - k \<Longrightarrow> v ! i = Some q \<Longrightarrow> j \<le> i \<Longrightarrow> v ! j = nth_prev hp (i - j) q"
    "nat (nHeight (hp tip)) - k < fuel"
  shows "set_tip_loop hp fuel (Some p) v = Some (map (\<lambda>i. nth_prev hp (nat (nHeight (hp tip)) - i) tip) [0 ..< nat (nHeight (hp tip)) + 1])"
  using assms(2-)
proof (induction fuel arbitrary: k p v)
  case (Suc fuel)
  let ?H = "nat (nHeight (hp tip))"
  have H: "0 \<le> nHeight (hp tip)" using linked_height [OF assms(1)] .
  have p: "linked hp p" "nHeight (hp p) = nHeight (hp tip) - int k" using ancestor_height [OF assms(1) Suc.prems(3)] .
  then have h: "nat (nHeight (hp p)) = ?H - k" "\<not> nHeight (hp p) < 0" "\<not> nHeight (hp p) \<ge> int (length v)" using Suc.prems(1,2) H by auto
  show ?case
  proof (cases "v ! (?H - k) = Some p")
    case True
    have "v ! i = nth_prev hp (?H - i) tip" if "i \<le> ?H" for i
    proof (cases "i \<le> ?H - k")
      case le: True
      have "v ! i = nth_prev hp (?H - k - i) p" by (rule Suc.prems(5) [OF order_refl True le])
      also have "\<dots> = nth_prev hp (k + (?H - k - i)) tip" by (rule nth_prev_trans [OF Suc.prems(3)])
      finally show ?thesis using Suc.prems(2) le by (simp add: algebra_simps)
    qed (use Suc.prems(4) that in auto)
    then have "v = map (\<lambda>i. nth_prev hp (?H - i) tip) [0 ..< ?H + 1]" using Suc.prems(1) by (intro nth_equalityI) (auto simp del: upt_Suc)
    with True h show ?thesis by (simp add: set_tip_loop.simps(2) [of hp "Suc fuel" p] Let_def del: upt_Suc)
  next
    case False
    let ?v = "v[?H - k := Some p]"
    have new: "?v ! (?H - k) = nth_prev hp (?H - (?H - k)) tip" using Suc.prems(1-3) by simp
    show ?thesis
    proof (cases "?H - k = 0")
      case True
      then have "pprev (hp p) = None" using linked_root [OF p(1)] h by simp
      moreover have "?v = map (\<lambda>i. nth_prev hp (?H - i) tip) [0 ..< ?H + 1]"
        using Suc.prems(1,4) new True by (intro nth_equalityI) (auto simp: nth_list_update simp del: upt_Suc)
      ultimately show ?thesis using False h by (simp add: set_tip_loop.simps(2) [of hp "Suc fuel" p] Let_def del: upt_Suc)
    next
      case pos: False
      then have "nHeight (hp p) \<noteq> 0" using h(1) by auto
      then obtain q where q: "pprev (hp p) = Some q" using linked_parent [OF p(1)] by blast
      have k: "?H - Suc k = ?H - k - 1" "Suc k \<le> ?H" using pos Suc.prems(2) by auto
      have "set_tip_loop hp fuel (Some q) ?v = Some (map (\<lambda>i. nth_prev hp (?H - i) tip) [0 ..< ?H + 1])"
      proof (rule Suc.IH [of _ "Suc k"])
        show "nth_prev hp (Suc k) tip = Some q" using nth_prev_trans [OF Suc.prems(3), of "Suc 0"] q by simp
        show "?v ! i = nth_prev hp (?H - i) tip" if "i \<le> ?H" "?H - Suc k < i" for i
        proof (cases "i = ?H - k")
          case neq: False
          then have "?H - k < i" using that(2) by (rule diff_bound2)
          with Suc.prems(4) [OF that(1) this] neq show ?thesis by simp
        qed (use new in simp)
        show "?v ! j = nth_prev hp (i - j) x" if "i \<le> ?H - Suc k" "?v ! i = Some x" "j \<le> i" for i x j
        proof -
          have "i < ?H - k" by (rule diff_bound [OF that(1) pos])
          with that(3) have n: "i \<noteq> ?H - k" "j \<noteq> ?H - k" "i \<le> ?H - k" by simp_all
          with Suc.prems(5) [OF n(3) _ that(3)] that(2) show ?thesis by simp
        qed
      qed (use Suc.prems(1,2,6) k in simp_all)
      then show ?thesis using False h q by (simp add: set_tip_loop.simps(2) [of hp "Suc fuel" p] Let_def del: upt_Suc)
    qed
  qed
qed simp

text \<open>An old chain of another tip, cut or padded to the new length, is a prefix of ancestors and nulls.\<close>

lemma chain_ok_nth:
  assumes "chain_ok hp ch" "i < length (vChain ch)" "vChain ch ! i = Some q" "j \<le> i"
  shows "vChain ch ! j = nth_prev hp (i - j) q"
proof -
  from assms(1,2) obtain tip where tip: "linked hp tip"
      "vChain ch = map (\<lambda>i. nth_prev hp (nat (nHeight (hp tip)) - i) tip) [0 ..< nat (nHeight (hp tip)) + 1]"
    by (auto simp: chain_ok_def split: option.splits)
  let ?H = "nat (nHeight (hp tip))"
  have i: "i \<le> ?H" "nth_prev hp (?H - i) tip = Some q" using assms(2,3) by (auto simp: tip(2) simp del: upt_Suc)
  have "vChain ch ! j = nth_prev hp (?H - j) tip" using i(1) assms(4) by (simp add: tip(2) del: upt_Suc)
  also have "?H - j = ?H - i + (i - j)" using i(1) assms(4) by simp
  also have "nth_prev hp \<dots> tip = nth_prev hp (i - j) q" using nth_prev_trans [OF i(2)] by simp
  finally show ?thesis .
qed

text \<open>C30. \<open>SetTip\<close> moves the chain to any linked tip.  It starts from a vector that holds the ancestors of the old
  tip and stops at the first entry that is already right; still the vector then holds, at every height, the
  ancestor of the new tip at that height, and nothing else.\<close>

theorem SetTip_correct:
  assumes "chain_ok hp ch" "linked hp tip" "nHeight (hp tip) < int fuel"
  shows "\<exists>ch'. SetTip hp fuel (Some tip) ch = Some ch' \<and> chain_ok hp ch' \<and> mChainTip ch' = Some tip"
proof -
  let ?H = "nat (nHeight (hp tip))"
  have H: "0 \<le> nHeight (hp tip)" using linked_height [OF assms(2)] .
  then have n: "nat (nHeight (hp tip) + 1) = ?H + 1" by simp
  let ?v = "take (?H + 1) (vChain ch) @ replicate (?H + 1 - length (vChain ch)) None"
  have "set_tip_loop hp fuel (Some tip) ?v = Some (map (\<lambda>i. nth_prev hp (?H - i) tip) [0 ..< ?H + 1])"
  proof (rule set_tip_loop_ok [OF assms(2), where k = 0])
    show "?v ! j = nth_prev hp (i - j) q" if "i \<le> ?H - 0" "?v ! i = Some q" "j \<le> i" for i q j
      using that chain_ok_nth [OF assms(1), of i q j] by (auto simp: nth_append split: if_splits)
  qed (use assms(3) H in auto)
  then show ?thesis using assms(2) n by (simp add: SetTip_def Let_def chain_ok_def del: upt_Suc)
qed

theorem SetTip_correct_witness:
  "\<exists>ch'. chain_ok straight_chain empty_chain \<and> SetTip straight_chain 10 (Some 7) empty_chain = Some ch' \<and> chain_ok straight_chain ch'"
  using SetTip_correct [of straight_chain empty_chain 7 10] by (auto simp: linked_straight chain_ok_def empty_chain_def)

lemma is_ancestor_trans: "is_ancestor hp x r \<Longrightarrow> is_ancestor hp r tip \<Longrightarrow> is_ancestor hp x tip"
  unfolding is_ancestor_def by (metis nth_prev_trans)

lemma chain_at_ok:
  assumes "chain_ok hp ch" "mChainTip ch = Some tip"
  shows "chain_at ch h = (if 0 \<le> h \<and> h \<le> nHeight (hp tip) then nth_prev hp (nat (nHeight (hp tip) - h)) tip else None)"
proof -
  have "linked hp tip" "vChain ch = map (\<lambda>i. nth_prev hp (nat (nHeight (hp tip)) - i) tip) [0 ..< nat (nHeight (hp tip)) + 1]"
    using assms by (simp_all add: chain_ok_def)
  moreover have "nat (nHeight (hp tip)) - nat h = nat (nHeight (hp tip) - h)" if "0 \<le> h" using that by auto
  ultimately show ?thesis using linked_height [of hp tip] by (auto simp: chain_at_def simp del: upt_Suc)
qed

lemma Contains_ancestor:
  assumes "chain_ok hp ch" "linked hp r"
  shows "Contains hp ch r \<longleftrightarrow> (\<exists>tip. mChainTip ch = Some tip \<and> is_ancestor hp r tip)"
proof (cases "mChainTip ch")
  case None
  then show ?thesis using assms(1) by (auto simp: Contains_def chain_at_def chain_ok_def)
next
  case (Some tip)
  then have "linked hp tip" using assms(1) by (simp add: chain_ok_def)
  then show ?thesis using Some linked_height [OF assms(2)]
    by (auto simp: Contains_def chain_at_ok [OF assms(1) Some] is_ancestor_at)
qed

lemma find_fork_loop_last:
  assumes "chain_ok hp ch" "mChainTip ch = Some tip" "linked hp r" "nHeight (hp r) < int fuel"
  shows "\<exists>c. find_fork_loop hp ch fuel (Some r) = Some c \<and> last_common hp tip r c"
  using assms(3,4)
proof (induction fuel arbitrary: r)
  case (Suc fuel)
  have tip: "linked hp tip" using assms(1,2) by (simp add: chain_ok_def)
  show ?case
  proof (cases "Contains hp ch r")
    case True
    then have "is_ancestor hp r tip" using Contains_ancestor [OF assms(1) Suc.prems(1)] assms(2) by simp
    then have "is_ancestor hp x tip \<and> is_ancestor hp x r \<longleftrightarrow> is_ancestor hp x r" for x
      using is_ancestor_trans [of hp x r tip] by blast
    with True show ?thesis by (simp add: last_common_def find_fork_loop.simps(2))
  next
    case False
    then have n: "\<not> is_ancestor hp r tip" using Contains_ancestor [OF assms(1) Suc.prems(1)] assms(2) by simp
    show ?thesis
    proof (cases "pprev (hp r)")
      case None
      have "\<not> (is_ancestor hp x tip \<and> is_ancestor hp x r)" for x using is_ancestor_step [of hp x r] None n by auto
      then show ?thesis using False None by (simp add: last_common_def find_fork_loop.simps(2) [of hp ch "Suc fuel" r])
    next
      case (Some p)
      then have "nHeight (hp r) \<noteq> 0" using linked_root [OF Suc.prems(1)] by auto
      from linked_parent [OF Suc.prems(1) this] Some Suc.prems(2) have "linked hp p" "nHeight (hp p) < int fuel" by auto
      from Suc.IH [OF this] obtain c where c: "find_fork_loop hp ch fuel (Some p) = Some c" "last_common hp tip p c" by blast
      have "is_ancestor hp x tip \<and> is_ancestor hp x r \<longleftrightarrow> is_ancestor hp x tip \<and> is_ancestor hp x p" for x
        using is_ancestor_step [of hp x r] Some n by auto
      with c(2) have "last_common hp tip r c" by (simp add: last_common_def)
      with c(1) False Some show ?thesis by (simp add: find_fork_loop.simps(2) [of hp ch "Suc fuel" r])
    qed
  qed
qed (auto dest: linked_height)

lemma nth_prev_snoc: "nth_prev hp n r = Some q \<Longrightarrow> nth_prev hp (Suc n) r = pprev (hp q)"
proof (induction n arbitrary: r)
  case (Suc n)
  then show ?case by (cases "pprev (hp r)") auto
qed (simp split: option.split)

lemma next_ancestor:
  assumes "linked hp tip"
  shows "is_ancestor hp r tip \<and> nHeight (hp r) + 1 \<le> nHeight (hp tip) \<and>
      nth_prev hp (nat (nHeight (hp tip) - (nHeight (hp r) + 1))) tip = Some q \<longleftrightarrow>
    is_ancestor hp q tip \<and> pprev (hp q) = Some r"
proof
  let ?n = "nat (nHeight (hp tip) - (nHeight (hp r) + 1))"
  assume a: "is_ancestor hp r tip \<and> nHeight (hp r) + 1 \<le> nHeight (hp tip) \<and> nth_prev hp ?n tip = Some q"
  then have "nth_prev hp (nat (nHeight (hp tip) - nHeight (hp r))) tip = Some r" by (simp add: is_ancestor_at [OF assms])
  moreover have "nHeight (hp r) + 1 \<le> nHeight (hp tip)" using a by blast
  then have "nat (nHeight (hp tip) - nHeight (hp r)) = Suc ?n" by simp
  ultimately have "pprev (hp q) = Some r" using nth_prev_snoc [of hp ?n tip q] a by simp
  with a show "is_ancestor hp q tip \<and> pprev (hp q) = Some r" by (auto simp: is_ancestor_def)
next
  assume a: "is_ancestor hp q tip \<and> pprev (hp q) = Some r"
  then obtain n where n: "nth_prev hp n tip = Some q" by (auto simp: is_ancestor_def)
  then have s: "nth_prev hp (Suc n) tip = Some r" using a nth_prev_snoc [of hp n tip q] by simp
  have h: "nHeight (hp r) = nHeight (hp tip) - int (Suc n)" using ancestor_height(2) [OF assms s] .
  then have e: "nat (nHeight (hp tip) - (nHeight (hp r) + 1)) = n" "nHeight (hp r) + 1 \<le> nHeight (hp tip)" by simp_all
  have "is_ancestor hp r tip" using s unfolding is_ancestor_def by blast
  with n e(2) show "is_ancestor hp r tip \<and> nHeight (hp r) + 1 \<le> nHeight (hp tip) \<and>
      nth_prev hp (nat (nHeight (hp tip) - (nHeight (hp r) + 1))) tip = Some q"
    unfolding e(1) by blast
qed

text \<open>C31. \<open>Contains\<close>, \<open>Next\<close> and \<open>FindFork\<close> agree with the index.  An entry is in the chain exactly when it is an ancestor
  of the tip; its successor in the chain is the child that leads to the tip; and the fork point of any linked entry
  is its last common ancestor with the tip.\<close>

theorem FindFork_correct:
  assumes "chain_ok hp ch" "mChainTip ch = Some tip" "linked hp r" "nHeight (hp r) < int fuel"
  shows "(Contains hp ch r \<longleftrightarrow> is_ancestor hp r tip) \<and>
    (\<forall>q. Next hp ch r = Some q \<longleftrightarrow> is_ancestor hp q tip \<and> pprev (hp q) = Some r) \<and>
    (\<exists>c. FindFork hp fuel ch (Some r) = Some (Inr c) \<and> last_common hp tip r c)"
proof (intro conjI allI)
  have tip: "linked hp tip" using assms(1,2) by (simp add: chain_ok_def)
  show c: "Contains hp ch r \<longleftrightarrow> is_ancestor hp r tip" using Contains_ancestor [OF assms(1,3)] assms(2) by simp
  show "Next hp ch r = Some q \<longleftrightarrow> is_ancestor hp q tip \<and> pprev (hp q) = Some r" for q
  proof -
    have "Next hp ch r = Some q \<longleftrightarrow> is_ancestor hp r tip \<and> nHeight (hp r) + 1 \<le> nHeight (hp tip) \<and>
        nth_prev hp (nat (nHeight (hp tip) - (nHeight (hp r) + 1))) tip = Some q"
      unfolding Next_def c chain_at_ok [OF assms(1,2)] using linked_height [OF assms(3)] by simp
    then show ?thesis unfolding next_ancestor [OF tip] .
  qed
  show "\<exists>c. FindFork hp fuel ch (Some r) = Some (Inr c) \<and> last_common hp tip r c"
  proof (cases "nHeight (hp r) > nHeight (hp tip)")
    case True
    then obtain q where q: "nth_prev hp (nat (nHeight (hp r) - nHeight (hp tip))) r = Some q" "linked hp q" "nHeight (hp q) = nHeight (hp tip)"
      using linked_nth_prev [OF assms(3), of "nat (nHeight (hp r) - nHeight (hp tip))"] linked_height [OF tip] by auto
    have "nHeight (hp q) < int fuel" using q(3) True assms(4) by simp
    from find_fork_loop_last [OF assms(1,2) q(2) this] obtain c where
      f: "find_fork_loop hp ch fuel (Some q) = Some c" "last_common hp tip q c" by blast
    have "is_ancestor hp x tip \<and> is_ancestor hp x r \<longleftrightarrow> is_ancestor hp x tip \<and> is_ancestor hp x q" for x
      using lower_common [OF assms(3) tip _ q(1), of x] True by auto
    then have "last_common hp tip r c" using f(2) by (simp add: last_common_def)
    moreover have "GetAncestor hp r (nHeight (hp tip)) = Inr (Some q)"
      using q(1) True linked_height [OF tip] by (simp add: GetAncestor_nth_prev [OF assms(3)])
    ultimately show ?thesis using True f(1) assms(2) by (simp add: FindFork_def Height_def)
  next
    case False
    with find_fork_loop_last [OF assms] show ?thesis using assms(2) by (auto simp: FindFork_def Height_def)
  qed
qed

theorem FindFork_correct_witness:
  "\<exists>ch c. chain_ok straight_chain ch \<and> mChainTip ch = Some 3 \<and> FindFork straight_chain 6 ch (Some 5) = Some (Inr c) \<and>
     last_common straight_chain 3 5 c"
proof -
  obtain ch where ch: "chain_ok straight_chain ch" "mChainTip ch = Some 3"
  proof
    let ?H = "nat (nHeight (straight_chain 3))"
    show "chain_ok straight_chain \<lparr>vChain = map (\<lambda>i. nth_prev straight_chain (?H - i) 3) [0 ..< ?H + 1], mChainTip = Some 3\<rparr>"
      by (simp only: chain_ok_def CChain.simps option.case linked_straight simp_thms)
  qed simp
  have "nHeight (straight_chain 5) < int 6" by simp
  from FindFork_correct [OF ch linked_straight this] ch show ?thesis by blast
qed

subsection \<open>Locators\<close>

lemma contained_ancestor_at:
  assumes "chain_ok hp ch" "linked hp p" "Contains hp ch p" "0 \<le> h" "h \<le> nHeight (hp p)"
  shows "chain_at ch h = nth_prev hp (nat (nHeight (hp p) - h)) p"
proof -
  obtain tip where tip: "mChainTip ch = Some tip" "is_ancestor hp p tip" using assms Contains_ancestor by blast
  then have "linked hp tip" using assms(1) by (simp add: chain_ok_def)
  then have n: "nHeight (hp p) \<le> nHeight (hp tip)" "nth_prev hp (nat (nHeight (hp tip) - nHeight (hp p))) tip = Some p"
    using tip(2) by (simp_all add: is_ancestor_at)
  have "nat (nHeight (hp tip) - h) = nat (nHeight (hp tip) - nHeight (hp p)) + nat (nHeight (hp p) - h)" using n(1) assms(4,5) by simp
  then show ?thesis using assms(4,5) n nth_prev_trans [OF n(2)] by (simp add: chain_at_ok [OF assms(1) tip(1)])
qed

lemma locator_loop_ok:
  assumes "chain_ok hp ch" "linked hp p" "nHeight (hp p) < int fuel" "0 < step"
  shows "\<exists>qs. locator_loop hp ch fuel step have0 (Some p) = Some (Inr (have0 @ map (\<lambda>q. the (phashBlock (hp q))) qs)) \<and>
    qs \<noteq> [] \<and> hd qs = p \<and> nHeight (hp (last qs)) = 0 \<and> (\<forall>q \<in> set qs. is_ancestor hp q p) \<and>
    sorted_wrt (\<lambda>a b. nHeight (hp b) < nHeight (hp a)) qs"
  using assms(2-)
proof (induction fuel arbitrary: p step have0)
  case (Suc fuel)
  let ?have = "have0 @ [the (phashBlock (hp p))]"
  note loop = locator_loop.simps(2) [of hp ch "Suc fuel" step have0 p]
  show ?case
  proof (cases "nHeight (hp p) = 0")
    case True
    then show ?thesis by (intro exI [of _ "[p]"]) (simp add: loop Let_def)
  next
    case False
    let ?h = "max (nHeight (hp p) - step) 0"
    have h: "0 \<le> ?h" "?h < nHeight (hp p)" using False linked_height [OF Suc.prems(1)] Suc.prems(3) by auto
    obtain q where q: "nth_prev hp (nat (nHeight (hp p) - ?h)) p = Some q" "linked hp q" "nHeight (hp q) = ?h"
      using linked_nth_prev [OF Suc.prems(1), of "nat (nHeight (hp p) - ?h)"] h by auto
    have nxt: "(if Contains hp ch p then Inr (chain_at ch ?h) else GetAncestor hp p ?h) = Inr (Some q)"
      using contained_ancestor_at [OF assms(1) Suc.prems(1) _ h(1)] GetAncestor_nth_prev [OF Suc.prems(1), of ?h] h q(1) by auto
    let ?step = "if length ?have > 10 then step * 2 else step"
    have "nHeight (hp q) < int fuel" "0 < ?step" using q(3) h Suc.prems(2,3) by auto
    from Suc.IH [OF q(2) this, of ?have] obtain qs where
      qs: "locator_loop hp ch fuel ?step ?have (Some q) = Some (Inr (?have @ map (\<lambda>q. the (phashBlock (hp q))) qs))"
        "qs \<noteq> []" "hd qs = q" "nHeight (hp (last qs)) = 0" "\<forall>x \<in> set qs. is_ancestor hp x q"
        "sorted_wrt (\<lambda>a b. nHeight (hp b) < nHeight (hp a)) qs" by blast
    have "is_ancestor hp q p" using q(1) by (auto simp: is_ancestor_def)
    then have anc: "\<forall>x \<in> set qs. is_ancestor hp x p" using qs(5) is_ancestor_trans by blast
    have "\<forall>x \<in> set qs. nHeight (hp x) < nHeight (hp p)" using qs(5) is_ancestor_at [OF q(2)] q(3) h(2) by auto
    with False nxt qs anc show ?thesis by (intro exI [of _ "p # qs"]) (simp add: loop Let_def)
  qed
qed (auto dest: linked_height)

text \<open>C32. A block locator lists hashes of blocks from the block asked for down to the first one: every hash is that of
  an ancestor, the heights decrease strictly, and the last block has height 0.  The loop ends and never fails an
  assertion, whether the steps are taken in the chain or along the skip list.\<close>

theorem GetLocator_correct:
  assumes "chain_ok hp ch" "linked hp r" "nHeight (hp r) < int fuel"
  shows "\<exists>qs. GetLocator hp fuel ch (Some r) = Some (Inr (map (\<lambda>q. the (phashBlock (hp q))) qs)) \<and> qs \<noteq> [] \<and> hd qs = r \<and>
    nHeight (hp (last qs)) = 0 \<and> list_all (\<lambda>q. is_ancestor hp q r) qs \<and> sorted_wrt (\<lambda>a b. nHeight (hp b) < nHeight (hp a)) qs"
  using locator_loop_ok [OF assms, of 1 "[]"] by (auto simp: GetLocator_def list_all_iff)

theorem GetLocator_correct_witness:
  "\<exists>qs. chain_ok straight_chain empty_chain \<and> GetLocator straight_chain 31 empty_chain (Some 30) =
     Some (Inr (map (\<lambda>q. the (phashBlock (straight_chain q))) qs)) \<and> hd qs = 30 \<and> nHeight (straight_chain (last qs)) = 0"
proof -
  have c: "chain_ok straight_chain empty_chain" by (simp add: chain_ok_def empty_chain_def)
  have "nHeight (straight_chain 30) < int 31" by simp
  from GetLocator_correct [OF c linked_straight this] c show ?thesis by blast
qed

subsection \<open>Search by time\<close>

lemma lower_bound_partition:
  assumes mono: "\<And>i j. i \<le> j \<Longrightarrow> j < length v \<Longrightarrow> cmp (v ! j) \<Longrightarrow> cmp (v ! i)"
    and "first + count \<le> length v" "\<forall>i < first. cmp (v ! i)" "\<forall>i \<ge> first + count. i < length v \<longrightarrow> \<not> cmp (v ! i)"
  shows "lower_bound cmp v first count \<le> length v \<and> (\<forall>i < lower_bound cmp v first count. cmp (v ! i)) \<and>
    (\<forall>i \<ge> lower_bound cmp v first count. i < length v \<longrightarrow> \<not> cmp (v ! i))"
  using assms(2-)
proof (induction count arbitrary: first rule: less_induct)
  case (less count)
  note loop = lower_bound.simps [of cmp v first count]
  show ?case
  proof (cases "count > 0")
    case True
    let ?s = "count div 2"
    have s: "?s < count" "count - (?s + 1) < count" "first + ?s + 1 + (count - (?s + 1)) = first + count" "first + ?s < length v"
      using True less.prems(1) by linarith+
    show ?thesis
    proof (cases "cmp (v ! (first + ?s))")
      case c: True
      have "\<forall>i < first + ?s + 1. cmp (v ! i)" using mono [OF _ s(4) c] by (simp add: less_Suc_eq_le)
      note IH = less.IH [OF s(2), of "first + ?s + 1", unfolded s(3), OF less.prems(1) this less.prems(3)]
      have "lower_bound cmp v first count = lower_bound cmp v (first + ?s + 1) (count - (?s + 1))"
        unfolding loop Let_def using True c by (simp only: if_True)
      with IH show ?thesis by metis
    next
      case n: False
      have "\<forall>i \<ge> first + ?s. i < length v \<longrightarrow> \<not> cmp (v ! i)" 
      proof (intro allI impI notI)
        fix i assume "first + ?s \<le> i" "i < length v" "cmp (v ! i)"
        then have "cmp (v ! (first + ?s))" by (rule mono)
        with n show False by simp
      qed
      note IH = less.IH [OF s(1) less_imp_le [OF s(4)] less.prems(2) this]
      have "lower_bound cmp v first count = lower_bound cmp v first ?s"
        unfolding loop Let_def using True n by (simp only: if_True if_False)
      with IH show ?thesis by metis
    qed
  next
    case False
    then have "lower_bound cmp v first count = first" unfolding loop by (rule if_not_P)
    with less.prems False show ?thesis by simp
  qed
qed

lemma nth_prev_time_mono:
  assumes "\<And>q p. pprev (hp q) = Some p \<Longrightarrow> nTimeMax (hp p) \<le> nTimeMax (hp q)" "nth_prev hp n r = Some q"
  shows "nTimeMax (hp q) \<le> nTimeMax (hp r)"
  using assms(2)
proof (induction n arbitrary: r)
  case (Suc n)
  then obtain p where "pprev (hp r) = Some p" "nth_prev hp n p = Some q" by (auto split: option.splits)
  with Suc.IH assms(1) show ?case by (meson order_trans)
qed simp

text \<open>With times that never decrease along the chain, the search finds the lowest block with a large enough time.\<close>

lemma FindEarliestAtLeast_correct:
  assumes ok: "chain_ok hp ch" and tip: "mChainTip ch = Some tip"
    and mono: "\<And>q p. pprev (hp q) = Some p \<Longrightarrow> nTimeMax (hp p) \<le> nTimeMax (hp q)"
  shows "case FindEarliestAtLeast hp ch time of
      None \<Rightarrow> \<forall>q. is_ancestor hp q tip \<longrightarrow> int (unat (nTimeMax (hp q))) < time
    | Some b \<Rightarrow> is_ancestor hp b tip \<and> time \<le> int (unat (nTimeMax (hp b))) \<and>
        (\<forall>q. is_ancestor hp q tip \<and> time \<le> int (unat (nTimeMax (hp q))) \<longrightarrow> nHeight (hp b) \<le> nHeight (hp q))"
proof -
  let ?v = "vChain ch" and ?cmp = "\<lambda>b. int (unat (nTimeMax (hp (the b)))) < time" and ?H = "nat (nHeight (hp tip))"
  have lk: "linked hp tip" and v: "?v = map (\<lambda>i. nth_prev hp (?H - i) tip) [0 ..< ?H + 1]"
    using ok tip by (simp_all add: chain_ok_def)
  have at: "\<exists>q. ?v ! i = Some q \<and> is_ancestor hp q tip \<and> nHeight (hp q) = int i" if "i < length ?v" for i
    using linked_nth_prev [OF lk, of "?H - i"] that linked_height [OF lk] by (auto simp: v is_ancestor_def simp del: upt_Suc)
  have anc: "nHeight (hp q) = int (nat (nHeight (hp q))) \<and> nat (nHeight (hp q)) < length ?v \<and> ?v ! nat (nHeight (hp q)) = Some q"
    if q: "is_ancestor hp q tip" for q
  proof -
    obtain n where n: "nth_prev hp n tip = Some q" using q by (auto simp: is_ancestor_def)
    have h: "nHeight (hp q) = nHeight (hp tip) - int n" "0 \<le> nHeight (hp q)"
      using ancestor_height(2) [OF lk n] linked_height [OF ancestor_height(1) [OF lk n]] by simp_all
    then have "?H - nat (nHeight (hp q)) = n" "nat (nHeight (hp q)) < ?H + 1" by simp_all
    with n h(2) show ?thesis by (simp add: v del: upt_Suc)
  qed
  have m: "?cmp (?v ! i)" if ij: "i \<le> j" "j < length ?v" "?cmp (?v ! j)" for i j
  proof -
    obtain q where q: "?v ! j = Some q" using at [OF ij(2)] by blast
    have "?v ! i = nth_prev hp (j - i) q" by (rule chain_ok_nth [OF ok ij(2) q ij(1)])
    moreover obtain p where "?v ! i = Some p" using at [of i] ij by auto
    ultimately have "nTimeMax (hp p) \<le> nTimeMax (hp q)" using nth_prev_time_mono [of hp, OF mono] by simp
    with ij(3) q \<open>?v ! i = Some p\<close> show ?thesis by (simp add: word_le_def)
  qed
  let ?k = "lower_bound ?cmp ?v 0 (length ?v)"
  have k: "?k \<le> length ?v" "\<forall>i < ?k. ?cmp (?v ! i)" "\<forall>i \<ge> ?k. i < length ?v \<longrightarrow> \<not> ?cmp (?v ! i)"
    using lower_bound_partition [of ?v ?cmp 0 "length ?v", OF m] by auto
  show ?thesis
  proof (cases "?k = length ?v")
    case True
    have "int (unat (nTimeMax (hp q))) < time" if "is_ancestor hp q tip" for q
      using k(2) anc [OF that] True by (metis option.sel)
    with True show ?thesis by (simp add: FindEarliestAtLeast_def Let_def)
  next
    case False
    then have "?k < length ?v" using k(1) by simp
    from at [OF this] obtain b where b: "?v ! ?k = Some b" "is_ancestor hp b tip" "nHeight (hp b) = int ?k" by blast
    have "time \<le> int (unat (nTimeMax (hp b)))" using k(3) \<open>?k < length ?v\<close> b(1) by auto
    moreover have "nHeight (hp b) \<le> nHeight (hp q)" if "is_ancestor hp q tip" "time \<le> int (unat (nTimeMax (hp q)))" for q
    proof (rule ccontr)
      assume "\<not> nHeight (hp b) \<le> nHeight (hp q)"
      then have "int (nat (nHeight (hp q))) < int ?k" unfolding b(3) using anc [OF that(1)] by linarith
      then have "nat (nHeight (hp q)) < ?k" by (simp only: of_nat_less_iff)
      with k(2) anc [OF that(1)] that(2) show False by (metis option.sel not_le)
    qed
    moreover have "FindEarliestAtLeast hp ch time = Some b" using False b(1) by (simp add: FindEarliestAtLeast_def Let_def)
    ultimately show ?thesis using b(2) by simp
  qed
qed

end
