(* ===== verification/Pow.thy ===== *)
theory Pow
  imports Block_Index_Store
begin

text \<open>
  Proof of work: \<open>src/src/pow.cpp\<close>, with the consensus parameters of \<open>src/src/consensus/params.h\<close> and
  of the main network and the two public test networks in \<open>src/src/chainparams.cpp\<close>.  A member that the
  constructor of a test network leaves unset is an argument here.  The exponentially weighted target is
  computed in fixed point; it is shown equal to its closed form, within its range, monotone, and on the main
  network always possible to meet.
\<close>

subsection \<open>Parameters\<close>

record ASERTAnchor =
  anchor_nHeight :: int
  anchor_nBits :: u32
  anchor_nPrevBlockTime :: int

record Consensus_Params =
  nSubsidyHalvingInterval :: int
  SteadyASERTHeight :: int
  powLimit :: uint256
  fPowAllowMinDifficultyBlocks :: bool
  fPowNoRetargeting :: bool
  nPowTargetSpacing :: int
  nUnsteadyASERTHalfLife :: int
  nSteadyASERTHalfLife :: int
  asertAnchorParams :: ASERTAnchor

definition UNSTEADY_ASERT_HALF_LIFE :: int where "UNSTEADY_ASERT_HALF_LIFE = 60 * 60"
definition STEADY_ASERT_HALF_LIFE :: int where "STEADY_ASERT_HALF_LIFE = 2 * 24 * 60 * 60"

text \<open>\<open>uint256S\<close> stores the bytes of a number least significant first.\<close>

definition CMainParams :: Consensus_Params where
  "CMainParams =
     \<lparr>nSubsidyHalvingInterval = 210000, SteadyASERTHeight = 100000, powLimit = replicate 28 0xff @ replicate 4 0,
      fPowAllowMinDifficultyBlocks = False, fPowNoRetargeting = False, nPowTargetSpacing = 150,
      nUnsteadyASERTHalfLife = UNSTEADY_ASERT_HALF_LIFE, nSteadyASERTHalfLife = STEADY_ASERT_HALF_LIFE,
      asertAnchorParams = \<lparr>anchor_nHeight = 1, anchor_nBits = 0x1d00ffff, anchor_nPrevBlockTime = 1638457291\<rparr>\<rparr>"

text \<open>The constructors of the test networks leave some members of \<open>consensus\<close> unset; their
  indeterminate values are arguments.  The regression test network does not retarget.\<close>

definition CStnParams :: "int \<Rightarrow> int \<Rightarrow> int \<Rightarrow> Consensus_Params" where
  "CStnParams unset_SteadyASERTHeight unset_nUnsteadyASERTHalfLife unset_nSteadyASERTHalfLife =
     \<lparr>nSubsidyHalvingInterval = 210000, SteadyASERTHeight = unset_SteadyASERTHeight,
      powLimit = replicate 28 0xff @ replicate 4 0,
      fPowAllowMinDifficultyBlocks = False, fPowNoRetargeting = False, nPowTargetSpacing = 150,
      nUnsteadyASERTHalfLife = unset_nUnsteadyASERTHalfLife, nSteadyASERTHalfLife = unset_nSteadyASERTHalfLife,
      asertAnchorParams = \<lparr>anchor_nHeight = 1, anchor_nBits = 0x1d00ffff, anchor_nPrevBlockTime = 1638457291\<rparr>\<rparr>"

definition CTestNetParams :: "int \<Rightarrow> int \<Rightarrow> Consensus_Params" where
  "CTestNetParams unset_SteadyASERTHeight unset_nSteadyASERTHalfLife =
     \<lparr>nSubsidyHalvingInterval = 210000, SteadyASERTHeight = unset_SteadyASERTHeight,
      powLimit = replicate 28 0xff @ replicate 4 0,
      fPowAllowMinDifficultyBlocks = True, fPowNoRetargeting = False, nPowTargetSpacing = 150,
      nUnsteadyASERTHalfLife = UNSTEADY_ASERT_HALF_LIFE, nSteadyASERTHalfLife = unset_nSteadyASERTHalfLife,
      asertAnchorParams = \<lparr>anchor_nHeight = 1, anchor_nBits = 0x1d00ffff, anchor_nPrevBlockTime = 1638457834\<rparr>\<rparr>"

subsection \<open>The target\<close>

text \<open>A failed assertion ends the program; signed overflow and division by zero are undefined.\<close>

datatype pow_error = pow_assert | pow_undefined

definition i64_range :: "int \<Rightarrow> pow_error + int" where
  "i64_range x = (if - (2 ^ 63) \<le> x \<and> x < 2 ^ 63 then Inr x else Inl pow_undefined)"

text \<open>Division of the language rounds towards zero.\<close>

definition i64_div :: "int \<Rightarrow> int \<Rightarrow> pow_error + int" where
  "i64_div a b = (if b = 0 then Inl pow_undefined else i64_range (sgn a * sgn b * (\<bar>a\<bar> div \<bar>b\<bar>)))"

definition asert_factor :: "u16 \<Rightarrow> u32" where
  "asert_factor frac =
     (let f = ucast frac :: u64
      in ucast (65536 + drop_bit 48 (195766423245049 * f + 971821376 * f * f + 5127 * f * f * f + push_bit 47 1)))"

definition asert_exponent :: "int \<Rightarrow> int \<Rightarrow> int \<Rightarrow> int \<Rightarrow> pow_error + int" where
  "asert_exponent spacing nTimeDiff nHeightDiff nHalfLife =
     bindE (i64_range (spacing * nHeightDiff)) (\<lambda>ideal.
     bindE (i64_range (nTimeDiff - ideal)) (\<lambda>d.
       if \<not> \<bar>d\<bar> < 2 ^ (63 - 16) then Inl pow_assert
       else bindE (i64_range (nHeightDiff + 1)) (\<lambda>h.
         bindE (i64_range (spacing * h)) (\<lambda>ideal.
         bindE (i64_range (nTimeDiff - ideal)) (\<lambda>d.
         bindE (i64_range (d * 65536)) (\<lambda>d. i64_div d nHalfLife))))))"

definition CalculateASERT :: "base_uint \<Rightarrow> int \<Rightarrow> int \<Rightarrow> int \<Rightarrow> base_uint \<Rightarrow> int \<Rightarrow> pow_error + base_uint" where
  "CalculateASERT refTarget spacing nTimeDiff nHeightDiff limit nHalfLife =
     (if \<not> (CompareTo refTarget (base_uint_of 8 0) > 0 \<and> CompareTo refTarget limit \<le> 0) then Inl pow_assert
      else if \<not> EqualTo (base_shr limit 224) 0 then Inl pow_assert
      else if \<not> nHeightDiff \<ge> 0 then Inl pow_assert
      else bindE (asert_exponent spacing nTimeDiff nHeightDiff nHalfLife) (\<lambda>exponent.
        let shifts = drop_bit 16 exponent; frac = word_of_int exponent :: u16
        in if exponent \<noteq> shifts * 65536 + int (unat frac) then Inl pow_assert
           else let factor = asert_factor frac;
                    nextTarget = base_mul32 refTarget factor;
                    shifts = shifts - 16;
                    nextTarget =
                      (if shifts \<le> 0 then base_shr nextTarget (word_of_int (- shifts))
                       else let nextTargetShifted = base_shl nextTarget (word_of_int shifts)
                         in if base_shr nextTargetShifted (word_of_int shifts) \<noteq> nextTarget then limit
                            else nextTargetShifted)
             in Inr (if EqualTo nextTarget 0 then base_uint_of 8 1
                     else if CompareTo nextTarget limit > 0 then limit
                     else nextTarget)))"

definition GetCompact_of :: "base_uint \<Rightarrow> pow_error + u32" where
  "GetCompact_of x = of_opt pow_assert (GetCompact x False)"

definition GetNextASERTWorkRequired :: "index_heap \<Rightarrow> block_ref option \<Rightarrow> CBlockHeader \<Rightarrow> Consensus_Params \<Rightarrow> pow_error + u32" where
  "GetNextASERTWorkRequired hp pindexPrev pblock params =
     (case pindexPrev of None \<Rightarrow> Inl pow_assert
      | Some p \<Rightarrow>
          let anchor = asertAnchorParams params; prev = hp p
          in if \<not> nHeight prev \<ge> anchor_nHeight anchor then Inl pow_assert
             else if fPowAllowMinDifficultyBlocks params \<and>
                     int (unat (nTime pblock)) > GetBlockTime prev + 2 * nPowTargetSpacing params
             then GetCompact_of (UintToArith256 (powLimit params))
             else if pprev prev = None then Inl pow_assert
             else let limit = UintToArith256 (powLimit params);
                      refBlockTarget = fst (SetCompact (anchor_nBits anchor));
                      nTimeDiff = GetBlockTime prev - anchor_nPrevBlockTime anchor;
                      nHeightDiff = nHeight prev - anchor_nHeight anchor;
                      nHalfLife = (if SteadyASERTHeight params > 0 \<and> nHeight prev \<ge> SteadyASERTHeight params
                                   then nSteadyASERTHalfLife params else nUnsteadyASERTHalfLife params)
               in bindE (CalculateASERT refBlockTarget (nPowTargetSpacing params) nTimeDiff nHeightDiff limit nHalfLife)
                    GetCompact_of)"

definition IsASERTEnabled :: "Consensus_Params \<Rightarrow> int \<Rightarrow> bool" where
  "IsASERTEnabled params h \<longleftrightarrow> h \<ge> anchor_nHeight (asertAnchorParams params)"

definition GetNextWorkRequired :: "index_heap \<Rightarrow> block_ref option \<Rightarrow> CBlockHeader \<Rightarrow> Consensus_Params \<Rightarrow> pow_error + u32" where
  "GetNextWorkRequired hp pindexPrev pblock params =
     (case pindexPrev of None \<Rightarrow> GetCompact_of (UintToArith256 (powLimit params))
      | Some p \<Rightarrow>
          if fPowNoRetargeting params then Inr (index_nBits (hp p))
          else if IsASERTEnabled params (nHeight (hp p)) then GetNextASERTWorkRequired hp pindexPrev pblock params
          else Inr (index_nBits (hp p)))"

definition CheckProofOfWork :: "uint256 \<Rightarrow> u32 \<Rightarrow> Consensus_Params \<Rightarrow> bool" where
  "CheckProofOfWork hash bits params =
     (let (bnTarget, fNegative, fOverflow) = SetCompact bits
      in if fNegative \<or> EqualTo bnTarget 0 \<or> fOverflow \<or> CompareTo bnTarget (UintToArith256 (powLimit params)) > 0 then False
         else if CompareTo (UintToArith256 hash) bnTarget > 0 then False
         else True)"

subsection \<open>The factor\<close>

definition factor_value :: "nat \<Rightarrow> nat" where
  "factor_value f = 65536 + (195766423245049 * f + 971821376 * f * f + 5127 * f * f * f + 2 ^ 47) div 2 ^ 48"

lemma factor_sum_less:
  assumes "f < 65536"
  shows "195766423245049 * f + 971821376 * f * f + 5127 * f * f * f + 2 ^ 47 < (2 :: nat) ^ 64"
proof -
  have f: "f \<le> 65535" using assms by simp
  then have "f * f \<le> 65535 * 65535" by (intro mult_le_mono)
  moreover from this f have "f * f * f \<le> 65535 * 65535 * 65535" by (intro mult_le_mono)
  ultimately show ?thesis using f by simp
qed

lemma factor_value_bounds: "f < 65536 \<Longrightarrow> 65536 \<le> factor_value f \<and> factor_value f \<le> 131072"
  using factor_sum_less [of f] div_le_mono [of _ "2 ^ 64" "2 ^ 48"] by (simp add: factor_value_def less_imp_le)

lemma factor_value_mono: "f \<le> g \<Longrightarrow> factor_value f \<le> factor_value g"
  unfolding factor_value_def by (intro add_left_mono div_le_mono add_mono mult_mono) simp_all

lemma factor_value_0: "factor_value 0 = 65536"
  by (simp add: factor_value_def)

lemma unat_mult_less: "unat (a :: u64) * unat b < 2 ^ 64 \<Longrightarrow> unat (a * b) = unat a * unat b"
  by (simp add: unat_word_ariths)

lemma unat_add_less: "unat (a :: u64) + unat b < 2 ^ 64 \<Longrightarrow> unat (a + b) = unat a + unat b"
  by (simp add: unat_word_ariths)

lemma asert_factor_value: "unat (asert_factor frac) = factor_value (unat frac)"
proof -
  define f :: u64 where "f = ucast frac"
  define n where "n = unat frac"
  have n: "n < 65536" using unsigned_less [of frac] by (simp add: n_def)
  have f: "unat f = n" using n by (simp add: f_def n_def [symmetric] unsigned_ucast_eq take_bit_nat_eq_self_iff)
  note sum = factor_sum_less [OF n]
  have nn: "n * n \<le> 65535 * 65535" "n * n * n \<le> 65535 * 65535 * 65535" using n by (intro mult_le_mono; simp)+
  have t1: "unat (195766423245049 * f) = 195766423245049 * n" using n by (subst unat_mult_less) (simp_all add: f)
  have t2: "unat (971821376 * f * f) = 971821376 * n * n"
  proof -
    have "unat (971821376 * f) = 971821376 * n" using n by (subst unat_mult_less) (simp_all add: f)
    then show ?thesis using nn(1) by (subst unat_mult_less) (simp_all add: f mult.assoc)
  qed
  have t3: "unat (5127 * f * f * f) = 5127 * n * n * n"
  proof -
    have "unat (5127 * f) = 5127 * n" using n by (subst unat_mult_less) (simp_all add: f)
    moreover from this have "unat (5127 * f * f) = 5127 * n * n" using nn(1) by (subst unat_mult_less) (simp_all add: f mult.assoc)
    ultimately show ?thesis using nn(2) by (subst unat_mult_less) (simp_all add: f mult.assoc)
  qed
  let ?S = "195766423245049 * f + 971821376 * f * f + 5127 * f * f * f + push_bit 47 1"
  have t4: "unat (push_bit 47 1 :: u64) = 2 ^ 47" by simp
  have S: "unat ?S = 195766423245049 * n + 971821376 * n * n + 5127 * n * n * n + 2 ^ 47"
    using sum by (simp add: unat_add_less t1 t2 t3 t4 del: push_bit_of_1)
  define v where "v = factor_value n"
  have v: "v \<le> 131072" using factor_value_bounds [OF n] by (simp add: v_def)
  have "unat (drop_bit 48 ?S) = v - 65536" unfolding unat_drop_bit_div S v_def factor_value_def by simp
  then have "unat (65536 + drop_bit 48 ?S) = v" using v factor_value_bounds [OF n]
    by (subst unat_add_less) (simp_all add: v_def del: push_bit_of_1)
  then show ?thesis using v by (simp add: asert_factor_def f_def [symmetric] n_def [symmetric] v_def [symmetric] Let_def
        unsigned_ucast_eq take_bit_nat_eq_self_iff del: push_bit_of_1)
qed

subsection \<open>The exponent\<close>

definition exponent_value :: "int \<Rightarrow> int \<Rightarrow> int \<Rightarrow> int \<Rightarrow> int" where
  "exponent_value spacing nTimeDiff nHeightDiff nHalfLife =
     (let x = (nTimeDiff - spacing * (nHeightDiff + 1)) * 65536 in sgn x * (\<bar>x\<bar> div nHalfLife))"

text \<open>The ranges of the arguments in the program: 32-bit times and heights, and a half life of at least one hour.\<close>

definition asert_range :: "int \<Rightarrow> int \<Rightarrow> int \<Rightarrow> int \<Rightarrow> bool" where
  "asert_range spacing nTimeDiff nHeightDiff nHalfLife \<longleftrightarrow>
     0 \<le> spacing \<and> spacing \<le> 1000 \<and> \<bar>nTimeDiff\<bar> \<le> 2 ^ 33 \<and> 0 \<le> nHeightDiff \<and> nHeightDiff < 2 ^ 31 \<and>
     3600 \<le> nHalfLife \<and> nHalfLife < 2 ^ 63"

lemma asert_exponent_value:
  assumes "asert_range spacing t h l"
  shows "asert_exponent spacing t h l = Inr (exponent_value spacing t h l)" "\<bar>exponent_value spacing t h l\<bar> < 2 ^ 47"
proof -
  let ?d = "t - spacing * (h + 1)" and ?x = "(t - spacing * (h + 1)) * 65536"
  have a: "0 \<le> spacing" "spacing \<le> 1000" "\<bar>t\<bar> \<le> 2 ^ 33" "0 \<le> h" "h < 2 ^ 31" "3600 \<le> l" "l < 2 ^ 63"
    using assms by (simp_all add: asert_range_def)
  have p: "0 \<le> spacing * h" "spacing * h \<le> 1000 * 2 ^ 31" "0 \<le> spacing * (h + 1)" "spacing * (h + 1) \<le> 1000 * 2 ^ 31"
  proof -
    show "spacing * h \<le> 1000 * 2 ^ 31" "spacing * (h + 1) \<le> 1000 * 2 ^ 31" by (rule mult_mono; use a in simp)+
  qed (use a in simp_all)
  have "- 8589934592 \<le> t" "t \<le> 8589934592" using a(3) by (simp_all add: abs_le_iff)
  then have d: "\<bar>?d\<bar> < 2 ^ 42" "\<bar>t - spacing * h\<bar> < 2 ^ 42" using p unfolding abs_less_iff by simp_all
  have q: "\<bar>?x\<bar> div l \<le> \<bar>?x\<bar> div 3600" "0 \<le> \<bar>?x\<bar> div l" using a(6) by (auto intro!: zdiv_mono2 pos_imp_zdiv_nonneg_iff [THEN iffD2])
  have "\<bar>?x\<bar> div 3600 < 2 ^ 47"
  proof -
    have "\<bar>?x\<bar> < 2 ^ 47 * 3600" using d(1) by simp
    then show ?thesis by linarith
  qed
  with q have e: "0 \<le> \<bar>?x\<bar> div l" "\<bar>?x\<bar> div l < 2 ^ 47" by linarith+
  have v: "exponent_value spacing t h l = sgn ?x * (\<bar>?x\<bar> div l)" by (simp add: exponent_value_def Let_def)
  show b: "\<bar>exponent_value spacing t h l\<bar> < 2 ^ 47" unfolding v using e by (simp add: abs_mult abs_sgn_eq)
  have "i64_div ?x l = Inr (exponent_value spacing t h l)"
    using a(6) b by (simp add: i64_div_def i64_range_def v abs_less_iff)
  moreover have "i64_range (spacing * h) = Inr (spacing * h)" "i64_range (h + 1) = Inr (h + 1)"
      "i64_range (spacing * (h + 1)) = Inr (spacing * (h + 1))" "i64_range (t - spacing * h) = Inr (t - spacing * h)"
      "i64_range ?d = Inr ?d" "i64_range ?x = Inr ?x"
  proof -
    have range: "i64_range x = Inr x" if "- 9000000000000000000 \<le> x" "x \<le> 9000000000000000000" for x
      using that by (simp add: i64_range_def)
    have d': "- 4398046511104 < ?d" "?d < 4398046511104" "- 4398046511104 < t - spacing * h" "t - spacing * h < 4398046511104"
      using d by (simp_all add: abs_less_iff)
    have p': "spacing * h \<le> 2147483648000" "spacing * (h + 1) \<le> 2147483648000" using p by simp_all
    show "i64_range (spacing * h) = Inr (spacing * h)" "i64_range (spacing * (h + 1)) = Inr (spacing * (h + 1))"
        "i64_range (t - spacing * h) = Inr (t - spacing * h)" "i64_range ?d = Inr ?d"
      by (rule range; use p(1,3) p' d' in linarith)+
    have "i64_range (y * 65536) = Inr (y * 65536)" if "- 4398046511104 < y" "y < 4398046511104" for y
      by (rule range; use that in linarith)
    from this [OF d'(1,2)] show "i64_range ?x = Inr ?x" .
    show "i64_range (h + 1) = Inr (h + 1)" using a by (simp add: i64_range_def)
  qed
  moreover have "\<bar>t - spacing * h\<bar> < 2 ^ (63 - 16)" using d(2) by simp
  ultimately show "asert_exponent spacing t h l = Inr (exponent_value spacing t h l)" by (simp add: asert_exponent_def)
qed

subsection \<open>The value of the target\<close>

definition scaled :: "nat \<Rightarrow> int \<Rightarrow> nat" where
  "scaled n s = (if s \<le> 0 then n div 2 ^ nat (- s) else n * 2 ^ nat s)"

definition asert_value :: "nat \<Rightarrow> int \<Rightarrow> nat \<Rightarrow> nat" where
  "asert_value ref e limit = max 1 (min limit (scaled (ref * factor_value (nat (e mod 65536))) (e div 65536 - 16)))"

lemma shl_overflow: "0 < (n :: nat) \<Longrightarrow> (n * 2 ^ k mod 2 ^ w) div 2 ^ k = n \<longleftrightarrow> n * 2 ^ k < 2 ^ w"
proof
  assume n: "0 < n" "(n * 2 ^ k mod 2 ^ w) div 2 ^ k = n"
  show "n * 2 ^ k < 2 ^ w"
  proof (rule ccontr)
    assume "\<not> n * 2 ^ k < 2 ^ w"
    then have "n * 2 ^ k mod 2 ^ w < n * 2 ^ k" by (intro less_le_trans [OF mod_less_divisor]) auto
    then have "(n * 2 ^ k mod 2 ^ w) div 2 ^ k < n" by (rule less_mult_imp_div_less)
    with n(2) show False by simp
  qed
qed simp

lemma unat_of_shift: "0 \<le> s \<Longrightarrow> s < 2 ^ 32 \<Longrightarrow> unat (word_of_int s :: u32) = nat s"
  by (simp add: unsigned_of_int take_bit_int_eq_self)

lemma frac_value: "unat (word_of_int e :: u16) = nat (e mod 65536)"
  by (simp add: unsigned_of_int take_bit_int_def)

lemma CalculateASERT_val:
  assumes len: "length ref = 8" "length limit = 8" and ref: "0 < base_val ref" "base_val ref \<le> base_val limit"
    and limit: "base_val limit < 2 ^ 224" and h: "0 \<le> h"
    and e: "asert_exponent spacing t h l = Inr e" "\<bar>e\<bar> < 2 ^ 47"
  shows "\<exists>r. CalculateASERT ref spacing t h limit l = Inr r \<and> length r = 8 \<and>
    base_val r = asert_value (base_val ref) e (base_val limit)"
proof -
  define f where "f = asert_factor (word_of_int e)"
  define n where "n = base_val ref * factor_value (nat (e mod 65536))"
  define s where "s = e div 65536 - 16"
  have fv: "unat f = factor_value (nat (e mod 65536))" by (simp add: f_def asert_factor_value frac_value)
  have fb: "65536 \<le> factor_value (nat (e mod 65536))" "factor_value (nat (e mod 65536)) \<le> 131072"
    using factor_value_bounds [of "nat (e mod 65536)"] by (simp_all add: nat_less_iff)
  have "- 140737488355328 < e" "e < 140737488355328" using e(2) by (simp_all add: abs_less_iff)
  then have s: "- 4294967296 < s" "s < 4294967296" unfolding s_def by linarith+
  have "n \<le> 2 ^ 224 * 131072" unfolding n_def using ref limit fb(2) by (intro mult_le_mono) simp_all
  then have n: "n < 2 ^ 256" "0 < n" using ref(1) fb(1) by (simp_all add: n_def)
  let ?N = "base_mul32 ref f"
  have N: "base_val ?N = n" "length ?N = 8"
    using n(1) len(1) base_mul32_val(1) [of ref f] by (simp_all add: fv n_def mult.commute)
  define X where "X = (if s \<le> 0 then base_shr ?N (word_of_int (- s))
    else if base_shr (base_shl ?N (word_of_int s)) (word_of_int s) \<noteq> ?N then limit else base_shl ?N (word_of_int s))"
  have X: "length X = 8 \<and> min (base_val limit) (base_val X) = min (base_val limit) (scaled n s)"
  proof (cases "s \<le> 0")
    case True
    then have w: "unat (word_of_int (- s) :: u32) = nat (- s)" using s by (intro unat_of_shift) simp_all
    have "base_val (base_shr ?N (word_of_int (- s))) = n div 2 ^ nat (- s)" unfolding base_shr_val w N(1) ..
    with True N(2) show ?thesis by (simp only: X_def scaled_def if_True length_base_shr simp_thms)
  next
    case False
    let ?w = "word_of_int s :: u32"
    have w: "unat ?w = nat s" using False s by (simp add: unat_of_shift)
    have L: "base_val (base_shl ?N ?w) = n * 2 ^ nat s mod 2 ^ 256" using base_shl_val [of ?N ?w] N by (simp add: w)
    then have "base_shr (base_shl ?N ?w) ?w = ?N \<longleftrightarrow> (n * 2 ^ nat s mod 2 ^ 256) div 2 ^ nat s = n"
      using base_val_inj [of "base_shr (base_shl ?N ?w) ?w" ?N] N by (simp add: w)
    then have eq: "base_shr (base_shl ?N ?w) ?w = ?N \<longleftrightarrow> n * 2 ^ nat s < 2 ^ 256" unfolding shl_overflow [OF n(2)] .
    show ?thesis
    proof (cases "n * 2 ^ nat s < 2 ^ 256")
      case True
      then show ?thesis using False eq L N(2) by (simp add: X_def scaled_def)
    next
      case over: False
      have "base_val limit \<le> n * 2 ^ nat s" using over limit by simp
      then show ?thesis using False eq over len(2) by (simp add: X_def scaled_def)
    qed
  qed
  have guards: "CompareTo ref (base_uint_of 8 0) > 0" "CompareTo ref limit \<le> 0" "EqualTo (base_shr limit 224) 0"
    using len ref limit by (simp_all add: base_uint_small EqualTo_zero)
  have frac: "e = drop_bit 16 e * 65536 + int (unat (word_of_int e :: u16))" by (simp add: frac_value drop_bit_eq_div)
  let ?r = "if EqualTo X 0 then base_uint_of 8 1 else if CompareTo X limit > 0 then limit else X"
  have "CalculateASERT ref spacing t h limit l = Inr ?r"
    using guards h frac unfolding CalculateASERT_def e(1)
    by (simp add: Let_def X_def s_def f_def drop_bit_eq_div)
  moreover have "length ?r = 8" using X len by (simp add: base_uint_small)
  moreover have "base_val ?r = max 1 (min (base_val limit) (base_val X))"
    using conjunct1 [OF X] len ref by (auto simp: EqualTo_zero base_uint_small)
  ultimately show ?thesis using X unfolding asert_value_def n_def [symmetric] s_def [symmetric] by auto
qed

subsection \<open>The required work\<close>

lemma scaled_mono: "m \<le> n \<Longrightarrow> scaled m s \<le> scaled n s"
  by (simp add: scaled_def div_le_mono)

lemma scaled_double: "scaled (2 * n) s = scaled n (s + 1)"
proof (cases "s < 0")
  case True
  then have "nat (- s) = Suc (nat (- (s + 1)))" by simp
  with True show ?thesis by (simp add: scaled_def div_mult2_eq)
next
  case False
  show ?thesis
  proof (cases "s = 0")
    case pos: False
    with False have "nat (s + 1) = Suc (nat s)" by simp
    with False pos show ?thesis by (simp add: scaled_def)
  qed (simp add: scaled_def)
qed

lemma scaled_shift_mono: "scaled n s \<le> scaled n (s + int d)"
proof (induction d)
  case (Suc d)
  have "scaled n (s + int d) \<le> scaled (2 * n) (s + int d)" by (rule scaled_mono) simp
  also have "\<dots> = scaled n (s + int (Suc d))" using scaled_double [of n "s + int d"] by (simp add: algebra_simps)
  finally show ?case using Suc by linarith
qed simp

lemma scaled_exponent_mono:
  assumes "e \<le> e'"
  shows "scaled (n * factor_value (nat (e mod 65536))) (e div 65536 - 16) \<le>
    scaled (n * factor_value (nat (e' mod 65536))) (e' div 65536 - 16)"
proof (cases "e div 65536 = e' div 65536")
  case True
  then have "e mod 65536 \<le> e' mod 65536" using assms by (simp add: minus_div_mult_eq_mod [symmetric])
  then show ?thesis unfolding True by (intro scaled_mono mult_le_mono2 factor_value_mono) simp
next
  case False
  then have "e div 65536 < e' div 65536" using zdiv_mono1 [OF assms, of 65536] by simp
  then have d: "e div 65536 - 16 + 1 + int (nat (e' div 65536 - e div 65536 - 1)) = e' div 65536 - 16" by simp
  let ?f = "factor_value (nat (e mod 65536))" and ?g = "factor_value (nat (e' mod 65536))"
  have "?f \<le> 2 * 65536" "65536 \<le> ?g"
    using factor_value_bounds [of "nat (e mod 65536)"] factor_value_bounds [of "nat (e' mod 65536)"] by (simp_all add: nat_less_iff)
  then have "n * ?f \<le> n * (2 * ?g)" by (intro mult_le_mono2) linarith
  then have "n * ?f \<le> 2 * (n * ?g)" by (simp only: mult.left_commute)
  then have "scaled (n * ?f) (e div 65536 - 16) \<le> scaled (2 * (n * ?g)) (e div 65536 - 16)" by (rule scaled_mono)
  also have "\<dots> = scaled (n * ?g) (e div 65536 - 16 + 1)" by (rule scaled_double)
  also have "\<dots> \<le> scaled (n * ?g) (e' div 65536 - 16)" unfolding d [symmetric] by (rule scaled_shift_mono)
  finally show ?thesis .
qed

lemma truncate_mono:
  assumes "x \<le> y" "0 < (l :: int)"
  shows "sgn x * (\<bar>x\<bar> div l) \<le> sgn y * (\<bar>y\<bar> div l)"
proof -
  have nn: "0 \<le> \<bar>z\<bar> div l" for z using assms(2) by (simp add: pos_imp_zdiv_nonneg_iff)
  consider "0 \<le> x" | "x < 0" "0 \<le> y" | "y < 0" using assms(1) by linarith
  then show ?thesis
  proof cases
    case 1
    then show ?thesis using assms zdiv_mono1 [of x y l] nn [of y] by (cases "x = 0"; cases "y = 0") auto
  next
    case 2
    then show ?thesis using nn [of x] nn [of y] by (cases "y = 0") auto
  next
    case 3
    then show ?thesis using assms zdiv_mono1 [of "- y" "- x" l] by auto
  qed
qed

lemma exponent_value_mono:
  assumes "t \<le> t'" "0 < l"
  shows "exponent_value spacing t h l \<le> exponent_value spacing t' h l"
proof -
  let ?x = "(t - spacing * (h + 1)) * 65536" and ?y = "(t' - spacing * (h + 1)) * 65536"
  have "?x \<le> ?y" using assms(1) by simp
  then have "sgn ?x * (\<bar>?x\<bar> div l) \<le> sgn ?y * (\<bar>?y\<bar> div l)" using assms(2) by (rule truncate_mono)
  then show ?thesis by (simp add: exponent_value_def Let_def)
qed

text \<open>C29. The fixed-point computation of \<open>CalculateASERT\<close> is exact.  For arguments in the ranges of the program no
  assertion fails and nothing overflows, and the new target is the reference target, times the factor of the fractional
  part of the exponent, shifted by its integer part, and clamped to the range from 1 to the limit.  It never
  decreases when the time passed grows.\<close>

theorem CalculateASERT_exact:
  assumes "length ref = 8" "length limit = 8" "0 < base_val ref" "base_val ref \<le> base_val limit" "base_val limit < 2 ^ 224"
    "asert_range spacing t h l" "asert_range spacing t' h l" "t \<le> t'"
  shows "\<exists>r r'. CalculateASERT ref spacing t h limit l = Inr r \<and> CalculateASERT ref spacing t' h limit l = Inr r' \<and>
    base_val r = asert_value (base_val ref) (exponent_value spacing t h l) (base_val limit) \<and>
    1 \<le> base_val r \<and> base_val r \<le> base_val limit \<and> base_val r \<le> base_val r'"
proof -
  have h: "0 \<le> h" "0 < l" using assms(6) by (simp_all add: asert_range_def)
  note val = CalculateASERT_val [OF assms(1-5) h(1)]
  obtain r where r: "CalculateASERT ref spacing t h limit l = Inr r"
      "base_val r = asert_value (base_val ref) (exponent_value spacing t h l) (base_val limit)"
    using val [OF asert_exponent_value [OF assms(6)]] by blast
  obtain r' where r': "CalculateASERT ref spacing t' h limit l = Inr r'"
      "base_val r' = asert_value (base_val ref) (exponent_value spacing t' h l) (base_val limit)"
    using val [OF asert_exponent_value [OF assms(7)]] by blast
  have "base_val r \<le> base_val r'" unfolding r(2) r'(2) asert_value_def
    by (intro max.mono min.mono order_refl scaled_exponent_mono exponent_value_mono assms(8) h(2))
  moreover have "1 \<le> base_val r" "base_val r \<le> base_val limit" unfolding r(2) asert_value_def using assms(3,4) by auto
  ultimately show ?thesis using r r' by blast
qed

theorem CalculateASERT_exact_witness:
  "\<exists>r r'. CalculateASERT [0, 0xffff, 0, 0, 0, 0, 0, 0] 150 1000 3 [0, 0, 1, 0, 0, 0, 0, 0] 3600 = Inr r \<and>
     CalculateASERT [0, 0xffff, 0, 0, 0, 0, 0, 0] 150 5000 3 [0, 0, 1, 0, 0, 0, 0, 0] 3600 = Inr r' \<and>
     base_val r = asert_value (base_val [0, 0xffff, 0, 0, 0, 0, 0, 0]) (exponent_value 150 1000 3 3600) (base_val [0, 0, 1, 0, 0, 0, 0, 0]) \<and>
     base_val r \<le> base_val r'"
  using CalculateASERT_exact [of "[0, 0xffff, 0, 0, 0, 0, 0, 0]" "[0, 0, 1, 0, 0, 0, 0, 0]" 150 1000 3 3600 5000]
  by (auto simp: asert_range_def)

text \<open>Parameters a network can work with.\<close>

definition params_ok :: "Consensus_Params \<Rightarrow> bool" where
  "params_ok params \<longleftrightarrow>
     (let anchor = asertAnchorParams params; limit = base_val (UintToArith256 (powLimit params));
          ref = base_val (fst (SetCompact (anchor_nBits anchor)))
      in limit < 2 ^ 224 \<and> 0 < ref \<and> ref \<le> limit \<and> 0 \<le> nPowTargetSpacing params \<and> nPowTargetSpacing params \<le> 1000 \<and>
         3600 \<le> nUnsteadyASERTHalfLife params \<and> nUnsteadyASERTHalfLife params < 2 ^ 63 \<and>
         (SteadyASERTHeight params > 0 \<longrightarrow> 3600 \<le> nSteadyASERTHalfLife params \<and> nSteadyASERTHalfLife params < 2 ^ 63) \<and>
         1 \<le> anchor_nHeight anchor \<and> 0 \<le> anchor_nPrevBlockTime anchor \<and> anchor_nPrevBlockTime anchor < 2 ^ 32 \<and>
         \<not> fPowNoRetargeting params)"

lemma length_UintToArith256 [simp]: "length (UintToArith256 a) = 8"
  by (simp add: UintToArith256_def)

lemma limbs_le_nat: "length a = 4 * n \<Longrightarrow> base_val (map (\<lambda>x. ReadLE32 (drop (x * 4) a)) [0 ..< n]) = le_nat a"
proof (induction n arbitrary: a)
  case (Suc n)
  have l: "length (take 4 a) = 4" "length (drop 4 a) = 4 * n" using Suc.prems by simp_all
  have "map (\<lambda>x. ReadLE32 (drop (x * 4) a)) [0 ..< Suc n] = ReadLE32 a # map (\<lambda>x. ReadLE32 (drop (x * 4) (drop 4 a))) [0 ..< n]"
    by (simp add: upt_conv_Cons map_Suc_upt [symmetric] add.commute del: upt_Suc)
  moreover have "unat (ReadLE32 a) = le_nat (take 4 a)"
    using le_nat_bound [of "take 4 a"] l(1) by (simp add: ReadLE32_def unsigned_of_nat take_bit_nat_eq_self_iff)
  moreover have "le_nat a = le_nat (take 4 a) + 256 ^ 4 * le_nat (drop 4 a)"
    using le_nat_append [of "take 4 a" "drop 4 a"] l(1) by simp
  ultimately show ?case using Suc.IH [OF l(2)] by (simp only: base_val.simps) simp
qed simp

lemma UintToArith256_val: "length a = 32 \<Longrightarrow> base_val (UintToArith256 a) = le_nat a"
  using limbs_le_nat [of a 8] by (simp add: UintToArith256_def)

lemma null_hash_value: "base_val (UintToArith256 null_hash) = 0"
  by (simp add: UintToArith256_val null_hash_def)

lemma le_nat_ones: "le_nat (replicate n 0xff) = 256 ^ n - 1"
proof (induction n)
  case (Suc n)
  have "255 + 256 * (256 ^ n - 1) = 256 * 256 ^ n - (1 :: nat)" by (simp add: right_diff_distrib')
  with Suc show ?case by simp
qed simp

lemma network_values:
  "base_val (UintToArith256 (replicate 28 0xff @ replicate 4 0)) = 2 ^ 224 - 1"
  "base_val (fst (SetCompact 0x1d00ffff)) = 0xffff * 256 ^ 26"
proof -
  show "base_val (UintToArith256 (replicate 28 0xff @ replicate 4 0)) = 2 ^ 224 - 1"
    by (simp add: UintToArith256_val le_nat_ones)
  show "base_val (fst (SetCompact 0x1d00ffff)) = 0xffff * 256 ^ 26"
    using SetCompact_val [of "0x1d00ffff" "0xffff" "0x1d"] by auto
qed

text \<open>Half lives a network can work with: from an hour on, and the later one only if it is ever used.\<close>

definition half_lives_ok :: "Consensus_Params \<Rightarrow> bool" where
  "half_lives_ok params \<longleftrightarrow>
     3600 \<le> nUnsteadyASERTHalfLife params \<and> nUnsteadyASERTHalfLife params < 2 ^ 63 \<and>
     (SteadyASERTHeight params > 0 \<longrightarrow> 3600 \<le> nSteadyASERTHalfLife params \<and> nSteadyASERTHalfLife params < 2 ^ 63)"

lemma networks_ok:
  assumes "params = CMainParams \<or> (\<exists>h l. params = CTestNetParams h l \<and> half_lives_ok params) \<or>
    (\<exists>h u l. params = CStnParams h u l \<and> half_lives_ok params)"
  shows "params_ok params"
  using assms
  by (auto simp: params_ok_def half_lives_ok_def CMainParams_def CTestNetParams_def CStnParams_def Let_def
      network_values UNSTEADY_ASERT_HALF_LIFE_def STEADY_ASERT_HALF_LIFE_def)

lemma compact_can_be_met:
  assumes "length x = 8" "1 \<le> base_val x" "base_val x \<le> base_val (UintToArith256 (powLimit params))"
  shows "\<exists>bits. GetCompact_of x = Inr bits \<and> CheckProofOfWork null_hash bits params"
proof -
  obtain c y where c: "GetCompact x False = Some c" "SetCompact c = (y, False, False)" "length y = 8"
      "base_val y \<le> base_val x" "2 ^ 15 * (base_val x - base_val y) \<le> base_val x"
    using compact_read_back [OF assms(1)] by blast
  have "base_val y \<noteq> 0" using c(5) assms(2) by (intro notI) simp
  then have "CheckProofOfWork null_hash c params"
    using c assms(3) null_hash_value by (simp add: CheckProofOfWork_def EqualTo_zero)
  with c(1) show ?thesis by (simp add: GetCompact_of_def of_opt_def)
qed

lemma work_can_be_met:
  assumes "params_ok params" "linked hp p" "anchor_nHeight (asertAnchorParams params) \<le> nHeight (hp p)" "nHeight (hp p) < 2 ^ 31"
  shows "\<exists>bits. GetNextWorkRequired hp (Some p) block params = Inr bits \<and> CheckProofOfWork null_hash bits params"
proof -
  let ?a = "asertAnchorParams params" and ?limit = "UintToArith256 (powLimit params)" and ?ref = "fst (SetCompact (anchor_nBits (asertAnchorParams params)))"
  let ?t = "GetBlockTime (hp p) - anchor_nPrevBlockTime ?a" and ?h = "nHeight (hp p) - anchor_nHeight ?a"
  let ?l = "if SteadyASERTHeight params > 0 \<and> nHeight (hp p) \<ge> SteadyASERTHeight params then nSteadyASERTHalfLife params else nUnsteadyASERTHalfLife params"
  have ok: "base_val ?limit < 2 ^ 224" "0 < base_val ?ref" "base_val ?ref \<le> base_val ?limit" "1 \<le> anchor_nHeight ?a" "\<not> fPowNoRetargeting params"
      "0 \<le> anchor_nPrevBlockTime ?a" "anchor_nPrevBlockTime ?a < 2 ^ 32"
    using assms(1) by (simp_all add: params_ok_def Let_def)
  have len: "length ?ref = 8" using SetCompact_less [of "anchor_nBits ?a"] by (cases "SetCompact (anchor_nBits ?a)") auto
  have "GetBlockTime (hp p) < 2 ^ 32" "0 \<le> GetBlockTime (hp p)" 
    using unsigned_less [of "index_nTime (hp p)", where 'a = int] by (simp_all add: GetBlockTime_def)
  then have "\<bar>?t\<bar> \<le> 2 ^ 33" using ok(6,7) by (simp add: abs_le_iff)
  then have range: "asert_range (nPowTargetSpacing params) ?t ?h ?l"
    using assms ok(4) by (auto simp: params_ok_def Let_def asert_range_def)
  obtain r where r: "CalculateASERT ?ref (nPowTargetSpacing params) ?t ?h ?limit ?l = Inr r" "length r = 8"
      "base_val r = asert_value (base_val ?ref) (exponent_value (nPowTargetSpacing params) ?t ?h ?l) (base_val ?limit)"
    using CalculateASERT_val [OF len _ ok(2,3,1) _ asert_exponent_value [OF range]] assms(3) by auto
  have "1 \<le> base_val r" "base_val r \<le> base_val ?limit" unfolding r(3) asert_value_def using ok(2,3) by auto
  from compact_can_be_met [OF r(2) this] obtain bits where b: "GetCompact_of r = Inr bits" "CheckProofOfWork null_hash bits params" by blast
  have "1 \<le> base_val ?limit" using ok(2,3) by simp
  from compact_can_be_met [OF _ this] obtain easy where e: "GetCompact_of ?limit = Inr easy" "CheckProofOfWork null_hash easy params" by auto
  obtain q where "pprev (hp p) = Some q" using linked_parent [OF assms(2)] assms(3) ok(4) by auto
  then have "GetNextWorkRequired hp (Some p) block params \<in> {Inr easy, Inr bits}"
    using ok(5) assms(3) e(1) b(1) r(1) by (simp add: GetNextWorkRequired_def GetNextASERTWorkRequired_def IsASERTEnabled_def Let_def)
  with e(2) b(2) show ?thesis by blast
qed

text \<open>C28. Mining never comes to a halt on the main network.  For every linked block from the anchor height up to the
  last 32-bit height, with any times at all, the work required of the next block is computed without a failed
  assertion, an overflow or a division by zero, and it is possible to meet: the target is in range, and the smallest
  hash passes the check.  On the test network and the scaling test network, whose constructors leave the later half life and
  its height, or both half lives and the height, unset, this is so if the values found there are a usable
  half life from 3600 seconds up to the 64-bit range wherever one is read.\<close>

theorem required_work_can_be_met:
  assumes "params = CMainParams \<or> (\<exists>h l. params = CTestNetParams h l \<and> half_lives_ok params) \<or>
      (\<exists>h u l. params = CStnParams h u l \<and> half_lives_ok params)"
    and "linked hp p" "anchor_nHeight (asertAnchorParams params) \<le> nHeight (hp p)" "nHeight (hp p) < 2 ^ 31"
  shows "\<exists>bits. GetNextWorkRequired hp (Some p) block params = Inr bits \<and> CheckProofOfWork null_hash bits params"
  using work_can_be_met [OF networks_ok [OF assms(1)] assms(2-4)] .

theorem required_work_can_be_met_witness:
  "\<exists>bits. linked straight_chain 5 \<and> GetNextWorkRequired straight_chain (Some 5) CBlockHeader_null CMainParams = Inr bits \<and>
     CheckProofOfWork null_hash bits CMainParams"
  using required_work_can_be_met [OF _ linked_straight, of CMainParams 5 CBlockHeader_null] linked_straight
  by (auto simp: CMainParams_def)

text \<open>With a zero in the half life the scaling test network leaves unset, the computation divides by zero.\<close>

lemma stn_half_life_undefined:
  assumes "linked hp p" "1 \<le> nHeight (hp p)" "nHeight (hp p) < 2 ^ 31" "h \<le> 0"
  shows "GetNextWorkRequired hp (Some p) block (CStnParams h 0 l) = Inl pow_undefined"
proof -
  let ?t = "GetBlockTime (hp p) - 1638457291" and ?d = "nHeight (hp p) - 1"
  let ?limit = "UintToArith256 (replicate 28 0xff @ replicate 4 0)" and ?ref = "fst (SetCompact 0x1d00ffff)"
  have "0 \<le> GetBlockTime (hp p)" "GetBlockTime (hp p) < 2 ^ 32"
    using unsigned_less [of "index_nTime (hp p)", where 'a = int] by (simp_all add: GetBlockTime_def)
  then have e: "asert_exponent 150 ?t ?d 0 = Inl pow_undefined"
    using assms(2,3) by (simp add: asert_exponent_def i64_range_def i64_div_def)
  have len: "length ?ref = 8" using SetCompact_less [of "0x1d00ffff"] by (cases "SetCompact 0x1d00ffff") auto
  have "EqualTo (base_shr ?limit 224) 0" "CompareTo ?ref (base_uint_of 8 0) > 0" "CompareTo ?ref ?limit \<le> 0"
    using network_values len by (simp_all add: EqualTo_zero base_uint_small)
  moreover obtain q where "pprev (hp p) = Some q" using linked_parent [OF assms(1)] assms(2) by auto
  ultimately show ?thesis
    using assms(2,4) e
    by (simp add: GetNextWorkRequired_def GetNextASERTWorkRequired_def IsASERTEnabled_def CStnParams_def
        CalculateASERT_def Let_def)
qed

end
