(* ===== verification/Spec2Isabelle.thy ===== *)
theory Spec2Isabelle
  imports Sha256_Self_Test Interpreter_Limits Sighash Merkle Chain Pow
begin

text \<open>
  Novo Bitcoin is a full node of a Bitcoin-derived currency, written in C++ under \<open>src/src/\<close>.  This
  development models the part of the node that decides what is valid, without its I/O: the script
  engine, the data it signs and hashes, and the index of blocks with the work they must prove.

  \<^bold>\<open>How the parts interact.\<close>  A transaction input is unlocked by running its script and then the script of the
  output it spends on one stack (\<open>VerifyScript\<close>, which calls \<open>EvalScript\<close> twice).  The stack is a
  \<open>LimitedStack\<close> that charges every element to a memory budget, numbers on it are byte strings read as
  \<open>CScriptNum\<close>, and scripts are decoded by \<open>instruction_iterator\<close>.  The signature opcodes call
  a checker, which hashes parts of the transaction (\<open>SignatureHash\<close>, through \<open>CHashWriter\<close> and
  \<open>CSHA256\<close>) and asks \<open>CPubKey\<close> to verify.  Transactions hang from a block header through the Merkle root; the
  header's hash is compared with a target, which the difficulty adjustment computes from the index of earlier headers; the
  active chain is a vector over that index.

  \<^bold>\<open>Theories, from the bottom.\<close>

  \<^item> \<open>Novo_Prelude\<close>: machine types, results (\<open>Inl\<close> an exception or early return), byte codecs, and the locale
    \<open>functional_refinement\<close>.

  \<^item> \<open>Int_Serialization\<close> (\<open>script/int_serialization.h\<close>), \<open>Big_Int\<close> (\<open>big_int.cpp\<close>), \<open>Script_Num\<close>
    (\<open>script/script_num.cpp\<close>): script numbers.  An \<open>int64_t\<close> is a 64-bit word.  OpenSSL is a record of
    functions; its documented behaviour is the locale \<open>openssl_bn\<close>, extended by \<open>openssl_bn_reads\<close>
    (\<open>BN_mpi2bn\<close> finds memory) and \<open>openssl_bn_total\<close> (every routine does), and interpreted with
    integers as big numbers.  Shown: reading and writing are inverse, and every operator is the integer operation.

  \<^item> \<open>Limited_Stack\<close> (\<open>script/limitedstack.cpp\<close>): stacks in a store, a child charging its parent.  Shown: any sequence of
    calls behaves as calls on two lists with one budget (\<open>two_stacks\<close>), by an interpretation of \<open>functional_refinement\<close>.

  \<^item> \<open>Script\<close> (\<open>script/script.cpp\<close>, \<open>instruction_iterator.h\<close>): scripts.  Shown: pushed data is read back; the two
    decoders agree up to the first invalid opcode.

  \<^item> \<open>Script_Checks\<close>, \<open>Interpreter\<close> (\<open>script/interpreter.cpp\<close>): the helpers, one definition per \<open>case\<close> of the
    \<open>switch\<close>, the loop, \<open>EvalScript\<close> and \<open>VerifyScript\<close>.  The constant arguments of a call are the record \<open>eval_env\<close>, its
    variables the record \<open>eval_state\<close>.  \<open>Interpreter_Safety\<close> has the invariants of every run,
    \<open>Interpreter_Ops\<close> what each opcode computes, \<open>Interpreter_Limits\<close> the operation limit.

  \<^item> \<open>Crypto_Common\<close>, \<open>Sha2_Core\<close>, \<open>Hash_Stream\<close>, \<open>Sha256\<close>, \<open>Sha256_Self_Test\<close>, \<open>Sha512\<close>, \<open>Sha1\<close>,
    \<open>Ripemd160\<close>, \<open>Hashers\<close> (\<open>crypto/\<close>, \<open>hash.cpp\<close>): the hash functions.  The unrolled compression functions are
    kept as programs of rounds, and the classes share the locale \<open>block_hash\<close>.  Shown: however a message is
    cut into writes, the digest is that of the standard.  The references for SHA-256 and SHA-512 are written from
    FIPS 180-4 alone: rotations, constants as fractional parts of roots of primes, least padding.

  \<^item> \<open>Serialize\<close> (\<open>serialize.h\<close>, \<open>streams.h\<close>), \<open>Transaction\<close> (\<open>amount.cpp\<close>, \<open>primitives/transaction.cpp\<close>), \<open>Block\<close>
    (\<open>primitives/block.cpp\<close>): the wire format.  The locale \<open>codec\<close> is the contract of a writer and its reader, interpreted for every
    type that is serialized.  Shown: exactly what was written is read; ids and header hashes commit to their content.

  \<^item> \<open>Pubkey\<close> (\<open>pubkey.cpp\<close>) with libsecp256k1 as a record of functions, and \<open>Sighash\<close> (the checker in
    \<open>script/interpreter.cpp\<close>).  Shown: what a signature commits to, and when a pay-to-public-key-hash output is spent.

  \<^item> \<open>Arith_Uint256\<close> (\<open>arith_uint256.cpp\<close>), \<open>Merkle\<close> (\<open>consensus/merkle.cpp\<close>), \<open>Block_Index\<close> and
    \<open>Block_Index_Store\<close> (\<open>block_index.cpp\<close>, \<open>block_index_store.h\<close>), \<open>Chain\<close> (\<open>chain.cpp\<close>), \<open>Pow\<close> (\<open>pow.cpp\<close>,
    \<open>chainparams.cpp\<close>): blocks and their work.  Index entries live on a heap; \<open>linked\<close> is the inductive invariant of an entry whose
    predecessors reach height 0.  Shown: limb loops are arithmetic modulo \<open>2 ^ 256\<close>, the constant-space Merkle
    root is that of the tree, skip lists and the chain vector agree with following \<open>pprev\<close>, and the required work can be met.
\<close>

text \<open>
  \<^bold>\<open>Fuel and bounds.\<close>  Loops are recursive functions with a termination proof where the code guarantees one.  Five loops
  take fuel.  \<open>shift_loop\<close> gets eight steps per byte and one more, and is shown never to use them up.  \<open>common_walk\<close>,
  \<open>set_tip_loop\<close>, \<open>find_fork_loop\<close> and \<open>locator_loop\<close> follow pointers, which end only in a linked index: without fuel left the value is
  \<open>None\<close>, and the theorems show that fuel above the height of the entry gives a result.  The loops over Merkle
  levels end at level 32, where the shift in the source is undefined and which fewer than \<open>2 ^ 31\<close> leaves do not reach.
  Sizes of containers and heights are unbounded numbers; a theorem for which the width of the C++ type matters states the bound.  The
  default memory limit for blocks is \<open>INT64_MAX\<close>, so no theorem about opcodes takes a smaller limit: where the code
  converts a size to \<open>int\<close>, the statement names the stacks or operands of \<open>2 ^ 31\<close> bytes as the exception.

  \<^bold>\<open>What the code leaves undefined or gets wrong\<close> and the development shows: a length of \<open>0xffffffff\<close> makes
  \<open>CDataStream::read\<close> copy past its buffer (\<open>CDataStream_read_overrun\<close>); splitting an element beyond
  \<open>INT32_MAX\<close> fails an assertion (\<open>op_split_aborts\<close>); \<open>x *= x\<close> on a 256-bit integer gives 0
  (\<open>base_mul_self_zero\<close>); the scaling test network leaves the half life of its difficulty adjustment unset
  (\<open>stn_half_life_undefined\<close>).

  \<^bold>\<open>Not modelled.\<close>  The coins database and connecting blocks, the memory pool, block assembly, the loader of
  the index, the network, the servers, the wallet and the start-up code work on files, sockets, locks and threads.  The hash
  variants in assembly and the vendored libraries are separate code; OpenSSL and libsecp256k1 are
  arguments of the definitions that call them, with hypotheses where a theorem relies on them.  Collisions of
  SHA-256 exist, so the commitment theorems name the collision as the other possibility.  Text output, floating point and the unused
  \<open>CTransactionSignatureSerializer\<close> are left out.
\<close>

end
